(* ===== verification/Prelude.thy ===== *)
theory Prelude
  imports Main "HOL-Library.Word" "HOL-Library.While_Combinator"
begin

text \<open>
  Shared vocabulary of the development: machine integers, byte strings, results and the
  generic lemmas on lists and words that the component theories use.

  A Rust \<^verbatim>\<open>str\<close> is the list of its UTF-8 bytes (\<open>str\<close>), so \<^verbatim>\<open>as_bytes\<close> is the identity
  and \<^verbatim>\<open>len\<close> is the byte length. A literal \<^verbatim>\<open>"abc"\<close> or \<^verbatim>\<open>b"abc"\<close> is \<open>lit ''abc''\<close> and a byte
  literal \<^verbatim>\<open>b'x'\<close> is \<open>ch CHR ''x''\<close>. A Rust \<^verbatim>\<open>Result<T, E>\<close> is \<open>'e + 't\<close> with \<open>Inl\<close> the
  error; \<open>and_then\<close> is the \<^verbatim>\<open>?\<close> operator. A \<^verbatim>\<open>usize\<close> that counts bytes of a slice is a
  \<open>nat\<close>; where the width of an integer matters it is a word.
\<close>

section \<open>Collections of facts\<close>

named_theorems result_simps \<open>rules that resolve a chain of fallible calls\<close>
named_theorems wire_simps \<open>rules that evaluate byte literals and grammars\<close>

section \<open>Types\<close>

type_synonym u8 = "8 word"
type_synonym u32 = "32 word"
type_synonym u64 = "64 word"
type_synonym str = "u8 list"

abbreviation ch :: "char \<Rightarrow> u8" where
  "ch c \<equiv> of_char c"

definition lit :: "string \<Rightarrow> str" where
  "lit s = map of_char s"

lemma lit_Nil [simp]: "lit [] = []"
  by (simp add: lit_def)

lemma lit_Cons [wire_simps]: "lit (c # s) = of_char c # lit s"
  by (simp add: lit_def)

lemma unat_of_char [simp]: "unat (of_char c :: u8) = of_char c"
proof -
  have "unat (of_char c :: u8) = unat (of_nat (of_char c) :: u8)"
    by (simp only: of_nat_of_char)
  also have "\<dots> = of_char c mod 256" by (simp only: unat_of_nat) simp
  finally show ?thesis by simp
qed

lemma of_char_u8_inject [simp]: "(of_char c :: u8) = of_char d \<longleftrightarrow> c = d"
proof
  assume "(of_char c :: u8) = of_char d"
  then have "unat (of_char c :: u8) = unat (of_char d :: u8)" by (rule arg_cong)
  then show "c = d" by simp
qed simp

lemma lit_inject [simp]: "lit s = lit t \<longleftrightarrow> s = t"
proof -
  have "inj (of_char :: char \<Rightarrow> u8)" by (rule injI) simp
  then show ?thesis unfolding lit_def by (rule inj_map_eq_map)
qed

lemma length_lit [simp]: "length (lit s) = length s"
  by (simp add: lit_def)

text \<open>The largest value of a \<^verbatim>\<open>u64\<close>, for the counters that are modelled as \<open>nat\<close>.\<close>

definition U64_MAX :: nat where
  "U64_MAX = 2 ^ 64 - 1"

section \<open>Results\<close>

definition and_then :: "'e + 'a \<Rightarrow> ('a \<Rightarrow> 'e + 'b) \<Rightarrow> 'e + 'b" where
  "and_then r f = (case r of Inl e \<Rightarrow> Inl e | Inr x \<Rightarrow> f x)"

lemma and_then_Inl [simp]: "and_then (Inl e) f = Inl e"
  by (simp add: and_then_def)

lemma and_then_Inr [simp]: "and_then (Inr x) f = f x"
  by (simp add: and_then_def)

lemma and_then_eq_Inr [result_simps]:
  "and_then r f = Inr y \<longleftrightarrow> (\<exists>x. r = Inr x \<and> f x = Inr y)"
  by (cases r) auto

lemma and_then_eq_Inl [result_simps]:
  "and_then r f = Inl e \<longleftrightarrow> r = Inl e \<or> (\<exists>x. r = Inr x \<and> f x = Inl e)"
  by (cases r) auto

lemma and_then_cong [fundef_cong]:
  "r = r' \<Longrightarrow> (\<And>x. r' = Inr x \<Longrightarrow> f x = f' x) \<Longrightarrow> and_then r f = and_then r' f'"
  by (cases r') auto

text \<open>\<^verbatim>\<open>Option::ok_or\<close>.\<close>

definition ok_or :: "'a option \<Rightarrow> 'e \<Rightarrow> 'e + 'a" where
  "ok_or r e = (case r of None \<Rightarrow> Inl e | Some x \<Rightarrow> Inr x)"

lemma ok_or_simps [simp]: "ok_or None e = Inl e" "ok_or (Some x) e = Inr x"
  by (simp_all add: ok_or_def)

lemma ok_or_eq_Inr [result_simps]: "ok_or r e = Inr x \<longleftrightarrow> r = Some x"
  by (cases r) auto

section \<open>Big-endian encodings of machine integers\<close>

definition u32_to_be_bytes :: "u32 \<Rightarrow> u8 list" where
  "u32_to_be_bytes w =
     [ucast (drop_bit 24 w), ucast (drop_bit 16 w), ucast (drop_bit 8 w), ucast w]"

definition u64_to_be_bytes :: "u64 \<Rightarrow> u8 list" where
  "u64_to_be_bytes w =
     [ucast (drop_bit 56 w), ucast (drop_bit 48 w), ucast (drop_bit 40 w), ucast (drop_bit 32 w),
      ucast (drop_bit 24 w), ucast (drop_bit 16 w), ucast (drop_bit 8 w), ucast w]"

definition u32_from_be_bytes :: "u8 \<Rightarrow> u8 \<Rightarrow> u8 \<Rightarrow> u8 \<Rightarrow> u32" where
  "u32_from_be_bytes a b c d =
     push_bit 24 (ucast a) + push_bit 16 (ucast b) + push_bit 8 (ucast c) + ucast d"

lemma length_u32_to_be_bytes [simp]: "length (u32_to_be_bytes w) = 4"
  by (simp add: u32_to_be_bytes_def)

lemma length_u64_to_be_bytes [simp]: "length (u64_to_be_bytes w) = 8"
  by (simp add: u64_to_be_bytes_def)

lemma bit_of_byte:
  fixes w :: "'a::len word"
  assumes "(ucast (drop_bit k w) :: u8) = ucast (drop_bit k w')" and "k \<le> n" and "n < k + 8"
  shows "bit w n \<longleftrightarrow> bit w' n"
proof -
  have "bit (ucast (drop_bit k w) :: u8) (n - k) \<longleftrightarrow> bit (ucast (drop_bit k w') :: u8) (n - k)"
    using assms(1) by simp
  moreover have "n - k < 8" using assms(2,3) by arith
  ultimately show ?thesis
    using assms(2) by (simp add: bit_ucast_iff bit_drop_bit_eq)
qed

lemma u64_to_be_bytes_inject [simp]:
  "u64_to_be_bytes w = u64_to_be_bytes w' \<longleftrightarrow> w = w'"
proof
  assume eq: "u64_to_be_bytes w = u64_to_be_bytes w'"
  have byte: "(ucast (drop_bit k w) :: u8) = ucast (drop_bit k w')"
    if "k \<in> {0, 8, 16, 24, 32, 40, 48, 56}" for k
    using eq that by (auto simp: u64_to_be_bytes_def)
  show "w = w'"
  proof (rule bit_word_eqI)
    fix n assume "n < LENGTH(64)"
    then have n: "n < 64" by simp
    define k where "k = 8 * (n div 8)"
    from n have "n div 8 = 0 \<or> n div 8 = 1 \<or> n div 8 = 2 \<or> n div 8 = 3 \<or>
        n div 8 = 4 \<or> n div 8 = 5 \<or> n div 8 = 6 \<or> n div 8 = 7"
      by arith
    then have "k \<in> {0, 8, 16, 24, 32, 40, 48, 56}"
      unfolding k_def by (elim disjE) simp_all
    moreover have "k \<le> n" "n < k + 8" unfolding k_def by simp_all
    ultimately show "bit w n \<longleftrightarrow> bit w' n" using byte bit_of_byte by blast
  qed
qed simp

text \<open>A property of every byte is a finite check.\<close>

lemma u8_all: "(\<forall>b :: u8. P b) \<longleftrightarrow> list_all (\<lambda>n. P (of_nat n)) [0..<256]"
proof -
  have "P b" if *: "list_all (\<lambda>n. P (of_nat n)) [0..<256]" for b :: u8
  proof -
    have "unat b < 2 ^ LENGTH(8)" by (rule unsigned_less)
    then have "unat b \<in> set [0..<256]" by simp
    with * have "P (of_nat (unat b))" unfolding list_all_iff by (rule bspec)
    then show ?thesis by simp
  qed
  then show ?thesis by (auto simp: list_all_iff)
qed

section \<open>Lists\<close>

lemma take_append_le: "n \<le> length xs \<Longrightarrow> take n (xs @ ys) = take n xs"
  by simp

lemma append_eq_length_inject:
  "length xs = length us \<Longrightarrow> xs @ ys = us @ vs \<longleftrightarrow> xs = us \<and> ys = vs"
  by simp

text \<open>
  A self-delimiting encoding: what follows an encoded value is recovered with it. Frames
  are concatenations of such encodings, so their injectivity is this rule field by field.
\<close>

definition self_delimiting :: "('a \<Rightarrow> 'b list) \<Rightarrow> bool" where
  "self_delimiting enc \<longleftrightarrow>
     (\<forall>x y us vs. enc x @ us = enc y @ vs \<longrightarrow> x = y \<and> us = vs)"

lemma self_delimitingD:
  "self_delimiting enc \<Longrightarrow> enc x @ us = enc y @ vs \<longleftrightarrow> x = y \<and> us = vs"
  by (auto simp: self_delimiting_def)

end
