(* ===== verification/Sha256.thy ===== *)
theory Sha256
  imports Prelude
begin

text \<open>
  The incremental SHA-256 hasher and the lowercase-hex codec of
  \<^verbatim>\<open>crates/archivist-protocol/src/sha256.rs\<close>.

  The hasher is modelled with its fixed 64-byte buffer, its fill level and its wrapping
  64-bit length, so that every branch of \<^verbatim>\<open>update\<close> is there. The reference definition
  \<open>sha256_spec\<close> pads the whole message and folds the compression function over its blocks;
  \<open>absorbed\<close> relates a hasher to the message it has absorbed. The locale
  \<open>incremental_hasher\<close> is the contract the rest of the program relies on: how the input
  is cut into calls of \<^verbatim>\<open>update\<close> does not matter.
\<close>

unbundle bit_operations_syntax

section \<open>The hasher\<close>

definition H0 :: "u32 list" where
  "H0 =
     [0x6a09e667, 0xbb67ae85, 0x3c6ef372, 0xa54ff53a,
      0x510e527f, 0x9b05688c, 0x1f83d9ab, 0x5be0cd19]"

text \<open>
  The round constants, in decimal. FIPS 180-4 defines them as the first 32 bits of the
  fractional parts of the cube roots of the first 64 primes; \<open>K_cube_roots\<close> checks the table
  against that definition.
\<close>

definition K :: "u32 list" where
  "K =
     [1116352408, 1899447441, 3049323471, 3921009573, 961987163, 1508970993, 2453635748, 2870763221,
      3624381080, 310598401, 607225278, 1426881987, 1925078388, 2162078206, 2614888103, 3248222580,
      3835390401, 4022224774, 264347078, 604807628, 770255983, 1249150122, 1555081692, 1996064986,
      2554220882, 2821834349, 2952996808, 3210313671, 3336571891, 3584528711, 113926993, 338241895,
      666307205, 773529912, 1294757372, 1396182291, 1695183700, 1986661051, 2177026350, 2456956037,
      2730485921, 2820302411, 3259730800, 3345764771, 3516065817, 3600352804, 4094571909, 275423344,
      430227734, 506948616, 659060556, 883997877, 958139571, 1322822218, 1537002063, 1747873779,
      1955562222, 2024104815, 2227730452, 2361852424, 2428436474, 2756734187, 3204031479, 3329325298]"

definition first_primes :: "nat list" where
  "first_primes =
     [2, 3, 5, 7, 11, 13, 17, 19, 23, 29, 31, 37, 41, 43, 47, 53,
      59, 61, 67, 71, 73, 79, 83, 89, 97, 101, 103, 107, 109, 113, 127, 131,
      137, 139, 149, 151, 157, 163, 167, 173, 179, 181, 191, 193, 197, 199, 211, 223,
      227, 229, 233, 239, 241, 251, 257, 263, 269, 271, 277, 281, 283, 293, 307, 311]"

definition cube_root_bits :: "u32 \<Rightarrow> nat \<Rightarrow> bool" where
  "cube_root_bits k p \<longleftrightarrow>
     (let q = (if p < 8 then 1 else if p < 27 then 2 else if p < 64 then 3 else if p < 125 then 4
               else if p < 216 then 5 else 6);
          r = q * 2 ^ 32 + unat k
      in r ^ 3 \<le> p * 2 ^ 96 \<and> p * 2 ^ 96 < (r + 1) ^ 3)"

lemma K_cube_roots: "list_all2 cube_root_bits K first_primes"
  by (simp add: K_def first_primes_def cube_root_bits_def Let_def)

record Sha256 =
  sha_state :: "u32 list"
  sha_buffer :: "u8 list"
  sha_buffered :: nat
  sha_length :: u64

definition sha256_new :: Sha256 where
  "sha256_new = \<lparr>sha_state = H0, sha_buffer = replicate 64 0, sha_buffered = 0, sha_length = 0\<rparr>"

text \<open>\<^verbatim>\<open>rotate_right\<close> and \<^verbatim>\<open>>>\<close> on \<^verbatim>\<open>u32\<close>.\<close>

definition rotate_right :: "u32 \<Rightarrow> nat \<Rightarrow> u32" where
  "rotate_right w n = word_rotr n w"

definition schedule_step :: "nat \<Rightarrow> u32 list \<Rightarrow> u32 list" where
  "schedule_step i w =
     (let x = w ! (i - 15);
          y = w ! (i - 2);
          s0 = rotate_right x 7 XOR rotate_right x 18 XOR drop_bit 3 x;
          s1 = rotate_right y 17 XOR rotate_right y 19 XOR drop_bit 10 y
      in w[i := w ! (i - 16) + s0 + w ! (i - 7) + s1])"

definition message_schedule :: "u8 list \<Rightarrow> u32 list" where
  "message_schedule block =
     fold schedule_step [16..<64]
       (fold (\<lambda>i w. w[i := u32_from_be_bytes (block ! (i * 4)) (block ! (i * 4 + 1))
                               (block ! (i * 4 + 2)) (block ! (i * 4 + 3))])
         [0..<16] (replicate 64 0))"

type_synonym working_vars = "u32 \<times> u32 \<times> u32 \<times> u32 \<times> u32 \<times> u32 \<times> u32 \<times> u32"

fun compress_round :: "u32 list \<Rightarrow> nat \<Rightarrow> working_vars \<Rightarrow> working_vars" where
  "compress_round w i (a, b, c, d, e, f, g, h) =
     (let s1 = rotate_right e 6 XOR rotate_right e 11 XOR rotate_right e 25;
          chf = (e AND f) XOR (NOT e AND g);
          t1 = h + s1 + chf + K ! i + w ! i;
          s0 = rotate_right a 2 XOR rotate_right a 13 XOR rotate_right a 22;
          maj = (a AND b) XOR (a AND c) XOR (b AND c);
          t2 = s0 + maj
      in (t1 + t2, a, b, c, d + t1, e, f, g))"

definition compress_state :: "u32 list \<Rightarrow> u8 list \<Rightarrow> u32 list" where
  "compress_state st block =
     (case fold (compress_round (message_schedule block)) [0..<64]
             (st ! 0, st ! 1, st ! 2, st ! 3, st ! 4, st ! 5, st ! 6, st ! 7)
      of (a, b, c, d, e, f, g, h) \<Rightarrow> map2 (+) st [a, b, c, d, e, f, g, h])"

definition compress :: "Sha256 \<Rightarrow> u8 list \<Rightarrow> Sha256" where
  "compress self block = self\<lparr>sha_state := compress_state (sha_state self) block\<rparr>"

text \<open>The \<^verbatim>\<open>while rest.len() >= 64\<close> loop of \<^verbatim>\<open>update\<close>: whole blocks straight from the input.\<close>

function absorb_blocks :: "Sha256 \<Rightarrow> u8 list \<Rightarrow> Sha256 \<times> u8 list" where
  "absorb_blocks self rest =
     (if 64 \<le> length rest then absorb_blocks (compress self (take 64 rest)) (drop 64 rest)
      else (self, rest))"
  by pat_completeness auto
termination
  by (relation "measure (\<lambda>(self, rest). length rest)") auto

declare absorb_blocks.simps [simp del]

text \<open>\<^verbatim>\<open>dst[at..at + src.len()].copy_from_slice(src)\<close>.\<close>

definition copy_at :: "'a list \<Rightarrow> nat \<Rightarrow> 'a list \<Rightarrow> 'a list" where
  "copy_at dst at src = take at dst @ src @ drop (at + length src) dst"

definition top_up :: "Sha256 \<Rightarrow> u8 list \<Rightarrow> Sha256 \<times> u8 list" where
  "top_up self data =
     (if 0 < sha_buffered self then
        let want = 64 - sha_buffered self;
            n = min want (length data);
            self' = self\<lparr>sha_buffer := copy_at (sha_buffer self) (sha_buffered self) (take n data),
                         sha_buffered := sha_buffered self + n\<rparr>
        in (if sha_buffered self' = 64
            then (compress self' (sha_buffer self'))\<lparr>sha_buffered := 0\<rparr> else self',
            drop n data)
      else (self, data))"

definition sha256_update :: "Sha256 \<Rightarrow> u8 list \<Rightarrow> Sha256" where
  "sha256_update self data =
     (case top_up (self\<lparr>sha_length := sha_length self + of_nat (length data)\<rparr>) data of
        (self1, rest1) \<Rightarrow>
          (case absorb_blocks self1 rest1 of
             (self2, rest2) \<Rightarrow>
               if rest2 \<noteq> [] then
                 self2\<lparr>sha_buffer := copy_at (sha_buffer self2) 0 rest2,
                        sha_buffered := length rest2\<rparr>
               else self2))"

definition pad_zeros :: "Sha256 \<Rightarrow> Sha256" where
  "pad_zeros = while (\<lambda>self. sha_buffered self \<noteq> 56) (\<lambda>self. sha256_update self [0])"

definition sha256_finalize :: "Sha256 \<Rightarrow> u8 list" where
  "sha256_finalize self =
     (let bit_len = sha_length self * 8;
          self' = pad_zeros (sha256_update self [0x80]);
          len_block = take 56 (sha_buffer self') @ u64_to_be_bytes bit_len
      in concat (map u32_to_be_bytes (sha_state (compress self' len_block))))"

definition digest :: "u8 list \<Rightarrow> u8 list" where
  "digest data = sha256_finalize (sha256_update sha256_new data)"

section \<open>The hex codec\<close>

definition HEX :: "u8 list" where
  "HEX = lit ''0123456789abcdef''"

definition encode_hex :: "u8 list \<Rightarrow> str" where
  "encode_hex bytes =
     concat (map (\<lambda>b. [HEX ! unat (drop_bit 4 b), HEX ! unat (b AND 0x0f)]) bytes)"

definition hex_value :: "u8 \<Rightarrow> u8 option" where
  "hex_value c =
     (if ch CHR ''0'' \<le> c \<and> c \<le> ch CHR ''9'' then Some (c - ch CHR ''0'')
      else if ch CHR ''a'' \<le> c \<and> c \<le> ch CHR ''f'' then Some (c - ch CHR ''a'' + 10)
      else None)"

fun decode_pairs :: "u8 list \<Rightarrow> u8 list option" where
  "decode_pairs (a # b # rest) =
     (case hex_value a of
        None \<Rightarrow> None
      | Some x \<Rightarrow>
          (case hex_value b of
             None \<Rightarrow> None
           | Some y \<Rightarrow> map_option ((#) (push_bit 4 x OR y)) (decode_pairs rest)))"
| "decode_pairs _ = Some []"

definition decode_hex :: "str \<Rightarrow> u8 list option" where
  "decode_hex text = (if length text mod 2 \<noteq> 0 then None else decode_pairs text)"

section \<open>The reference definition and the absorbed message\<close>

function compress_blocks :: "u32 list \<Rightarrow> u8 list \<Rightarrow> u32 list" where
  "compress_blocks st m =
     (if 64 \<le> length m then compress_blocks (compress_state st (take 64 m)) (drop 64 m) else st)"
  by pat_completeness auto
termination
  by (relation "measure (\<lambda>(st, m). length m)") auto

declare compress_blocks.simps [simp del]

definition sha256_pad :: "u8 list \<Rightarrow> u8 list" where
  "sha256_pad m =
     m @ [0x80] @ replicate ((119 - length m mod 64) mod 64) 0 @ u64_to_be_bytes (of_nat (8 * length m))"

definition sha256_spec :: "u8 list \<Rightarrow> u8 list" where
  "sha256_spec m = concat (map u32_to_be_bytes (compress_blocks H0 (sha256_pad m)))"

definition absorbed :: "Sha256 \<Rightarrow> u8 list \<Rightarrow> bool" where
  "absorbed self m \<longleftrightarrow>
     (\<exists>blocks tail. m = blocks @ tail \<and> 64 dvd length blocks \<and> length tail < 64 \<and>
        length (sha_buffer self) = 64 \<and> sha_buffered self = length tail \<and>
        take (length tail) (sha_buffer self) = tail \<and>
        sha_state self = compress_blocks H0 blocks \<and> sha_length self = of_nat (length m))"

section \<open>The compression loop\<close>

lemma length_compress_state [simp]: "length st = 8 \<Longrightarrow> length (compress_state st block) = 8"
  by (simp add: compress_state_def split: prod.splits)

lemma compress_simps [simp]:
  "sha_state (compress self block) = compress_state (sha_state self) block"
  "sha_buffer (compress self block) = sha_buffer self"
  "sha_buffered (compress self block) = sha_buffered self"
  "sha_length (compress self block) = sha_length self"
  by (simp_all add: compress_def)

lemma length_copy_at [simp]: "at + length src \<le> length dst \<Longrightarrow> length (copy_at dst at src) = length dst"
  by (simp add: copy_at_def)

lemma take_copy_at [simp]:
  "at + length src \<le> length dst \<Longrightarrow> take (at + length src) (copy_at dst at src) = take at dst @ src"
  by (simp add: copy_at_def)

lemma compress_blocks_short [simp]: "length m < 64 \<Longrightarrow> compress_blocks st m = st"
  by (simp add: compress_blocks.simps)

lemma compress_blocks_block [simp]:
  "length b = 64 \<Longrightarrow> compress_blocks st (b @ m) = compress_blocks (compress_state st b) m"
  by (simp add: compress_blocks.simps [of st])

lemma compress_blocks_append:
  "64 dvd length b \<Longrightarrow> compress_blocks st (b @ m) = compress_blocks (compress_blocks st b) m"
proof (induction st b rule: compress_blocks.induct)
  case (1 st b)
  show ?case
  proof (cases "64 \<le> length b")
    case True
    with 1 have "compress_blocks (compress_state st (take 64 b)) (drop 64 b @ m) =
        compress_blocks (compress_blocks (compress_state st (take 64 b)) (drop 64 b)) m"
      by (simp add: dvd_minus_self)
    moreover have "b = take 64 b @ drop 64 b" by simp
    ultimately show ?thesis
      using True compress_blocks_block [of "take 64 b"] by (metis append.assoc length_take min.absorb2)
  next
    case False
    with 1 have "b = []" by (auto dest: dvd_imp_le)
    then show ?thesis by simp
  qed
qed

lemma length_compress_blocks [simp]: "length st = 8 \<Longrightarrow> length (compress_blocks st m) = 8"
  by (induction st m rule: compress_blocks.induct) (simp add: compress_blocks.simps)

lemma absorb_blocks_eq:
  "absorb_blocks self rest =
     (self\<lparr>sha_state := compress_blocks (sha_state self) rest\<rparr>, drop (64 * (length rest div 64)) rest)"
proof (induction self rest rule: absorb_blocks.induct)
  case (1 self rest)
  show ?case
  proof (cases "64 \<le> length rest")
    case True
    with 1 have "absorb_blocks self rest =
       ((compress self (take 64 rest))\<lparr>sha_state := compress_blocks
           (compress_state (sha_state self) (take 64 rest)) (drop 64 rest)\<rparr>,
        drop (64 * (length (drop 64 rest) div 64)) (drop 64 rest))"
      by (simp add: absorb_blocks.simps [of self rest])
    moreover have "64 * (length (drop 64 rest) div 64) + 64 = 64 * (length rest div 64)"
      using True by (simp add: le_div_geq)
    ultimately show ?thesis
      using True by (simp add: compress_def compress_blocks.simps [of "sha_state self" rest] add.commute)
  next
    case False
    then show ?thesis by (simp add: absorb_blocks.simps)
  qed
qed

lemma absorbed_new: "absorbed sha256_new []"
  by (simp add: absorbed_def sha256_new_def)

text \<open>The tail of \<open>update\<close>: an empty buffer absorbs the rest block by block.\<close>

lemma absorbed_rest:
  assumes "64 dvd length blocks" "length (sha_buffer self) = 64" "sha_buffered self = 0"
    and "sha_state self = compress_blocks H0 blocks"
    and "sha_length self = of_nat (length (blocks @ rest))"
    and "absorb_blocks self rest = (self2, rest2)"
  shows "absorbed (if rest2 \<noteq> [] then self2\<lparr>sha_buffer := copy_at (sha_buffer self2) 0 rest2,
            sha_buffered := length rest2\<rparr> else self2) (blocks @ rest)"
proof -
  define n where "n = 64 * (length rest div 64)"
  have n: "n \<le> length rest" "64 dvd n" by (auto simp: n_def)
  have len: "length (drop n rest) < 64"
    unfolding n_def by (simp add: minus_mult_div_eq_mod)
  from assms(6) have rest2: "rest2 = drop n rest"
    and self2: "self2 = self\<lparr>sha_state := compress_blocks (sha_state self) rest\<rparr>"
    by (auto simp: absorb_blocks_eq n_def)
  have "compress_blocks (compress_blocks H0 blocks) rest = compress_blocks H0 (blocks @ take n rest)"
  proof -
    have "compress_blocks st rest = compress_blocks st (take n rest)" for st
      using compress_blocks_append [of "take n rest" st "drop n rest"] n len by simp
    then show ?thesis using assms(1) by (simp add: compress_blocks_append)
  qed
  with assms rest2 self2 n len show ?thesis
    unfolding absorbed_def
    by (intro exI [of _ "blocks @ take n rest"] exI [of _ "drop n rest"])
       (auto simp: copy_at_def)
qed

lemma absorbed_update:
  assumes "absorbed self m"
  shows "absorbed (sha256_update self data) (m @ data)"
proof -
  from assms obtain blocks tail where m: "m = blocks @ tail" "64 dvd length blocks" "length tail < 64"
    and buf: "length (sha_buffer self) = 64" "sha_buffered self = length tail"
      "take (length tail) (sha_buffer self) = tail"
    and st: "sha_state self = compress_blocks H0 blocks" and len: "sha_length self = of_nat (length m)"
    unfolding absorbed_def by blast
  define self0 where "self0 = self\<lparr>sha_length := sha_length self + of_nat (length data)\<rparr>"
  obtain self1 rest1 where top: "top_up self0 data = (self1, rest1)" by (cases "top_up self0 data")
  obtain self2 rest2 where abs: "absorb_blocks self1 rest1 = (self2, rest2)"
    by (cases "absorb_blocks self1 rest1")
  have upd: "sha256_update self data = (if rest2 \<noteq> [] then self2\<lparr>sha_buffer := copy_at (sha_buffer self2) 0 rest2,
            sha_buffered := length rest2\<rparr> else self2)"
    using top abs by (simp add: sha256_update_def self0_def)
  show ?thesis
  proof (cases "64 \<le> length tail + length data \<or> tail = []")
    case True
    define n where "n = (if tail = [] then 0 else 64 - length tail)"
    define blocks' where "blocks' = blocks @ (if tail = [] then [] else tail @ take n data)"
    have n: "n \<le> length data" "tail \<noteq> [] \<Longrightarrow> length tail + n = 64"
      using True m by (auto simp: n_def)
    have "64 dvd length blocks'" using m n by (auto simp: blocks'_def)
    moreover have "length (sha_buffer self1) = 64 \<and> sha_buffered self1 = 0 \<and>
        sha_state self1 = compress_blocks H0 blocks' \<and> rest1 = drop n data \<and> sha_length self1 = sha_length self0"
    proof (cases "tail = []")
      case True
      with top buf st show ?thesis by (auto simp: top_up_def self0_def blocks'_def n_def)
    next
      case False
      with n have mn: "min (64 - length tail) (length data) = n" by (simp add: n_def)
      have block: "copy_at (sha_buffer self) (length tail) (take n data) = tail @ take n data"
        using n False buf by (simp add: copy_at_def)
      from False top buf st n mn block m show ?thesis
        by (auto simp: top_up_def self0_def blocks'_def Let_def compress_blocks_append
            compress_blocks_block [of _ _ "[]", simplified])
    qed
    moreover have "blocks' @ drop n data = m @ data"
      using m n by (auto simp: blocks'_def n_def)
    moreover have "sha_length self0 = of_nat (length (m @ data))" by (simp add: self0_def len)
    ultimately show ?thesis
      using absorbed_rest [of blocks' self1 rest1 self2 rest2] abs upd by simp
  next
    case False
    then have n: "min (64 - length tail) (length data) = length data" and t: "tail \<noteq> []"
      and lt: "length tail + length data < 64" by auto
    have self1: "self1 = self0\<lparr>sha_buffer := copy_at (sha_buffer self) (length tail) data,
                     sha_buffered := length tail + length data\<rparr>" and rest1: "rest1 = []"
      using top buf n t lt by (auto simp: top_up_def self0_def Let_def)
    have "rest2 = []" "self2 = self1"
      using abs by (auto simp: absorb_blocks.simps rest1)
    then have "sha256_update self data = self1" using upd by simp
    then show ?thesis
      unfolding absorbed_def using m buf st len lt
      by (intro exI [of _ blocks] exI [of _ "tail @ data"])
         (auto simp: self1 self0_def copy_at_def)
  qed
qed

section \<open>Padding and finishing\<close>

lemma absorbed_buffered: "absorbed self m \<Longrightarrow> sha_buffered self = length m mod 64"
  by (auto simp: absorbed_def)

text \<open>How many zero bytes bring a fill level of \<open>r\<close> bytes to 56.\<close>

lemma zeros_needed:
  fixes r :: nat
  assumes "r < 64"
  shows "(120 - r) mod 64 = (if r \<le> 56 then 56 - r else 120 - r)"
proof (cases "r \<le> 56")
  case True
  then have "120 - r = 64 + (56 - r)" by simp
  then have "(120 - r) mod 64 = (56 - r) mod 64" by (metis mod_add_self1)
  with True show ?thesis by simp
next
  case False
  with assms show ?thesis by simp
qed

lemma pad_zeros_terminates:
  assumes "absorbed self m"
  shows "\<exists>self'. while_option (\<lambda>self. sha_buffered self \<noteq> 56) (\<lambda>self. sha256_update self [0]) self = Some self' \<and>
     absorbed self' (m @ replicate ((120 - length m mod 64) mod 64) 0)"
  using assms
proof (induction "(120 - length m mod 64) mod 64" arbitrary: self m)
  case 0
  then have "length m mod 64 = 56"
    using zeros_needed [of "length m mod 64"] by (simp split: if_splits)
  with 0 show ?case by (simp add: while_option_unfold absorbed_buffered)
next
  case (Suc z)
  define r r' where "r = length m mod 64" and "r' = length (m @ [0]) mod 64"
  have r: "r < 64" "r' < 64" by (simp_all only: r_def r'_def mod_less_divisor zero_less_numeral)
  have step: "r' = (if r = 63 then 0 else Suc r)" by (simp add: r_def r'_def mod_Suc)
  have "Suc z = (if r \<le> 56 then 56 - r else 120 - r)"
    using Suc.hyps(2) zeros_needed [OF r(1)] by (simp add: r_def)
  then have ne: "length m mod 64 \<noteq> 56"
    and z': "z = (if r' \<le> 56 then 56 - r' else 120 - r')"
    using r step by (auto simp: r_def [symmetric] split: if_splits)
  have z: "z = (120 - length (m @ [0]) mod 64) mod 64"
    using z' zeros_needed [OF r(2)] by (simp only: r'_def)
  from Suc.prems have abs: "absorbed (sha256_update self [0]) (m @ [0])" by (rule absorbed_update)
  from ne Suc.prems show ?case
    using Suc.hyps(1) [OF z abs] Suc.hyps(2) [symmetric] z [symmetric]
    by (simp add: while_option_unfold [of _ _ self] absorbed_buffered)
qed

lemma absorbed_pad_zeros:
  assumes "absorbed self m"
  shows "absorbed (pad_zeros self) (m @ replicate ((120 - length m mod 64) mod 64) 0)"
  using pad_zeros_terminates [OF assms] by (auto simp: pad_zeros_def while_def)

lemma finalize_spec:
  assumes "absorbed self m"
  shows "sha256_finalize self = sha256_spec m"
proof -
  define self' where "self' = pad_zeros (sha256_update self [0x80])"
  define z where "z = (119 - length m mod 64) mod 64"
  have z: "z = (120 - length (m @ [0x80]) mod 64) mod 64"
    by (simp add: z_def mod_Suc)
  have z56: "(length (m @ [0x80]) + z) mod 64 = 56"
  proof -
    define r where "r = length (m @ [0x80]) mod 64"
    have "(length (m @ [0x80]) + z) mod 64 = (r + (120 - r) mod 64) mod 64"
      unfolding z r_def by (simp only: mod_add_left_eq)
    moreover have "r < 64" by (simp add: r_def)
    ultimately show ?thesis by (auto simp: zeros_needed)
  qed
  have abs: "absorbed self' (m @ [0x80] @ replicate z 0)"
    using absorbed_pad_zeros [OF absorbed_update [OF assms, of "[0x80]"]]
    by (simp add: self'_def z)
  from abs obtain blocks tail where m: "m @ [0x80] @ replicate z 0 = blocks @ tail" "64 dvd length blocks"
    and t: "sha_buffered self' = length tail" "take (length tail) (sha_buffer self') = tail"
    and st: "sha_state self' = compress_blocks H0 blocks"
    unfolding absorbed_def by blast
  have "length tail = 56" using absorbed_buffered [OF abs] t(1) z56 by simp
  then have tail: "length tail = 56" "take 56 (sha_buffer self') = tail" using t(2) by simp_all
  have len: "sha_length self * 8 = of_nat (8 * length m)"
    using assms by (auto simp: absorbed_def)
  have "sha256_finalize self = concat (map u32_to_be_bytes
      (compress_state (compress_blocks H0 blocks) (tail @ u64_to_be_bytes (of_nat (8 * length m)))))"
    using tail st by (simp add: sha256_finalize_def Let_def len flip: self'_def)
  also have "\<dots> = concat (map u32_to_be_bytes
      (compress_blocks H0 (blocks @ tail @ u64_to_be_bytes (of_nat (8 * length m)))))"
    using m tail compress_blocks_block [of "tail @ u64_to_be_bytes (of_nat (8 * length m))" _ "[]"]
    by (simp add: compress_blocks_append)
  also have "blocks @ tail @ u64_to_be_bytes (of_nat (8 * length m)) = sha256_pad m"
    using m(1) by (simp add: sha256_pad_def z_def)
  finally show ?thesis by (simp add: sha256_spec_def)
qed

locale incremental_hasher =
  fixes new :: 'h
    and update :: "'h \<Rightarrow> 'b list \<Rightarrow> 'h"
    and finalize :: "'h \<Rightarrow> 'd"
    and holds :: "'h \<Rightarrow> 'b list \<Rightarrow> bool"
    and spec :: "'b list \<Rightarrow> 'd"
  assumes holds_new: "holds new []"
    and holds_update: "holds h m \<Longrightarrow> holds (update h data) (m @ data)"
    and finalize_holds: "holds h m \<Longrightarrow> finalize h = spec m"
begin

lemma holds_fold: "holds h m \<Longrightarrow> holds (fold (\<lambda>d h. update h d) chunks h) (m @ concat chunks)"
proof (induction chunks arbitrary: h m)
  case (Cons c chunks)
  then show ?case using holds_update [of h m c] Cons.IH [of "update h c" "m @ c"] by simp
qed simp

lemma finalize_fold: "finalize (fold (\<lambda>d h. update h d) chunks new) = spec (concat chunks)"
  using holds_fold [OF holds_new] by (simp add: finalize_holds)

lemma chunking_irrelevant:
  "concat chunks = concat chunks' \<Longrightarrow>
   finalize (fold (\<lambda>d h. update h d) chunks new) = finalize (fold (\<lambda>d h. update h d) chunks' new)"
  by (simp add: finalize_fold)

end

interpretation sha: incremental_hasher sha256_new sha256_update sha256_finalize absorbed sha256_spec
  by unfold_locales (fact absorbed_new absorbed_update finalize_spec)+

lemma digest_spec: "digest data = sha256_spec data"
  using sha.finalize_fold [of "[data]"] by (simp add: digest_def)

lemma length_digest [simp]: "length (digest data) = 32"
proof -
  have "length (compress_blocks H0 (sha256_pad data)) = 8" by (simp add: H0_def)
  then show ?thesis
    by (simp add: digest_spec sha256_spec_def length_concat comp_def sum_list_triv)
qed
section \<open>Hex round trips\<close>

lemma nibbles_all:
  "\<forall>b :: u8. push_bit 4 (drop_bit 4 b) OR (b AND 0x0f) = b \<and>
     unat (drop_bit 4 b) < 16 \<and> unat (b AND 0x0f) < 16"
  unfolding u8_all by code_simp

lemma hex_value_HEX_all: "list_all (\<lambda>n. hex_value (HEX ! n) = Some (of_nat n)) [0..<16]"
  by code_simp

lemma hex_value_HEX: "n < 16 \<Longrightarrow> hex_value (HEX ! n) = Some (of_nat n)"
  using hex_value_HEX_all by (simp add: list_all_iff)

lemma hex_pair_all:
  "list_all (\<lambda>m. list_all (\<lambda>n.
     let x = of_nat m; y = of_nat n; b = push_bit 4 x OR y :: u8
     in unat (drop_bit 4 b) = m \<and> unat (b AND 0x0f) = n) [0..<16]) [0..<16]"
  by code_simp

lemma hex_value_SomeD_all:
  "\<forall>c. case hex_value c of None \<Rightarrow> True | Some v \<Rightarrow> unat v < 16 \<and> HEX ! unat v = c"
  unfolding u8_all by code_simp

lemma hex_value_SomeD: "hex_value c = Some v \<Longrightarrow> unat v < 16 \<and> HEX ! unat v = c"
  using hex_value_SomeD_all [THEN spec, of c] by simp

lemma encode_hex_simps [simp]:
  "encode_hex [] = []"
  "encode_hex (b # bs) = HEX ! unat (drop_bit 4 b) # HEX ! unat (b AND 0x0f) # encode_hex bs"
  "encode_hex (bs @ cs) = encode_hex bs @ encode_hex cs"
  by (simp_all add: encode_hex_def)

lemma length_encode_hex [simp]: "length (encode_hex bs) = 2 * length bs"
  by (induction bs) auto

lemma decode_pairs_encode: "decode_pairs (encode_hex bs) = Some bs"
proof (induction bs)
  case (Cons b bs)
  have "push_bit 4 (drop_bit 4 b) OR (b AND 0x0f) = b" "unat (drop_bit 4 b) < 16" "unat (b AND 0x0f) < 16"
    using nibbles_all by blast+
  with Cons show ?case by (simp add: hex_value_HEX)
qed simp

lemma decode_hex_encode [simp]: "decode_hex (encode_hex bs) = Some bs"
  by (simp add: decode_hex_def decode_pairs_encode)

lemma encode_pair:
  assumes "hex_value a = Some x" "hex_value b = Some y"
  shows "encode_hex [push_bit 4 x OR y] = [a, b]"
proof -
  have "unat x < 16" "HEX ! unat x = a" "unat y < 16" "HEX ! unat y = b"
    using assms hex_value_SomeD by blast+
  moreover have "unat (drop_bit 4 (push_bit 4 x OR y)) = unat x" "unat ((push_bit 4 x OR y) AND 0x0f) = unat y"
    using calculation hex_pair_all [unfolded list_all_iff, THEN bspec, THEN bspec, of "unat x" "unat y"]
    by (simp_all add: Let_def)
  ultimately show ?thesis by simp
qed

lemma encode_decode_pairs:
  "even (length t) \<Longrightarrow> decode_pairs t = Some bs \<Longrightarrow> encode_hex bs = t"
proof (induction t arbitrary: bs rule: decode_pairs.induct)
  case (1 a b rest)
  then obtain x y cs where "hex_value a = Some x" "hex_value b = Some y"
    "decode_pairs rest = Some cs" "bs = (push_bit 4 x OR y) # cs"
    by (auto split: option.splits)
  with 1 encode_pair [of a x b y] show ?case by simp
qed auto

lemma encode_decode_hex: "decode_hex t = Some bs \<Longrightarrow> encode_hex bs = t"
  by (auto simp: decode_hex_def even_iff_mod_2_eq_zero intro: encode_decode_pairs split: if_splits)

lemma encode_hex_inject [simp]: "encode_hex bs = encode_hex cs \<longleftrightarrow> bs = cs"
proof
  assume "encode_hex bs = encode_hex cs"
  then have "decode_hex (encode_hex bs) = decode_hex (encode_hex cs)" by (rule arg_cong)
  then show "bs = cs" by simp
qed simp

section \<open>Properties\<close>

text \<open>
  C3. Streaming is invisible: however a message is cut into calls of \<open>sha256_update\<close> (each of
  any size), finishing the hasher gives the FIPS 180-4 digest of the whole message, that is
  the compression function folded over the padded message, and so does the one-shot
  \<open>digest\<close>. In particular the padding loop of \<open>sha256_finalize\<close> ends.
\<close>

theorem sha256_streaming:
  "sha256_finalize (fold (\<lambda>d self. sha256_update self d) chunks sha256_new) = sha256_spec (concat chunks)
   \<and> digest (concat chunks) = sha256_spec (concat chunks)"
  by (simp add: sha.finalize_fold digest_spec)

text \<open>The FIPS test vector of the one-block message \<^verbatim>\<open>abc\<close>, evaluated by the kernel.\<close>

lemma digest_abc:
  "encode_hex (digest (lit ''abc'')) =
     lit ''ba7816bf8f01cfea414140de5dae2223b00361a396177a9cb410ff61f20015ad''"
  by code_simp

text \<open>
  C40. The hex codec is a bijection between byte strings and the lowercase hex texts of even
  length: \<open>decode_hex\<close> accepts exactly the texts that \<open>encode_hex\<close> renders and returns the
  bytes that were rendered.
\<close>

theorem hex_codec: "decode_hex t = Some bs \<longleftrightarrow> t = encode_hex bs"
  using encode_decode_hex by auto

end
