(* ===== verification/Vocabulary.thy ===== *)
theory Vocabulary
  imports Sha256
begin

text \<open>
  The wire vocabulary of \<^verbatim>\<open>crates/archivist-protocol/src/vocabulary.rs\<close>: the identifier grammars,
  the text, digest and key newtypes with their parsers, the calendar check of timestamps and
  the closed enums with their token tables.

  The macros \<^verbatim>\<open>text_newtype!\<close> and \<^verbatim>\<open>digest_newtype!\<close> are the generic parsers
  \<open>text_newtype_parse\<close> and \<open>hex_newtype_parse\<close>; every instance of a macro is one definition.
  A text newtype is its wire text, a digest is its raw bytes. The locale \<open>wire_type\<close> states
  what the records rely on: parsing and rendering are inverse, so equal values have equal
  wire text and conversely.
\<close>

section \<open>ASCII classes of the standard library\<close>

definition is_ascii_digit :: "u8 \<Rightarrow> bool" where
  "is_ascii_digit c \<longleftrightarrow> ch CHR ''0'' \<le> c \<and> c \<le> ch CHR ''9''"

definition is_ascii_lowercase :: "u8 \<Rightarrow> bool" where
  "is_ascii_lowercase c \<longleftrightarrow> ch CHR ''a'' \<le> c \<and> c \<le> ch CHR ''z''"

definition is_ascii_uppercase :: "u8 \<Rightarrow> bool" where
  "is_ascii_uppercase c \<longleftrightarrow> ch CHR ''A'' \<le> c \<and> c \<le> ch CHR ''Z''"

definition is_ascii_alphanumeric :: "u8 \<Rightarrow> bool" where
  "is_ascii_alphanumeric c \<longleftrightarrow> is_ascii_lowercase c \<or> is_ascii_uppercase c \<or> is_ascii_digit c"

text \<open>\<^verbatim>\<open>Iterator::position\<close> and \<^verbatim>\<open>str::chars().count()\<close> (the bytes that start a character).\<close>

fun position :: "('a \<Rightarrow> bool) \<Rightarrow> 'a list \<Rightarrow> nat option" where
  "position P [] = None"
| "position P (x # xs) = (if P x then Some 0 else map_option Suc (position P xs))"

definition chars_count :: "str \<Rightarrow> nat" where
  "chars_count t = length (filter (\<lambda>b. and b 0xC0 \<noteq> 0x80) t)"

text \<open>\<^verbatim>\<open>&raw[a..b]\<close>.\<close>

definition subslice :: "nat \<Rightarrow> nat \<Rightarrow> 'a list \<Rightarrow> 'a list" where
  "subslice a b xs = take (b - a) (drop a xs)"

section \<open>Grammars\<close>

datatype GrammarError = NotCanonical

definition is_lower_hex :: "u8 \<Rightarrow> bool" where
  "is_lower_hex c \<longleftrightarrow> is_ascii_digit c \<or> (ch CHR ''a'' \<le> c \<and> c \<le> ch CHR ''f'')"

definition uuid_byte :: "u8 \<Rightarrow> nat \<Rightarrow> u8 \<Rightarrow> bool" where
  "uuid_byte version i c =
     (if i = 8 \<or> i = 13 \<or> i = 18 \<or> i = 23 then c = ch CHR ''-''
      else if i = 14 then c = ch CHR ''0'' + version
      else if i = 19 then c = ch CHR ''8'' \<or> c = ch CHR ''9'' \<or> c = ch CHR ''a'' \<or> c = ch CHR ''b''
      else is_lower_hex c)"

definition uuid_grammar :: "str \<Rightarrow> u8 \<Rightarrow> bool" where
  "uuid_grammar text version \<longleftrightarrow>
     (if length text \<noteq> 36 then False
      else list_all (\<lambda>(i, c). uuid_byte version i c) (enumerate 0 text))"

definition short_token_grammar :: "str \<Rightarrow> bool" where
  "short_token_grammar raw \<longleftrightarrow>
     (if raw = [] \<or> length raw > 64 then False
      else if \<not> (is_ascii_lowercase (raw ! 0) \<or> is_ascii_digit (raw ! 0)) then False
      else list_all (\<lambda>c. is_ascii_lowercase c \<or> is_ascii_digit c \<or>
                         c \<in> {ch CHR ''.'', ch CHR ''_'', ch CHR ''-''}) (drop 1 raw))"

definition version_token_grammar :: "str \<Rightarrow> bool" where
  "version_token_grammar raw \<longleftrightarrow>
     raw \<noteq> [] \<and> length raw \<le> 32 \<and>
     list_all (\<lambda>c. is_ascii_alphanumeric c \<or>
                   c \<in> {ch CHR ''.'', ch CHR ''_'', ch CHR ''+'', ch CHR ''-''}) raw"

definition digits :: "str \<Rightarrow> bool" where
  "digits s = list_all is_ascii_digit s"

definition timestamp_grammar :: "str \<Rightarrow> bool" where
  "timestamp_grammar raw \<longleftrightarrow>
     (if length raw > 35 then False
      else if length raw < 20 then False
      else if raw ! 4 \<noteq> ch CHR ''-'' \<or> raw ! 7 \<noteq> ch CHR ''-'' \<or> raw ! 10 \<noteq> ch CHR ''T'' \<or>
              raw ! 13 \<noteq> ch CHR '':'' \<or> raw ! 16 \<noteq> ch CHR '':'' then False
      else if \<not> digits (subslice 0 4 raw) \<or> \<not> digits (subslice 5 7 raw) \<or> \<not> digits (subslice 8 10 raw) then False
      else if \<not> digits (subslice 11 13 raw) \<or> \<not> digits (subslice 14 16 raw) \<or> \<not> digits (subslice 17 19 raw)
        then False
      else let tail = drop 19 raw; n = length tail in
        if tail = [] \<or> last tail \<noteq> ch CHR ''Z'' then False
        else if n = 1 then True
        else if n \<ge> 3 \<and> tail ! 0 = ch CHR ''.''
          then digits (subslice 1 (n - 1) tail) \<and> 2 \<le> n - 1 \<and> n - 1 \<le> 10
        else False)"

definition CONTENT_TYPE_PREFIX :: str where
  "CONTENT_TYPE_PREFIX = lit ''multipart/related; boundary=''"

definition boundary_char :: "u8 \<Rightarrow> bool" where
  "boundary_char c \<longleftrightarrow> is_ascii_alphanumeric c \<or>
     c \<in> {0x27, ch CHR ''('', ch CHR '')'', ch CHR ''+'', ch CHR ''_'', ch CHR '','', ch CHR ''.'',
          ch CHR '':'', ch CHR ''='', ch CHR ''?'', ch CHR ''-''}"

definition content_type_grammar :: "str \<Rightarrow> bool" where
  "content_type_grammar raw \<longleftrightarrow>
     (if length raw > 100 \<or> take (length CONTENT_TYPE_PREFIX) raw \<noteq> CONTENT_TYPE_PREFIX then False
      else let boundary = drop (length CONTENT_TYPE_PREFIX) raw in
        1 \<le> length boundary \<and> length boundary \<le> 70 \<and> list_all boundary_char boundary)"

definition error_code_segment :: "str \<Rightarrow> bool" where
  "error_code_segment s \<longleftrightarrow>
     (if s = [] \<or> length s > 24 then False
      else if \<not> is_ascii_lowercase (s ! 0) then False
      else list_all (\<lambda>c. is_ascii_lowercase c \<or> is_ascii_digit c \<or> c = ch CHR ''_'') (drop 1 s))"

definition error_code_grammar :: "str \<Rightarrow> bool" where
  "error_code_grammar raw \<longleftrightarrow>
     (case position (\<lambda>c. c = ch CHR ''.'') raw of
        None \<Rightarrow> False
      | Some dot \<Rightarrow> if dot > 0
          then error_code_segment (take dot raw) \<and> error_code_segment (drop (dot + 1) raw)
          else False)"

definition opaque_id_grammar :: "str \<Rightarrow> bool" where
  "opaque_id_grammar t \<longleftrightarrow> t \<noteq> [] \<and> length t \<le> 1024"

definition safe_message_grammar :: "str \<Rightarrow> bool" where
  "safe_message_grammar t \<longleftrightarrow> chars_count t \<le> 200 \<and>
     list_all (\<lambda>b. (0x20 \<le> b \<and> b \<le> 0x7a) \<or> b = 0x7c \<or> b = 0x7e) t"

section \<open>Text newtypes\<close>

definition text_newtype_parse :: "(str \<Rightarrow> bool) \<Rightarrow> str \<Rightarrow> GrammarError + str" where
  "text_newtype_parse validate t = (if validate t then Inr t else Inl NotCanonical)"

type_synonym TenantId = str
type_synonym ClientId = str
type_synonym GenerationId = str
type_synonym RequestId = str
type_synonym TraceId = str
type_synonym InferenceRequestId = str
type_synonym ProviderAttemptId = str
type_synonym HarnessId = str
type_synonym AdapterId = str
type_synonym VersionToken = str
type_synonym OpaqueId = str
type_synonym Timestamp = str
type_synonym ContentType = str
type_synonym ErrorCode = str
type_synonym SafeMessage = str

definition TenantId_parse :: "str \<Rightarrow> GrammarError + TenantId" where
  "TenantId_parse = text_newtype_parse (\<lambda>t. uuid_grammar t 4)"

definition ClientId_parse :: "str \<Rightarrow> GrammarError + ClientId" where
  "ClientId_parse = text_newtype_parse (\<lambda>t. uuid_grammar t 4)"

definition GenerationId_parse :: "str \<Rightarrow> GrammarError + GenerationId" where
  "GenerationId_parse = text_newtype_parse (\<lambda>t. uuid_grammar t 7)"

definition RequestId_parse :: "str \<Rightarrow> GrammarError + RequestId" where
  "RequestId_parse = text_newtype_parse (\<lambda>t. uuid_grammar t 7)"

definition TraceId_parse :: "str \<Rightarrow> GrammarError + TraceId" where
  "TraceId_parse = text_newtype_parse (\<lambda>t. uuid_grammar t 7)"

definition InferenceRequestId_parse :: "str \<Rightarrow> GrammarError + InferenceRequestId" where
  "InferenceRequestId_parse = text_newtype_parse (\<lambda>t. uuid_grammar t 7)"

definition ProviderAttemptId_parse :: "str \<Rightarrow> GrammarError + ProviderAttemptId" where
  "ProviderAttemptId_parse = text_newtype_parse (\<lambda>t. uuid_grammar t 7)"

definition HarnessId_parse :: "str \<Rightarrow> GrammarError + HarnessId" where
  "HarnessId_parse = text_newtype_parse short_token_grammar"

definition AdapterId_parse :: "str \<Rightarrow> GrammarError + AdapterId" where
  "AdapterId_parse = text_newtype_parse short_token_grammar"

definition VersionToken_parse :: "str \<Rightarrow> GrammarError + VersionToken" where
  "VersionToken_parse = text_newtype_parse version_token_grammar"

definition OpaqueId_parse :: "str \<Rightarrow> GrammarError + OpaqueId" where
  "OpaqueId_parse = text_newtype_parse opaque_id_grammar"

definition Timestamp_parse :: "str \<Rightarrow> GrammarError + Timestamp" where
  "Timestamp_parse = text_newtype_parse timestamp_grammar"

definition ContentType_parse :: "str \<Rightarrow> GrammarError + ContentType" where
  "ContentType_parse = text_newtype_parse content_type_grammar"

definition ErrorCode_parse :: "str \<Rightarrow> GrammarError + ErrorCode" where
  "ErrorCode_parse = text_newtype_parse error_code_grammar"

definition SafeMessage_parse :: "str \<Rightarrow> GrammarError + SafeMessage" where
  "SafeMessage_parse = text_newtype_parse safe_message_grammar"

text \<open>\<^verbatim>\<open>ContentType::boundary\<close>; the subslice panics when it is out of range, the value \<open>None\<close>.\<close>

definition boundary :: "ContentType \<Rightarrow> str option" where
  "boundary ct = (if length CONTENT_TYPE_PREFIX \<le> length ct
     then Some (drop (length CONTENT_TYPE_PREFIX) ct) else None)"

text \<open>
  \<^verbatim>\<open>Timestamp::calendar_valid\<close>. The \<^verbatim>\<open>u32\<close> accumulator of \<open>number\<close> reads at most four digits
  (\<open>number_bound\<close> below), so it is a \<open>nat\<close>.
\<close>

definition number :: "str \<Rightarrow> nat" where
  "number s = foldl (\<lambda>acc c. acc * 10 + unat (c - ch CHR ''0'')) 0 s"

definition calendar_valid :: "Timestamp \<Rightarrow> bool" where
  "calendar_valid raw =
     (let year = number (subslice 0 4 raw); month = number (subslice 5 7 raw);
          day = number (subslice 8 10 raw); hour = number (subslice 11 13 raw);
          minute = number (subslice 14 16 raw); second = number (subslice 17 19 raw)
      in if \<not> (1 \<le> month \<and> month \<le> 12) then False
         else let leap = year mod 4 = 0 \<and> (year mod 100 \<noteq> 0 \<or> year mod 400 = 0);
                  days_in_month =
                    (if month \<in> {1, 3, 5, 7, 8, 10, 12} then Some 31
                     else if month \<in> {4, 6, 9, 11} then Some 30
                     else if month = 2 \<and> leap then Some 29
                     else if month = 2 then Some (28 :: nat)
                     else None)
              in case days_in_month of
                   None \<Rightarrow> False
                 | Some n \<Rightarrow> 1 \<le> day \<and> day \<le> n \<and> hour < 24 \<and> minute < 60 \<and> second \<le> 60)"

section \<open>Digest and key newtypes\<close>

text \<open>
  \<^verbatim>\<open>digest_newtype!\<close> and the two Ed25519 types: a fixed number \<open>n\<close> of raw bytes parsed from \<open>2 * n\<close>
  lowercase hex characters. The \<^verbatim>\<open>copy_from_slice\<close> into the array of \<open>n\<close> bytes panics unless
  exactly \<open>n\<close> bytes were decoded (\<open>None\<close>).
\<close>

definition copy_from_slice :: "nat \<Rightarrow> u8 list \<Rightarrow> u8 list option" where
  "copy_from_slice n bytes = (if length bytes = n then Some bytes else None)"

definition hex_newtype_parse :: "nat \<Rightarrow> str \<Rightarrow> (GrammarError + u8 list) option" where
  "hex_newtype_parse n t =
     (if length t \<noteq> 2 * n \<or> \<not> list_all is_lower_hex t then Some (Inl NotCanonical)
      else case decode_hex t of
          None \<Rightarrow> Some (Inl NotCanonical)
        | Some bytes \<Rightarrow> map_option Inr (copy_from_slice n bytes))"

text \<open>The parser as the records use it; \<open>hex_newtype_parse_no_panic\<close> below shows that it is total.\<close>

definition hex_parse :: "nat \<Rightarrow> str \<Rightarrow> GrammarError + u8 list" where
  "hex_parse n t = (case hex_newtype_parse n t of None \<Rightarrow> Inl NotCanonical | Some r \<Rightarrow> r)"

type_synonym Digest = "u8 list"
type_synonym SessionHash = Digest
type_synonym ArtifactHash = Digest
type_synonym OccurrenceId = Digest
type_synonym AttestationId = Digest
type_synonym BlobDigest = Digest
type_synonym IncomingChecksum = Digest
type_synonym EnvelopeDigest = Digest
type_synonym RequestContentDigest = Digest
type_synonym PayloadCanonicalDigest = Digest
type_synonym PayloadTransportDigest = Digest
type_synonym KeyId = Digest
type_synonym Ed25519PublicKey = "u8 list"
type_synonym Ed25519Signature = "u8 list"

definition digest_parse :: "str \<Rightarrow> GrammarError + Digest" where
  "digest_parse = hex_parse 32"

definition Ed25519PublicKey_parse :: "str \<Rightarrow> GrammarError + Ed25519PublicKey" where
  "Ed25519PublicKey_parse = hex_parse 32"

definition Ed25519Signature_parse :: "str \<Rightarrow> GrammarError + Ed25519Signature" where
  "Ed25519Signature_parse = hex_parse 64"

definition to_hex :: "u8 list \<Rightarrow> str" where
  "to_hex raw = encode_hex raw"

definition KeyId_from_public_key :: "Ed25519PublicKey \<Rightarrow> KeyId" where
  "KeyId_from_public_key public = digest public"

section \<open>Closed enums\<close>

datatype ArtifactKind = FileSlice | DatabaseProjection

fun ArtifactKind_token :: "ArtifactKind \<Rightarrow> str" where
  "ArtifactKind_token FileSlice = lit ''file-slice''"
| "ArtifactKind_token DatabaseProjection = lit ''database-projection''"

definition ArtifactKind_parse :: "str \<Rightarrow> GrammarError + ArtifactKind" where
  "ArtifactKind_parse t =
     (if t = lit ''file-slice'' then Inr FileSlice
      else if t = lit ''database-projection'' then Inr DatabaseProjection
      else Inl NotCanonical)"

datatype RangeKind = Byte | Event

fun RangeKind_token :: "RangeKind \<Rightarrow> str" where
  "RangeKind_token Byte = lit ''byte''"
| "RangeKind_token Event = lit ''event''"

definition RangeKind_parse :: "str \<Rightarrow> GrammarError + RangeKind" where
  "RangeKind_parse t =
     (if t = lit ''byte'' then Inr Byte
      else if t = lit ''event'' then Inr Event
      else Inl NotCanonical)"

datatype IdSource = Upstream | Synthetic

fun IdSource_token :: "IdSource \<Rightarrow> str" where
  "IdSource_token Upstream = lit ''upstream''"
| "IdSource_token Synthetic = lit ''synthetic''"

definition IdSource_parse :: "str \<Rightarrow> GrammarError + IdSource" where
  "IdSource_parse t =
     (if t = lit ''upstream'' then Inr Upstream
      else if t = lit ''synthetic'' then Inr Synthetic
      else Inl NotCanonical)"

datatype StorageProfile = ZstdV1

fun StorageProfile_token :: "StorageProfile \<Rightarrow> str" where
  "StorageProfile_token ZstdV1 = lit ''zstd-v1''"

definition StorageProfile_parse :: "str \<Rightarrow> GrammarError + StorageProfile" where
  "StorageProfile_parse t =
     (if t = lit ''zstd-v1'' then Inr ZstdV1
      else Inl NotCanonical)"

datatype TransportEncoding = Identity | Zstd

fun TransportEncoding_token :: "TransportEncoding \<Rightarrow> str" where
  "TransportEncoding_token Identity = lit ''identity''"
| "TransportEncoding_token Zstd = lit ''zstd''"

definition TransportEncoding_parse :: "str \<Rightarrow> GrammarError + TransportEncoding" where
  "TransportEncoding_parse t =
     (if t = lit ''identity'' then Inr Identity
      else if t = lit ''zstd'' then Inr Zstd
      else Inl NotCanonical)"

datatype ChecksumAlgorithm = ChecksumSha256

fun ChecksumAlgorithm_token :: "ChecksumAlgorithm \<Rightarrow> str" where
  "ChecksumAlgorithm_token ChecksumSha256 = lit ''sha256''"

definition ChecksumAlgorithm_parse :: "str \<Rightarrow> GrammarError + ChecksumAlgorithm" where
  "ChecksumAlgorithm_parse t =
     (if t = lit ''sha256'' then Inr ChecksumSha256
      else Inl NotCanonical)"

datatype StorageOutcome = Created | AlreadyPresent | ReplacedEquivalent | LogicallyCommittedUnknownPhysicalResult

fun StorageOutcome_token :: "StorageOutcome \<Rightarrow> str" where
  "StorageOutcome_token Created = lit ''created''"
| "StorageOutcome_token AlreadyPresent = lit ''already_present''"
| "StorageOutcome_token ReplacedEquivalent = lit ''replaced_equivalent''"
| "StorageOutcome_token LogicallyCommittedUnknownPhysicalResult = lit ''logically_committed_unknown_physical_result''"

definition StorageOutcome_parse :: "str \<Rightarrow> GrammarError + StorageOutcome" where
  "StorageOutcome_parse t =
     (if t = lit ''created'' then Inr Created
      else if t = lit ''already_present'' then Inr AlreadyPresent
      else if t = lit ''replaced_equivalent'' then Inr ReplacedEquivalent
      else if t = lit ''logically_committed_unknown_physical_result'' then Inr LogicallyCommittedUnknownPhysicalResult
      else Inl NotCanonical)"

datatype SignatureAlgorithm = Ed25519

fun SignatureAlgorithm_token :: "SignatureAlgorithm \<Rightarrow> str" where
  "SignatureAlgorithm_token Ed25519 = lit ''ed25519''"

definition SignatureAlgorithm_parse :: "str \<Rightarrow> GrammarError + SignatureAlgorithm" where
  "SignatureAlgorithm_parse t =
     (if t = lit ''ed25519'' then Inr Ed25519
      else Inl NotCanonical)"

datatype InferenceArtifactKind = ProviderRequest | ProviderResponse | StreamingEvent | Retry | Usage | TransportError

fun InferenceArtifactKind_token :: "InferenceArtifactKind \<Rightarrow> str" where
  "InferenceArtifactKind_token ProviderRequest = lit ''provider-request''"
| "InferenceArtifactKind_token ProviderResponse = lit ''provider-response''"
| "InferenceArtifactKind_token StreamingEvent = lit ''streaming-event''"
| "InferenceArtifactKind_token Retry = lit ''retry''"
| "InferenceArtifactKind_token Usage = lit ''usage''"
| "InferenceArtifactKind_token TransportError = lit ''transport-error''"

definition InferenceArtifactKind_parse :: "str \<Rightarrow> GrammarError + InferenceArtifactKind" where
  "InferenceArtifactKind_parse t =
     (if t = lit ''provider-request'' then Inr ProviderRequest
      else if t = lit ''provider-response'' then Inr ProviderResponse
      else if t = lit ''streaming-event'' then Inr StreamingEvent
      else if t = lit ''retry'' then Inr Retry
      else if t = lit ''usage'' then Inr Usage
      else if t = lit ''transport-error'' then Inr TransportError
      else Inl NotCanonical)"

datatype RetryReason = HttpStatus | RateLimit | RetryTransportError | StreamIncomplete | Timeout

fun RetryReason_token :: "RetryReason \<Rightarrow> str" where
  "RetryReason_token HttpStatus = lit ''http-status''"
| "RetryReason_token RateLimit = lit ''rate-limit''"
| "RetryReason_token RetryTransportError = lit ''transport-error''"
| "RetryReason_token StreamIncomplete = lit ''stream-incomplete''"
| "RetryReason_token Timeout = lit ''timeout''"

definition RetryReason_parse :: "str \<Rightarrow> GrammarError + RetryReason" where
  "RetryReason_parse t =
     (if t = lit ''http-status'' then Inr HttpStatus
      else if t = lit ''rate-limit'' then Inr RateLimit
      else if t = lit ''transport-error'' then Inr RetryTransportError
      else if t = lit ''stream-incomplete'' then Inr StreamIncomplete
      else if t = lit ''timeout'' then Inr Timeout
      else Inl NotCanonical)"

datatype UsageSource = ResponseBody | StreamEvent

fun UsageSource_token :: "UsageSource \<Rightarrow> str" where
  "UsageSource_token ResponseBody = lit ''response-body''"
| "UsageSource_token StreamEvent = lit ''stream-event''"

definition UsageSource_parse :: "str \<Rightarrow> GrammarError + UsageSource" where
  "UsageSource_parse t =
     (if t = lit ''response-body'' then Inr ResponseBody
      else if t = lit ''stream-event'' then Inr StreamEvent
      else Inl NotCanonical)"

datatype TransportErrorClass = Connect | Dns | TlsHandshake | ReadTimeout | WriteTimeout | ConnectionReset | StreamInterrupted | TransferDecode | Other

fun TransportErrorClass_token :: "TransportErrorClass \<Rightarrow> str" where
  "TransportErrorClass_token Connect = lit ''connect''"
| "TransportErrorClass_token Dns = lit ''dns''"
| "TransportErrorClass_token TlsHandshake = lit ''tls-handshake''"
| "TransportErrorClass_token ReadTimeout = lit ''read-timeout''"
| "TransportErrorClass_token WriteTimeout = lit ''write-timeout''"
| "TransportErrorClass_token ConnectionReset = lit ''connection-reset''"
| "TransportErrorClass_token StreamInterrupted = lit ''stream-interrupted''"
| "TransportErrorClass_token TransferDecode = lit ''transfer-decode''"
| "TransportErrorClass_token Other = lit ''other''"

definition TransportErrorClass_parse :: "str \<Rightarrow> GrammarError + TransportErrorClass" where
  "TransportErrorClass_parse t =
     (if t = lit ''connect'' then Inr Connect
      else if t = lit ''dns'' then Inr Dns
      else if t = lit ''tls-handshake'' then Inr TlsHandshake
      else if t = lit ''read-timeout'' then Inr ReadTimeout
      else if t = lit ''write-timeout'' then Inr WriteTimeout
      else if t = lit ''connection-reset'' then Inr ConnectionReset
      else if t = lit ''stream-interrupted'' then Inr StreamInterrupted
      else if t = lit ''transfer-decode'' then Inr TransferDecode
      else if t = lit ''other'' then Inr Other
      else Inl NotCanonical)"

section \<open>Wire types\<close>

text \<open>
  What a record relies on when it reads a member of a wire type: the parser accepts exactly
  the rendered texts of the type's values and fails closed on anything else.
\<close>

locale wire_type =
  fixes parse :: "str \<Rightarrow> GrammarError + 'a" and render :: "'a \<Rightarrow> str" and valid :: "'a \<Rightarrow> bool"
  assumes parse_render: "valid x \<Longrightarrow> parse (render x) = Inr x"
    and render_parse: "parse t = Inr x \<Longrightarrow> valid x \<and> render x = t"
begin

lemma parse_iff: "parse t = Inr x \<longleftrightarrow> valid x \<and> t = render x"
  using parse_render render_parse by blast

lemma parse_inject: "parse t = Inr x \<Longrightarrow> parse u = Inr x \<Longrightarrow> t = u"
  by (simp add: parse_iff)

lemma render_inject: "valid x \<Longrightarrow> valid y \<Longrightarrow> render x = render y \<longleftrightarrow> x = y"
  using parse_render by (metis sum.inject(2))

lemma fails_closed: "parse t = Inl NotCanonical \<longleftrightarrow> \<not> (\<exists>x. valid x \<and> t = render x)"
proof (cases "parse t")
  case (Inl e)
  then show ?thesis by (cases e) (auto dest: parse_render)
next
  case (Inr x)
  then show ?thesis using render_parse by auto
qed

end

lemma text_newtype_wire: "wire_type (text_newtype_parse g) (\<lambda>t. t) g"
  by unfold_locales (auto simp: text_newtype_parse_def split: if_splits)

interpretation tenant_id: wire_type TenantId_parse "\<lambda>t. t" "\<lambda>t. uuid_grammar t 4"
  unfolding TenantId_parse_def by (rule text_newtype_wire)

interpretation generation_id: wire_type GenerationId_parse "\<lambda>t. t" "\<lambda>t. uuid_grammar t 7"
  unfolding GenerationId_parse_def by (rule text_newtype_wire)

interpretation harness_id: wire_type HarnessId_parse "\<lambda>t. t" short_token_grammar
  unfolding HarnessId_parse_def by (rule text_newtype_wire)

interpretation opaque_id: wire_type OpaqueId_parse "\<lambda>t. t" opaque_id_grammar
  unfolding OpaqueId_parse_def by (rule text_newtype_wire)

interpretation timestamp: wire_type Timestamp_parse "\<lambda>t. t" timestamp_grammar
  unfolding Timestamp_parse_def by (rule text_newtype_wire)

subsection \<open>Hexadecimal newtypes\<close>

lemma HEX_lower_all: "list_all (\<lambda>n. is_lower_hex (HEX ! n)) [0..<16]"
  by code_simp

lemma HEX_lower: "n < 16 \<Longrightarrow> is_lower_hex (HEX ! n)"
  using HEX_lower_all by (simp add: list_all_iff)

lemma list_all_lower_hex_encode: "list_all is_lower_hex (encode_hex bs)"
  using nibbles_all by (induction bs) (simp_all add: HEX_lower)

lemma hex_newtype_parse_eq:
  "hex_newtype_parse n t =
     Some (case decode_hex t of Some bs \<Rightarrow> if length bs = n then Inr bs else Inl NotCanonical
           | None \<Rightarrow> Inl NotCanonical)"
proof (cases "decode_hex t")
  case None
  then show ?thesis by (simp add: hex_newtype_parse_def)
next
  case (Some bs)
  then have "t = encode_hex bs" by (rule encode_decode_hex [symmetric])
  then show ?thesis
    using list_all_lower_hex_encode [of bs]
    by (simp add: hex_newtype_parse_def copy_from_slice_def)
qed

lemma hex_newtype_parse_no_panic: "hex_newtype_parse n t \<noteq> None"
  by (simp add: hex_newtype_parse_eq)

lemma hex_parse_iff: "hex_parse n t = Inr bs \<longleftrightarrow> length bs = n \<and> t = encode_hex bs"
  by (auto simp: hex_parse_def hex_newtype_parse_eq split: option.splits if_splits
      dest: encode_decode_hex)

lemma hex_wire: "wire_type (hex_parse n) to_hex (\<lambda>bs. length bs = n)"
  by unfold_locales (auto simp: hex_parse_iff to_hex_def)

interpretation digest_text: wire_type digest_parse to_hex "\<lambda>bs. length bs = 32"
  unfolding digest_parse_def by (rule hex_wire)

interpretation public_key: wire_type Ed25519PublicKey_parse to_hex "\<lambda>bs. length bs = 32"
  unfolding Ed25519PublicKey_parse_def by (rule hex_wire)

interpretation signature: wire_type Ed25519Signature_parse to_hex "\<lambda>bs. length bs = 64"
  unfolding Ed25519Signature_parse_def by (rule hex_wire)

subsection \<open>Closed enums\<close>

interpretation artifact_kind: wire_type ArtifactKind_parse ArtifactKind_token "\<lambda>_. True"
proof unfold_locales
  show "ArtifactKind_parse (ArtifactKind_token x) = Inr x" for x by (cases x) (simp_all add: ArtifactKind_parse_def)
  show "True \<and> ArtifactKind_token x = t" if "ArtifactKind_parse t = Inr x" for t x
    using that by (auto simp: ArtifactKind_parse_def split: if_splits)
qed

interpretation range_kind: wire_type RangeKind_parse RangeKind_token "\<lambda>_. True"
proof unfold_locales
  show "RangeKind_parse (RangeKind_token x) = Inr x" for x by (cases x) (simp_all add: RangeKind_parse_def)
  show "True \<and> RangeKind_token x = t" if "RangeKind_parse t = Inr x" for t x
    using that by (auto simp: RangeKind_parse_def split: if_splits)
qed

interpretation id_source: wire_type IdSource_parse IdSource_token "\<lambda>_. True"
proof unfold_locales
  show "IdSource_parse (IdSource_token x) = Inr x" for x by (cases x) (simp_all add: IdSource_parse_def)
  show "True \<and> IdSource_token x = t" if "IdSource_parse t = Inr x" for t x
    using that by (auto simp: IdSource_parse_def split: if_splits)
qed

interpretation storage_profile: wire_type StorageProfile_parse StorageProfile_token "\<lambda>_. True"
proof unfold_locales
  show "StorageProfile_parse (StorageProfile_token x) = Inr x" for x by (cases x) (simp_all add: StorageProfile_parse_def)
  show "True \<and> StorageProfile_token x = t" if "StorageProfile_parse t = Inr x" for t x
    using that by (auto simp: StorageProfile_parse_def split: if_splits)
qed

interpretation transport_encoding: wire_type TransportEncoding_parse TransportEncoding_token "\<lambda>_. True"
proof unfold_locales
  show "TransportEncoding_parse (TransportEncoding_token x) = Inr x" for x by (cases x) (simp_all add: TransportEncoding_parse_def)
  show "True \<and> TransportEncoding_token x = t" if "TransportEncoding_parse t = Inr x" for t x
    using that by (auto simp: TransportEncoding_parse_def split: if_splits)
qed

interpretation checksum_algorithm: wire_type ChecksumAlgorithm_parse ChecksumAlgorithm_token "\<lambda>_. True"
proof unfold_locales
  show "ChecksumAlgorithm_parse (ChecksumAlgorithm_token x) = Inr x" for x by (cases x) (simp_all add: ChecksumAlgorithm_parse_def)
  show "True \<and> ChecksumAlgorithm_token x = t" if "ChecksumAlgorithm_parse t = Inr x" for t x
    using that by (auto simp: ChecksumAlgorithm_parse_def split: if_splits)
qed

interpretation storage_outcome: wire_type StorageOutcome_parse StorageOutcome_token "\<lambda>_. True"
proof unfold_locales
  show "StorageOutcome_parse (StorageOutcome_token x) = Inr x" for x by (cases x) (simp_all add: StorageOutcome_parse_def)
  show "True \<and> StorageOutcome_token x = t" if "StorageOutcome_parse t = Inr x" for t x
    using that by (auto simp: StorageOutcome_parse_def split: if_splits)
qed

interpretation signature_algorithm: wire_type SignatureAlgorithm_parse SignatureAlgorithm_token "\<lambda>_. True"
proof unfold_locales
  show "SignatureAlgorithm_parse (SignatureAlgorithm_token x) = Inr x" for x by (cases x) (simp_all add: SignatureAlgorithm_parse_def)
  show "True \<and> SignatureAlgorithm_token x = t" if "SignatureAlgorithm_parse t = Inr x" for t x
    using that by (auto simp: SignatureAlgorithm_parse_def split: if_splits)
qed

interpretation inference_artifact_kind: wire_type InferenceArtifactKind_parse InferenceArtifactKind_token "\<lambda>_. True"
proof unfold_locales
  show "InferenceArtifactKind_parse (InferenceArtifactKind_token x) = Inr x" for x by (cases x) (simp_all add: InferenceArtifactKind_parse_def)
  show "True \<and> InferenceArtifactKind_token x = t" if "InferenceArtifactKind_parse t = Inr x" for t x
    using that by (auto simp: InferenceArtifactKind_parse_def split: if_splits)
qed

interpretation retry_reason: wire_type RetryReason_parse RetryReason_token "\<lambda>_. True"
proof unfold_locales
  show "RetryReason_parse (RetryReason_token x) = Inr x" for x by (cases x) (simp_all add: RetryReason_parse_def)
  show "True \<and> RetryReason_token x = t" if "RetryReason_parse t = Inr x" for t x
    using that by (auto simp: RetryReason_parse_def split: if_splits)
qed

interpretation usage_source: wire_type UsageSource_parse UsageSource_token "\<lambda>_. True"
proof unfold_locales
  show "UsageSource_parse (UsageSource_token x) = Inr x" for x by (cases x) (simp_all add: UsageSource_parse_def)
  show "True \<and> UsageSource_token x = t" if "UsageSource_parse t = Inr x" for t x
    using that by (auto simp: UsageSource_parse_def split: if_splits)
qed

interpretation transport_error_class: wire_type TransportErrorClass_parse TransportErrorClass_token "\<lambda>_. True"
proof unfold_locales
  show "TransportErrorClass_parse (TransportErrorClass_token x) = Inr x" for x by (cases x) (simp_all add: TransportErrorClass_parse_def)
  show "True \<and> TransportErrorClass_token x = t" if "TransportErrorClass_parse t = Inr x" for t x
    using that by (auto simp: TransportErrorClass_parse_def split: if_splits)
qed


section \<open>What the grammars accept\<close>

lemma digits_simps [simp]:
  "digits []" "digits (c # s) \<longleftrightarrow> is_ascii_digit c \<and> digits s"
  by (simp_all add: digits_def)

lemma digits_append [simp]: "digits (s @ t) \<longleftrightarrow> digits s \<and> digits t"
  by (simp add: digits_def)

lemma length_4: "length xs = 4 \<longleftrightarrow> (\<exists>a b c d. xs = [a, b, c, d])"
  by (auto simp: length_Suc_conv eval_nat_numeral)

lemma length_2: "length xs = 2 \<longleftrightarrow> (\<exists>a b. xs = [a, b])"
  by (auto simp: length_Suc_conv eval_nat_numeral)

text \<open>The fraction of a timestamp: empty, or a point and one to nine digits.\<close>

definition fraction :: "str \<Rightarrow> bool" where
  "fraction s \<longleftrightarrow> s = [] \<or> (s ! 0 = ch CHR ''.'' \<and> 2 \<le> length s \<and> length s \<le> 10 \<and> digits (drop 1 s))"

definition timestamp_tail :: "str \<Rightarrow> bool" where
  "timestamp_tail tail =
     (let n = length tail in
        if tail = [] \<or> last tail \<noteq> ch CHR ''Z'' then False
        else if n = 1 then True
        else if n \<ge> 3 \<and> tail ! 0 = ch CHR ''.''
          then digits (subslice 1 (n - 1) tail) \<and> 2 \<le> n - 1 \<and> n - 1 \<le> 10
        else False)"

lemma timestamp_tail_iff: "timestamp_tail tail \<longleftrightarrow> (\<exists>f. tail = f @ [ch CHR ''Z''] \<and> fraction f)"
proof (cases tail rule: rev_cases)
  case Nil
  then show ?thesis by (simp add: timestamp_tail_def)
next
  case (snoc f z)
  show ?thesis
  proof (cases f)
    case Nil
    then show ?thesis using snoc by (auto simp: timestamp_tail_def fraction_def)
  next
    case (Cons p ds)
    then have "subslice 1 (Suc (length ds)) (p # ds @ [z]) = ds" by (simp add: subslice_def)
    then show ?thesis using snoc Cons by (auto simp: timestamp_tail_def fraction_def Let_def)
  qed
qed

lemma drop_subslice: "a \<le> b \<Longrightarrow> drop a t = subslice a b t @ drop b t"
  unfolding subslice_def by (metis append_take_drop_id drop_drop le_add_diff_inverse2)

lemma length_subslice [simp]: "b \<le> length t \<Longrightarrow> length (subslice a b t) = b - a"
  by (simp add: subslice_def)

text \<open>The regular expression of the schema, \<open>YYYY-MM-DDThh:mm:ss(.fraction)Z\<close>, as a language.\<close>

definition timestamp_language :: "str \<Rightarrow> bool" where
  "timestamp_language t \<longleftrightarrow>
     (\<exists>Y M D h m s f.
        t = Y @ ch CHR ''-'' # M @ ch CHR ''-'' # D @ ch CHR ''T'' #
            h @ ch CHR '':'' # m @ ch CHR '':'' # s @ f @ [ch CHR ''Z''] \<and>
        length Y = 4 \<and> length M = 2 \<and> length D = 2 \<and> length h = 2 \<and> length m = 2 \<and> length s = 2 \<and>
        digits Y \<and> digits M \<and> digits D \<and> digits h \<and> digits m \<and> digits s \<and> fraction f)"

lemma guard_if: "(if P then False else Q) \<longleftrightarrow> \<not> P \<and> Q"
  by simp

lemma timestamp_grammar_iff:
  "timestamp_grammar t \<longleftrightarrow>
     20 \<le> length t \<and> length t \<le> 35 \<and>
     t ! 4 = ch CHR ''-'' \<and> t ! 7 = ch CHR ''-'' \<and> t ! 10 = ch CHR ''T'' \<and>
     t ! 13 = ch CHR '':'' \<and> t ! 16 = ch CHR '':'' \<and>
     digits (subslice 0 4 t) \<and> digits (subslice 5 7 t) \<and> digits (subslice 8 10 t) \<and>
     digits (subslice 11 13 t) \<and> digits (subslice 14 16 t) \<and> digits (subslice 17 19 t) \<and>
     timestamp_tail (drop 19 t)"
  unfolding timestamp_grammar_def timestamp_tail_def Let_def guard_if
  by (simp only: not_less de_Morgan_disj not_not) blast

lemma timestamp_shape:
  assumes "20 \<le> length t"
  shows "t = subslice 0 4 t @ t ! 4 # subslice 5 7 t @ t ! 7 # subslice 8 10 t @ t ! 10 #
    subslice 11 13 t @ t ! 13 # subslice 14 16 t @ t ! 16 # subslice 17 19 t @ drop 19 t"
proof -
  have "drop n t = t ! n # drop (Suc n) t" if "n < 19" for n
    using that assms by (simp add: Cons_nth_drop_Suc)
  from this [of 4] this [of 7] this [of 10] this [of 13] this [of 16]
  have *: "drop 4 t = t ! 4 # drop 5 t" "drop 7 t = t ! 7 # drop 8 t" "drop 10 t = t ! 10 # drop 11 t"
    "drop 13 t = t ! 13 # drop 14 t" "drop 16 t = t ! 16 # drop 17 t" by simp_all
  have "t = subslice 0 4 t @ drop 4 t" by (simp add: subslice_def)
  also have "drop 5 t = subslice 5 7 t @ drop 7 t" by (rule drop_subslice) simp
  then have "drop 4 t = t ! 4 # subslice 5 7 t @ drop 7 t" using * by simp
  also have "drop 8 t = subslice 8 10 t @ drop 10 t" by (rule drop_subslice) simp
  then have "drop 7 t = t ! 7 # subslice 8 10 t @ drop 10 t" using * by simp
  also have "drop 11 t = subslice 11 13 t @ drop 13 t" by (rule drop_subslice) simp
  then have "drop 10 t = t ! 10 # subslice 11 13 t @ drop 13 t" using * by simp
  also have "drop 14 t = subslice 14 16 t @ drop 16 t" by (rule drop_subslice) simp
  then have "drop 13 t = t ! 13 # subslice 14 16 t @ drop 16 t" using * by simp
  also have "drop 17 t = subslice 17 19 t @ drop 19 t" by (rule drop_subslice) simp
  then have "drop 16 t = t ! 16 # subslice 17 19 t @ drop 19 t" using * by simp
  finally show ?thesis .
qed

lemma timestamp_grammar_language: "timestamp_grammar t \<longleftrightarrow> timestamp_language t"
proof
  assume "timestamp_grammar t"
  note g = this [unfolded timestamp_grammar_iff]
  from g obtain f where f: "drop 19 t = f @ [ch CHR ''Z'']" "fraction f"
    by (auto simp: timestamp_tail_iff)
  have "t = subslice 0 4 t @ ch CHR ''-'' # subslice 5 7 t @ ch CHR ''-'' # subslice 8 10 t @ ch CHR ''T'' #
      subslice 11 13 t @ ch CHR '':'' # subslice 14 16 t @ ch CHR '':'' # subslice 17 19 t @ f @ [ch CHR ''Z'']"
    using timestamp_shape [of t] g by (simp only: f)
  then show "timestamp_language t"
    unfolding timestamp_language_def
    by (intro exI conjI) (assumption, use g f in simp_all)
next
  assume "timestamp_language t"
  then obtain Y M D h m s f where
    t: "t = Y @ ch CHR ''-'' # M @ ch CHR ''-'' # D @ ch CHR ''T'' #
            h @ ch CHR '':'' # m @ ch CHR '':'' # s @ f @ [ch CHR ''Z'']" and
    len: "length Y = 4" "length M = 2" "length D = 2" "length h = 2" "length m = 2" "length s = 2"
    and d: "digits Y" "digits M" "digits D" "digits h" "digits m" "digits s" and f: "fraction f"
    unfolding timestamp_language_def by blast
  have "length f \<le> 10" using f by (auto simp: fraction_def)
  then show "timestamp_grammar t"
    unfolding timestamp_grammar_iff timestamp_tail_iff t using len d f
    by (simp add: subslice_def nth_append)
qed

definition uuid_language :: "u8 \<Rightarrow> str \<Rightarrow> bool" where
  "uuid_language version t \<longleftrightarrow>
     (\<exists>a b c n d e.
        t = a @ ch CHR ''-'' # b @ ch CHR ''-'' # (ch CHR ''0'' + version) # c @ ch CHR ''-'' #
            n # d @ ch CHR ''-'' # e \<and>
        length a = 8 \<and> length b = 4 \<and> length c = 3 \<and> length d = 3 \<and> length e = 12 \<and>
        n \<in> {ch CHR ''8'', ch CHR ''9'', ch CHR ''a'', ch CHR ''b''} \<and>
        list_all is_lower_hex (a @ b @ c @ d @ e))"

lemma uuid_run:
  assumes "\<forall>i. n \<le> i \<and> i < n + length a \<longrightarrow> i \<notin> {8, 13, 14, 18, 19, 23}"
  shows "list_all (\<lambda>(i, c). uuid_byte version i c) (enumerate n a) \<longleftrightarrow> list_all is_lower_hex a"
  using assms
proof (induction a arbitrary: n)
  case (Cons x a)
  have "n \<notin> {8, 13, 14, 18, 19, 23}" using Cons.prems by simp
  moreover have "\<forall>i. Suc n \<le> i \<and> i < Suc n + length a \<longrightarrow> i \<notin> {8, 13, 14, 18, 19, 23}"
    using Cons.prems by simp
  ultimately show ?case using Cons.IH [of "Suc n"] by (simp add: uuid_byte_def)
qed simp

lemma uuid_shape:
  assumes "length t = 36"
  shows "t = subslice 0 8 t @ t ! 8 # subslice 9 13 t @ t ! 13 # t ! 14 # subslice 15 18 t @ t ! 18 #
    t ! 19 # subslice 20 23 t @ t ! 23 # subslice 24 36 t"
proof -
  have "drop n t = t ! n # drop (Suc n) t" if "n < 36" for n
    using that assms by (simp add: Cons_nth_drop_Suc)
  from this [of 8] this [of 13] this [of 14] this [of 18] this [of 19] this [of 23]
  have *: "drop 8 t = t ! 8 # drop 9 t" "drop 13 t = t ! 13 # t ! 14 # drop 15 t"
    "drop 18 t = t ! 18 # t ! 19 # drop 20 t" "drop 23 t = t ! 23 # drop 24 t" by simp_all
  have "t = subslice 0 8 t @ drop 8 t" by (simp add: subslice_def)
  also have "drop 9 t = subslice 9 13 t @ drop 13 t" by (rule drop_subslice) simp
  then have "drop 8 t = t ! 8 # subslice 9 13 t @ drop 13 t" using * by simp
  also have "drop 15 t = subslice 15 18 t @ drop 18 t" by (rule drop_subslice) simp
  then have "drop 13 t = t ! 13 # t ! 14 # subslice 15 18 t @ drop 18 t" using * by simp
  also have "drop 20 t = subslice 20 23 t @ drop 23 t" by (rule drop_subslice) simp
  then have "drop 18 t = t ! 18 # t ! 19 # subslice 20 23 t @ drop 23 t" using * by simp
  also have "drop 24 t = subslice 24 36 t" using assms by (simp add: subslice_def)
  then have "drop 23 t = t ! 23 # subslice 24 36 t" using * by simp
  finally show ?thesis .
qed

lemma uuid_grammar_append:
  assumes "length a = 8" "length b = 4" "length c = 3" "length d = 3" "length e = 12"
  shows "uuid_grammar (a @ x8 # b @ x13 # x14 # c @ x18 # x19 # d @ x23 # e) version \<longleftrightarrow>
    x8 = ch CHR ''-'' \<and> x13 = ch CHR ''-'' \<and> x14 = ch CHR ''0'' + version \<and> x18 = ch CHR ''-'' \<and>
    x19 \<in> {ch CHR ''8'', ch CHR ''9'', ch CHR ''a'', ch CHR ''b''} \<and> x23 = ch CHR ''-'' \<and>
    list_all is_lower_hex (a @ b @ c @ d @ e)"
proof -
  let ?P = "\<lambda>(i, c). uuid_byte version i c"
  have "list_all ?P (enumerate 0 a) \<longleftrightarrow> list_all is_lower_hex a"
    "list_all ?P (enumerate 9 b) \<longleftrightarrow> list_all is_lower_hex b"
    "list_all ?P (enumerate 15 c) \<longleftrightarrow> list_all is_lower_hex c"
    "list_all ?P (enumerate 20 d) \<longleftrightarrow> list_all is_lower_hex d"
    "list_all ?P (enumerate 24 e) \<longleftrightarrow> list_all is_lower_hex e"
    by (rule uuid_run; simp add: assms)+
  then show ?thesis
    unfolding uuid_grammar_def using assms
    by (simp add: enumerate_append_eq uuid_byte_def [of version 8] uuid_byte_def [of version 13]
        uuid_byte_def [of version 14] uuid_byte_def [of version 18] uuid_byte_def [of version 19]
        uuid_byte_def [of version 23]) blast
qed

lemma uuid_grammar_language: "uuid_grammar t version \<longleftrightarrow> uuid_language version t"
proof
  assume g: "uuid_grammar t version"
  then have len: "length t = 36" by (simp add: uuid_grammar_def split: if_splits)
  have "subslice 0 8 t @ t ! 8 # subslice 9 13 t @ t ! 13 # t ! 14 # subslice 15 18 t @ t ! 18 #
    t ! 19 # subslice 20 23 t @ t ! 23 # subslice 24 36 t = t"
    using uuid_shape [OF len] by (rule sym)
  from uuid_grammar_append [of "subslice 0 8 t" "subslice 9 13 t" "subslice 15 18 t" "subslice 20 23 t"
      "subslice 24 36 t" "t ! 8" "t ! 13" "t ! 14" "t ! 18" "t ! 19" "t ! 23" version, unfolded this] g len
  have facts: "t ! 8 = ch CHR ''-''" "t ! 13 = ch CHR ''-''" "t ! 14 = ch CHR ''0'' + version" "t ! 18 = ch CHR ''-''"
    "t ! 19 \<in> {ch CHR ''8'', ch CHR ''9'', ch CHR ''a'', ch CHR ''b''}" "t ! 23 = ch CHR ''-''"
    "list_all is_lower_hex (subslice 0 8 t @ subslice 9 13 t @ subslice 15 18 t @ subslice 20 23 t @ subslice 24 36 t)"
    by simp_all
  show "uuid_language version t"
    unfolding uuid_language_def
    by (intro exI conjI, rule uuid_shape [OF len, unfolded facts(1-4,6)])
       (use len facts(5,7) in simp_all)
next
  assume "uuid_language version t"
  then show "uuid_grammar t version"
    unfolding uuid_language_def by (elim exE conjE) (simp add: uuid_grammar_append)
qed

lemma position_append:
  "\<forall>x\<in>set a. \<not> P x \<Longrightarrow> P y \<Longrightarrow> position P (a @ y # b) = Some (length a)"
  by (induction a) auto

lemma position_SomeD:
  "position P xs = Some n \<Longrightarrow>
     n < length xs \<and> P (xs ! n) \<and> xs = take n xs @ xs ! n # drop (Suc n) xs"
  by (induction xs arbitrary: n) (auto split: if_splits)

lemma error_code_segment_no_dot: "error_code_segment s \<Longrightarrow> \<forall>x\<in>set s. x \<noteq> ch CHR ''.''"
  by (cases s) (auto simp: error_code_segment_def list_all_iff is_ascii_lowercase_def is_ascii_digit_def
      split: if_splits)

lemma error_code_language:
  "error_code_grammar t \<longleftrightarrow>
     (\<exists>a b. t = a @ ch CHR ''.'' # b \<and> error_code_segment a \<and> error_code_segment b)"
proof
  assume g: "error_code_grammar t"
  then obtain n where n: "position (\<lambda>c. c = ch CHR ''.'') t = Some n"
    and s: "error_code_segment (take n t)" "error_code_segment (drop (n + 1) t)"
    by (auto simp: error_code_grammar_def split: option.splits if_splits)
  show "\<exists>a b. t = a @ ch CHR ''.'' # b \<and> error_code_segment a \<and> error_code_segment b"
  proof (intro exI conjI)
    show "t = take n t @ ch CHR ''.'' # drop (n + 1) t"
      using position_SomeD [OF n] by (metis Suc_eq_plus1)
  qed (fact s)+
next
  assume "\<exists>a b. t = a @ ch CHR ''.'' # b \<and> error_code_segment a \<and> error_code_segment b"
  then obtain a b where t: "t = a @ ch CHR ''.'' # b" and s: "error_code_segment a" "error_code_segment b"
    by blast
  moreover have "position (\<lambda>c. c = ch CHR ''.'') t = Some (length a)"
    unfolding t by (rule position_append) (use error_code_segment_no_dot [OF s(1)] in simp_all)
  moreover have "a \<noteq> []" using s(1) by (auto simp: error_code_segment_def)
  ultimately show "error_code_grammar t" by (simp add: error_code_grammar_def)
qed

lemma content_type_language:
  "content_type_grammar t \<longleftrightarrow>
     (\<exists>b. t = CONTENT_TYPE_PREFIX @ b \<and> 1 \<le> length b \<and> length b \<le> 70 \<and> list_all boundary_char b)"
proof -
  have len: "length CONTENT_TYPE_PREFIX = 28" by (simp add: CONTENT_TYPE_PREFIX_def)
  have "t = CONTENT_TYPE_PREFIX @ drop 28 t" if "take 28 t = CONTENT_TYPE_PREFIX"
    by (metis append_take_drop_id that)
  then show ?thesis unfolding content_type_grammar_def len Let_def
    by (auto simp: len)
qed

lemma boundary_content_type:
  "content_type_grammar t \<Longrightarrow> \<exists>b. boundary t = Some b \<and> t = CONTENT_TYPE_PREFIX @ b \<and>
     1 \<le> length b \<and> length b \<le> 70 \<and> list_all boundary_char b"
  by (auto simp: content_type_language boundary_def)

text \<open>No component of a key contains the separator.\<close>

definition no_slash :: "str \<Rightarrow> bool" where
  "no_slash t \<longleftrightarrow> ch CHR ''/'' \<notin> set t"

lemma no_slash_simps [simp]:
  "no_slash []" "no_slash (c # t) \<longleftrightarrow> c \<noteq> ch CHR ''/'' \<and> no_slash t"
  "no_slash (s @ t) \<longleftrightarrow> no_slash s \<and> no_slash t"
  by (auto simp: no_slash_def)

lemma no_slash_hex: "list_all is_lower_hex t \<Longrightarrow> no_slash t"
  by (auto simp: no_slash_def list_all_iff is_lower_hex_def is_ascii_digit_def)

lemma no_slash_to_hex [simp]: "no_slash (to_hex bs)"
  unfolding to_hex_def by (rule no_slash_hex) (rule list_all_lower_hex_encode)

lemma no_slash_uuid: "uuid_grammar t v \<Longrightarrow> v = 4 \<or> v = 7 \<Longrightarrow> no_slash t"
  by (auto simp: uuid_grammar_language uuid_language_def no_slash_hex)

lemma no_slash_short_token: "short_token_grammar t \<Longrightarrow> no_slash t"
  by (cases t) (auto simp: short_token_grammar_def no_slash_def list_all_iff is_ascii_lowercase_def
      is_ascii_digit_def split: if_splits)

lemma length_uuid: "uuid_grammar t v \<Longrightarrow> length t = 36"
  by (simp add: uuid_grammar_def split: if_splits)

text \<open>The accumulator of \<open>number\<close> stays below \<open>10 ^ length\<close>, so four digits fit any \<^verbatim>\<open>u32\<close>.\<close>

lemma digit_value: "is_ascii_digit c \<Longrightarrow> unat (c - ch CHR ''0'') \<le> 9"
proof -
  have "\<forall>c. is_ascii_digit c \<longrightarrow> unat (c - ch CHR ''0'') \<le> 9" unfolding u8_all by code_simp
  then show "is_ascii_digit c \<Longrightarrow> unat (c - ch CHR ''0'') \<le> 9" by blast
qed

lemma number_bound: "digits s \<Longrightarrow> number s < 10 ^ length s"
proof (induction s rule: rev_induct)
  case (snoc c s)
  then have "number s < 10 ^ length s" "unat (c - ch CHR ''0'') \<le> 9" by (auto dest: digit_value)
  then show ?case by (simp add: number_def)
qed (simp add: number_def)

section \<open>The patterns of the schemas\<close>

text \<open>
  The regular expressions of \<^verbatim>\<open>schemas/v1\<close>, written down as sets of texts without any of the code's own
  character tests: \<open>repeated cs m n\<close> is \<open>[cs]{m,n}\<close> and \<open>sequence\<close> is concatenation.
\<close>

definition repeated :: "string \<Rightarrow> nat \<Rightarrow> nat \<Rightarrow> str set" where
  "repeated cs m n = {s. m \<le> length s \<and> length s \<le> n \<and> set s \<subseteq> set (lit cs)}"

fun sequence :: "str set list \<Rightarrow> str set" where
  "sequence [] = {[]}"
| "sequence (A # As) = {a @ b | a b. a \<in> A \<and> b \<in> sequence As}"

abbreviation digit_class :: string where
  "digit_class \<equiv> ''0123456789''"

abbreviation hex_class :: string where
  "hex_class \<equiv> ''0123456789abcdef''"

abbreviation lower_class :: string where
  "lower_class \<equiv> ''abcdefghijklmnopqrstuvwxyz''"

abbreviation upper_class :: string where
  "upper_class \<equiv> ''ABCDEFGHIJKLMNOPQRSTUVWXYZ''"

definition uuid_pattern :: "string \<Rightarrow> str set" where
  "uuid_pattern version = sequence [repeated hex_class 8 8, {lit ''-''}, repeated hex_class 4 4, {lit ''-''}, {lit version},
     repeated hex_class 3 3, {lit ''-''}, repeated ''89ab'' 1 1, repeated hex_class 3 3, {lit ''-''}, repeated hex_class 12 12]"

definition fraction_pattern :: "str set" where
  "fraction_pattern = {[]} \<union> sequence [{lit ''.''}, repeated digit_class 1 9]"

definition timestamp_pattern :: "str set" where
  "timestamp_pattern = sequence [repeated digit_class 4 4, {lit ''-''}, repeated digit_class 2 2, {lit ''-''}, repeated digit_class 2 2,
     {lit ''T''}, repeated digit_class 2 2, {lit '':''}, repeated digit_class 2 2, {lit '':''}, repeated digit_class 2 2,
     fraction_pattern, {lit ''Z''}]"

definition short_token_pattern :: "str set" where
  "short_token_pattern = sequence [repeated (lower_class @ digit_class) 1 1, repeated (lower_class @ digit_class @ ''._-'') 0 63]"

definition version_token_pattern :: "str set" where
  "version_token_pattern = repeated (digit_class @ upper_class @ lower_class @ ''._+-'') 1 32"

definition error_code_pattern :: "str set" where
  "error_code_pattern = sequence [repeated lower_class 1 1, repeated (lower_class @ digit_class @ ''_'') 0 23, {lit ''.''},
     repeated lower_class 1 1, repeated (lower_class @ digit_class @ ''_'') 0 23]"

definition content_type_pattern :: "str set" where
  "content_type_pattern = sequence [{lit ''multipart/related; boundary=''},
     repeated (digit_class @ upper_class @ lower_class @ CHR 0x27 # ''()+_,.:=?-'') 1 70]"

lemma lit_append: "lit (a @ b) = lit a @ lit b"
  by (simp add: lit_def)

lemma range_class:
  assumes "lit cs = map of_nat [a..<Suc b]" "a \<le> b" "b < 256"
  shows "c \<in> set (lit cs) \<longleftrightarrow> of_nat a \<le> c \<and> c \<le> of_nat b"
proof -
  have "unat (of_nat n :: u8) = n" if "n < 256" for n using that by (simp add: unat_of_nat)
  then have "of_nat a \<le> c \<and> c \<le> of_nat b \<longleftrightarrow> unat c \<in> set [a..<Suc b]"
    using assms(2,3) by (auto simp: word_le_nat_alt)
  also have "\<dots> \<longleftrightarrow> c \<in> of_nat ` set [a..<Suc b]"
    using \<open>\<And>n. n < 256 \<Longrightarrow> unat (of_nat n :: u8) = n\<close> assms(3) by (force simp: image_iff intro!: bexI [of _ "unat c"])
  finally show ?thesis by (simp only: assms(1) set_map)
qed

lemma u8_classes:
  "c \<in> set (lit digit_class) \<longleftrightarrow> is_ascii_digit c"
  "c \<in> set (lit lower_class) \<longleftrightarrow> is_ascii_lowercase c"
  "c \<in> set (lit upper_class) \<longleftrightarrow> is_ascii_uppercase c"
  "c \<in> set (lit ''89ab'') \<longleftrightarrow> c \<in> {ch CHR ''8'', ch CHR ''9'', ch CHR ''a'', ch CHR ''b''}"
  using range_class [of digit_class 48 57 c] range_class [of lower_class 97 122 c] range_class [of upper_class 65 90 c]
  by (simp_all add: lit_Cons upt_rec is_ascii_digit_def is_ascii_lowercase_def is_ascii_uppercase_def)

lemma hex_class_digits: "c \<in> set (lit hex_class) \<longleftrightarrow> is_lower_hex c"
proof -
  have "lit hex_class = lit digit_class @ lit ''abcdef''" by (simp add: lit_Cons)
  then have "c \<in> set (lit hex_class) \<longleftrightarrow> c \<in> set (lit digit_class) \<or> c \<in> set (lit ''abcdef'')" by simp
  then show ?thesis using range_class [of "''abcdef''" 97 102 c] unfolding u8_classes
    by (simp add: lit_Cons upt_rec is_lower_hex_def)
qed

lemma subset_class: "set s \<subseteq> set (lit cs) \<longleftrightarrow> list_all (\<lambda>c. c \<in> set (lit cs)) s"
  by (auto simp: list_all_iff)

lemma repeated_one: "s \<in> repeated cs 1 1 \<longleftrightarrow> (\<exists>c. s = [c] \<and> c \<in> set (lit cs))"
  by (cases s) (auto simp: repeated_def)

lemma repeated_exactly: "s \<in> repeated cs n n \<longleftrightarrow> length s = n \<and> list_all (\<lambda>c. c \<in> set (lit cs)) s"
  by (auto simp: repeated_def list_all_iff)

lemma sequence_Nil: "[] \<in> sequence []"
  by simp

lemma sequence_Cons: "a \<in> A \<Longrightarrow> b \<in> sequence As \<Longrightarrow> a @ b \<in> sequence (A # As)"
  by auto

lemma uuid_pattern_language:
  assumes "lit version = [ch CHR ''0'' + v]"
  shows "t \<in> uuid_pattern version \<longleftrightarrow> uuid_language v t"
proof
  assume "t \<in> uuid_pattern version"
  then obtain a b c n d e where t: "t = a @ lit ''-'' @ b @ lit ''-'' @ lit version @ c @ lit ''-'' @ n @ d @ lit ''-'' @ e"
      and m: "a \<in> repeated hex_class 8 8" "b \<in> repeated hex_class 4 4" "c \<in> repeated hex_class 3 3"
        "n \<in> repeated ''89ab'' 1 1" "d \<in> repeated hex_class 3 3" "e \<in> repeated hex_class 12 12"
    by (auto simp: uuid_pattern_def)
  obtain x where x: "n = [x]" "x \<in> {ch CHR ''8'', ch CHR ''9'', ch CHR ''a'', ch CHR ''b''}"
    using m(4) unfolding repeated_one u8_classes by blast
  have "list_all is_lower_hex (a @ b @ c @ d @ e)" using m(1-3,5,6) by (simp add: repeated_exactly hex_class_digits)
  moreover have "t = a @ ch CHR ''-'' # b @ ch CHR ''-'' # (ch CHR ''0'' + v) # c @ ch CHR ''-'' # x # d @ ch CHR ''-'' # e"
    by (simp add: t assms x(1) lit_Cons)
  moreover have "length a = 8" "length b = 4" "length c = 3" "length d = 3" "length e = 12"
    using m by (simp_all add: repeated_exactly)
  ultimately show "uuid_language v t" unfolding uuid_language_def using x(2) by blast
next
  assume "uuid_language v t"
  then obtain a b c n d e where t: "t = a @ ch CHR ''-'' # b @ ch CHR ''-'' # (ch CHR ''0'' + v) # c @ ch CHR ''-'' # n # d @ ch CHR ''-'' # e"
      and l: "length a = 8" "length b = 4" "length c = 3" "length d = 3" "length e = 12"
      and n: "n \<in> {ch CHR ''8'', ch CHR ''9'', ch CHR ''a'', ch CHR ''b''}" and h: "list_all is_lower_hex (a @ b @ c @ d @ e)"
    unfolding uuid_language_def by blast
  have m: "a \<in> repeated hex_class 8 8" "b \<in> repeated hex_class 4 4" "c \<in> repeated hex_class 3 3"
        "[n] \<in> repeated ''89ab'' 1 1" "d \<in> repeated hex_class 3 3" "e \<in> repeated hex_class 12 12"
    using l h n by (simp_all add: repeated_exactly repeated_one u8_classes hex_class_digits del: insert_iff)
  have "t = a @ lit ''-'' @ b @ lit ''-'' @ lit version @ c @ lit ''-'' @ [n] @ d @ lit ''-'' @ e @ []" by (simp add: t assms lit_Cons)
  also have "\<dots> \<in> uuid_pattern version" unfolding uuid_pattern_def by (intro sequence_Cons sequence_Nil m singletonI)
  finally show "t \<in> uuid_pattern version" .
qed

lemma fraction_pattern_language: "f \<in> fraction_pattern \<longleftrightarrow> fraction f"
proof (cases f)
  case (Cons p ds)
  have "f \<in> fraction_pattern \<longleftrightarrow> p = ch CHR ''.'' \<and> ds \<in> repeated digit_class 1 9"
    by (auto simp: Cons fraction_pattern_def lit_Cons)
  then show ?thesis using Cons by (auto simp: fraction_def repeated_def subset_class u8_classes digits_def)
qed (simp add: fraction_def fraction_pattern_def)

lemma timestamp_pattern_language: "t \<in> timestamp_pattern \<longleftrightarrow> timestamp_language t"
proof
  assume "t \<in> timestamp_pattern"
  then obtain Y M D h m s f where t: "t = Y @ lit ''-'' @ M @ lit ''-'' @ D @ lit ''T'' @ h @ lit '':'' @ m @ lit '':'' @ s @ f @ lit ''Z''"
      and r: "Y \<in> repeated digit_class 4 4" "M \<in> repeated digit_class 2 2" "D \<in> repeated digit_class 2 2"
        "h \<in> repeated digit_class 2 2" "m \<in> repeated digit_class 2 2" "s \<in> repeated digit_class 2 2"
        "f \<in> fraction_pattern"
    by (auto simp: timestamp_pattern_def)
  have "t = Y @ ch CHR ''-'' # M @ ch CHR ''-'' # D @ ch CHR ''T'' # h @ ch CHR '':'' # m @ ch CHR '':'' # s @ f @ [ch CHR ''Z'']"
    by (simp add: t lit_Cons)
  then show "timestamp_language t" unfolding timestamp_language_def
    using r(1-6) r(7) [unfolded fraction_pattern_language] unfolding repeated_exactly u8_classes digits_def [symmetric] by blast
next
  assume "timestamp_language t"
  then obtain Y M D h m s f where
      t: "t = Y @ ch CHR ''-'' # M @ ch CHR ''-'' # D @ ch CHR ''T'' # h @ ch CHR '':'' # m @ ch CHR '':'' # s @ f @ [ch CHR ''Z'']"
      and l: "length Y = 4" "length M = 2" "length D = 2" "length h = 2" "length m = 2" "length s = 2"
      and d: "digits Y" "digits M" "digits D" "digits h" "digits m" "digits s" and f: "fraction f"
    unfolding timestamp_language_def by blast
  have r: "Y \<in> repeated digit_class 4 4" "M \<in> repeated digit_class 2 2" "D \<in> repeated digit_class 2 2"
        "h \<in> repeated digit_class 2 2" "m \<in> repeated digit_class 2 2" "s \<in> repeated digit_class 2 2"
    using l d unfolding repeated_exactly u8_classes digits_def by blast+
  have "t = Y @ lit ''-'' @ M @ lit ''-'' @ D @ lit ''T'' @ h @ lit '':'' @ m @ lit '':'' @ s @ f @ lit ''Z'' @ []"
    by (simp add: t lit_Cons)
  also have "\<dots> \<in> timestamp_pattern" unfolding timestamp_pattern_def
    by (intro sequence_Cons sequence_Nil r singletonI fraction_pattern_language [THEN iffD2] f)
  finally show "t \<in> timestamp_pattern" .
qed

lemma sequence_append: "t \<in> sequence (As @ Bs) \<longleftrightarrow> (\<exists>a b. t = a @ b \<and> a \<in> sequence As \<and> b \<in> sequence Bs)"
proof (induction As arbitrary: t)
  case (Cons A As)
  show ?case
    by (simp add: Cons.IH) (metis append.assoc)
qed simp

lemma head_and_rest:
  "t \<in> sequence [repeated A 1 1, repeated B 0 n] \<longleftrightarrow>
     t \<noteq> [] \<and> length t \<le> Suc n \<and> hd t \<in> set (lit A) \<and> list_all (\<lambda>c. c \<in> set (lit B)) (tl t)"
proof -
  have "t \<in> sequence [repeated A 1 1, repeated B 0 n] \<longleftrightarrow> (\<exists>a b. t = a @ b \<and> a \<in> repeated A 1 1 \<and> b \<in> repeated B 0 n)" by simp
  also have "\<dots> \<longleftrightarrow> (\<exists>x b. t = x # b \<and> x \<in> set (lit A) \<and> b \<in> repeated B 0 n)"
    unfolding repeated_one by (metis append_Cons append_Nil)
  finally show ?thesis by (cases t) (auto simp: repeated_def subset_class)
qed

lemma prefix_and_rest: "t \<in> sequence [{p}, A] \<longleftrightarrow> (\<exists>b. t = p @ b \<and> b \<in> A)"
  by simp

lemma drop_1_tl: "drop 1 xs = tl xs"
  by (simp add: drop_Suc)

lemma short_token_pattern_language: "t \<in> short_token_pattern \<longleftrightarrow> short_token_grammar t"
  unfolding short_token_pattern_def head_and_rest lit_append set_append Un_iff u8_classes short_token_grammar_def drop_1_tl
  by (cases t) (simp_all add: lit_Cons disj_assoc)

lemma version_token_pattern_language: "t \<in> version_token_pattern \<longleftrightarrow> version_token_grammar t"
proof -
  have "c \<in> set (lit (digit_class @ upper_class @ lower_class @ ''._+-'')) \<longleftrightarrow> is_ascii_alphanumeric c \<or>
        c \<in> {ch CHR ''.'', ch CHR ''_'', ch CHR ''+'', ch CHR ''-''}" for c
    unfolding lit_append set_append Un_iff u8_classes is_ascii_alphanumeric_def by (auto simp: lit_Cons)
  then show ?thesis unfolding version_token_pattern_def repeated_def mem_Collect_eq subset_class version_token_grammar_def
    by (cases t) simp_all
qed

lemma error_code_pattern_language: "t \<in> error_code_pattern \<longleftrightarrow> error_code_grammar t"
proof -
  let ?segment = "[repeated lower_class 1 1, repeated (lower_class @ digit_class @ ''_'') 0 23]"
  have seg: "s \<in> sequence ?segment \<longleftrightarrow> error_code_segment s" for s
    unfolding head_and_rest lit_append set_append Un_iff u8_classes error_code_segment_def drop_1_tl
    by (cases s) (simp_all add: lit_Cons)
  have p: "error_code_pattern = sequence (?segment @ {lit ''.''} # ?segment)"
    unfolding error_code_pattern_def append_Cons append_Nil ..
  show ?thesis unfolding p sequence_append sequence.simps(2) [of "{lit ''.''}"] mem_Collect_eq seg error_code_language
    by (simp add: lit_Cons) metis
qed

lemma content_type_pattern_language:
  "t \<in> content_type_pattern \<longleftrightarrow> content_type_grammar t"
proof -
  have "c \<in> set (lit (digit_class @ upper_class @ lower_class @ CHR 0x27 # ''()+_,.:=?-'')) \<longleftrightarrow> boundary_char c" for c
    unfolding lit_append set_append Un_iff u8_classes boundary_char_def is_ascii_alphanumeric_def by (auto simp: lit_Cons)
  then have "b \<in> repeated (digit_class @ upper_class @ lower_class @ CHR 0x27 # ''()+_,.:=?-'') 1 70 \<longleftrightarrow>
      1 \<le> length b \<and> length b \<le> 70 \<and> list_all boundary_char b" for b
    unfolding repeated_def mem_Collect_eq subset_class by presburger
  then show ?thesis
    unfolding content_type_language content_type_pattern_def CONTENT_TYPE_PREFIX_def prefix_and_rest by presburger
qed

section \<open>Properties\<close>

text \<open>
  C37. The grammars accept exactly the patterns of the schemas: the version 4 and version 7 UUID, the
  timestamp with its optional fraction of one to nine digits, the short token, the version token, the
  two-segment error code \<open>[a-z][a-z0-9_]{0,23}\.[a-z][a-z0-9_]{0,23}\<close>, and the content type, of which
  \<open>boundary\<close> returns what follows the fixed prefix.
\<close>

theorem wire_grammars_exact:
  "(uuid_grammar t 4 \<longleftrightarrow> t \<in> uuid_pattern ''4'') \<and>
   (uuid_grammar t 7 \<longleftrightarrow> t \<in> uuid_pattern ''7'') \<and>
   (timestamp_grammar t \<longleftrightarrow> t \<in> timestamp_pattern) \<and>
   (short_token_grammar t \<longleftrightarrow> t \<in> short_token_pattern) \<and>
   (version_token_grammar t \<longleftrightarrow> t \<in> version_token_pattern) \<and>
   (error_code_grammar t \<longleftrightarrow> t \<in> error_code_pattern) \<and>
   (content_type_grammar t \<longleftrightarrow> t \<in> content_type_pattern) \<and>
   (content_type_grammar t \<longleftrightarrow> (\<exists>b. boundary t = Some b \<and> t \<in> content_type_pattern \<and> t = lit ''multipart/related; boundary='' @ b))"
proof -
  have "lit ''4'' = [ch CHR ''0'' + 4]" "lit ''7'' = [ch CHR ''0'' + 7]" by (simp_all add: lit_Cons)
  note uuid = this [THEN uuid_pattern_language]
  show ?thesis
    unfolding uuid uuid_grammar_language timestamp_grammar_language timestamp_pattern_language short_token_pattern_language
      version_token_pattern_language error_code_pattern_language content_type_pattern_language
    using boundary_content_type [of t] unfolding CONTENT_TYPE_PREFIX_def by blast
qed

text \<open>
  C36. Every closed enum fails closed and loses nothing: its parser returns a variant exactly on
  that variant's token (so an unknown token is an error, and no two tokens name one variant).
  The digest, key and signature parsers accept exactly the lowercase hex rendering of the
  right number of bytes and return those bytes.
\<close>

theorem wire_types_exact:
  "(ArtifactKind_parse t = Inr v1 \<longleftrightarrow> t = ArtifactKind_token v1) \<and>
   (RangeKind_parse t = Inr v2 \<longleftrightarrow> t = RangeKind_token v2) \<and>
   (IdSource_parse t = Inr v3 \<longleftrightarrow> t = IdSource_token v3) \<and>
   (StorageProfile_parse t = Inr v4 \<longleftrightarrow> t = StorageProfile_token v4) \<and>
   (TransportEncoding_parse t = Inr v5 \<longleftrightarrow> t = TransportEncoding_token v5) \<and>
   (ChecksumAlgorithm_parse t = Inr v6 \<longleftrightarrow> t = ChecksumAlgorithm_token v6) \<and>
   (StorageOutcome_parse t = Inr v7 \<longleftrightarrow> t = StorageOutcome_token v7) \<and>
   (SignatureAlgorithm_parse t = Inr v8 \<longleftrightarrow> t = SignatureAlgorithm_token v8) \<and>
   (InferenceArtifactKind_parse t = Inr v9 \<longleftrightarrow> t = InferenceArtifactKind_token v9) \<and>
   (RetryReason_parse t = Inr v10 \<longleftrightarrow> t = RetryReason_token v10) \<and>
   (UsageSource_parse t = Inr v11 \<longleftrightarrow> t = UsageSource_token v11) \<and>
   (TransportErrorClass_parse t = Inr v12 \<longleftrightarrow> t = TransportErrorClass_token v12) \<and>
   (digest_parse t = Inr d \<longleftrightarrow> length d = 32 \<and> t = to_hex d) \<and>
   (Ed25519PublicKey_parse t = Inr k \<longleftrightarrow> length k = 32 \<and> t = to_hex k) \<and>
   (Ed25519Signature_parse t = Inr s \<longleftrightarrow> length s = 64 \<and> t = to_hex s)"
  by (simp only: artifact_kind.parse_iff range_kind.parse_iff id_source.parse_iff storage_profile.parse_iff transport_encoding.parse_iff checksum_algorithm.parse_iff storage_outcome.parse_iff signature_algorithm.parse_iff inference_artifact_kind.parse_iff retry_reason.parse_iff usage_source.parse_iff transport_error_class.parse_iff
      digest_text.parse_iff public_key.parse_iff signature.parse_iff simp_thms)


end
