(* ===== verification/Derivation.thy ===== *)
theory Derivation
  imports Vocabulary "HOL-Library.List_Lexorder" "HOL-Library.Multiset"
begin

text \<open>
  The identity derivations of \<^verbatim>\<open>crates/archivist-protocol/src/derivation.rs\<close>: the two frame
  builders (one hashing, one keeping the bytes), the five labelled identities, the label-less
  blob digest and the signing input of an ingest attempt.

  The abstract frame is \<open>preimage label fields\<close>. Both builders implement it
  (\<open>frame_sink\<close>, interpreted for each), and the frame is injective in the label and in the
  content of every field, so two identities that agree agree on every input or exhibit two
  different frames with the same digest.
\<close>

section \<open>The hashing frame builder\<close>

definition LABEL_DELIMITER :: u8 where
  "LABEL_DELIMITER = 0x00"

record FrameBuilder =
  hasher :: Sha256

definition FrameBuilder_new :: "str \<Rightarrow> FrameBuilder" where
  "FrameBuilder_new label =
     (let h = sha256_new;
          h = sha256_update h label;
          h = sha256_update h [LABEL_DELIMITER]
      in \<lparr>hasher = h\<rparr>)"

definition push_text :: "FrameBuilder \<Rightarrow> str \<Rightarrow> FrameBuilder" where
  "push_text self t =
     (let h = sha256_update (hasher self) (u64_to_be_bytes (of_nat (length t)))
      in self\<lparr>hasher := sha256_update h t\<rparr>)"

definition push_digest32 :: "FrameBuilder \<Rightarrow> Digest \<Rightarrow> FrameBuilder" where
  "push_digest32 self bytes =
     (let h = sha256_update (hasher self) (u64_to_be_bytes 32)
      in self\<lparr>hasher := sha256_update h bytes\<rparr>)"

definition push_u63 :: "FrameBuilder \<Rightarrow> u64 \<Rightarrow> FrameBuilder" where
  "push_u63 self val =
     (let h = sha256_update (hasher self) (u64_to_be_bytes 8)
      in self\<lparr>hasher := sha256_update h (u64_to_be_bytes val)\<rparr>)"

definition push_bytes :: "FrameBuilder \<Rightarrow> u8 list \<Rightarrow> FrameBuilder" where
  "push_bytes self bytes =
     (let h = sha256_update (hasher self) (u64_to_be_bytes (of_nat (length bytes)))
      in self\<lparr>hasher := sha256_update h bytes\<rparr>)"

definition finish :: "FrameBuilder \<Rightarrow> u8 list" where
  "finish self = sha256_finalize (hasher self)"

section \<open>The derivations\<close>

definition session_hash :: "TenantId \<Rightarrow> ClientId \<Rightarrow> HarnessId \<Rightarrow> str \<Rightarrow> SessionHash" where
  "session_hash tenant_id origin_client_id harness upstream_session_id =
     (let frame = FrameBuilder_new (lit ''session-v1'');
          frame = push_text frame tenant_id;
          frame = push_text frame origin_client_id;
          frame = push_text frame harness;
          frame = push_text frame upstream_session_id
      in finish frame)"

definition artifact_hash ::
  "SessionHash \<Rightarrow> ArtifactKind \<Rightarrow> AdapterId \<Rightarrow> VersionToken \<Rightarrow> str \<Rightarrow> ArtifactHash" where
  "artifact_hash session artifact_kind adapter_id adapter_projection_version adapter_artifact_id =
     (let frame = FrameBuilder_new (lit ''artifact-v1'');
          frame = push_digest32 frame session;
          frame = push_text frame (ArtifactKind_token artifact_kind);
          frame = push_text frame adapter_id;
          frame = push_text frame adapter_projection_version;
          frame = push_text frame adapter_artifact_id
      in finish frame)"

definition blob_digest :: "u8 list \<Rightarrow> BlobDigest" where
  "blob_digest canonical_uncompressed_bytes = digest canonical_uncompressed_bytes"

definition occurrence_id ::
  "SessionHash \<Rightarrow> ArtifactHash \<Rightarrow> GenerationId \<Rightarrow> RangeKind \<Rightarrow> u64 \<Rightarrow> u64 \<Rightarrow> BlobDigest \<Rightarrow> OccurrenceId"
where
  "occurrence_id session artifact generation range_kind range_start range_end blob =
     (let frame = FrameBuilder_new (lit ''occurrence-v1'');
          frame = push_digest32 frame session;
          frame = push_digest32 frame artifact;
          frame = push_text frame generation;
          frame = push_text frame (RangeKind_token range_kind);
          frame = push_u63 frame range_start;
          frame = push_u63 frame range_end;
          frame = push_digest32 frame blob
      in finish frame)"

definition attestation_id :: "OccurrenceId \<Rightarrow> ClientId \<Rightarrow> RequestId \<Rightarrow> AttestationId" where
  "attestation_id occurrence uploader_client_id request_id =
     (let frame = FrameBuilder_new (lit ''attestation-v1'');
          frame = push_digest32 frame occurrence;
          frame = push_text frame uploader_client_id;
          frame = push_text frame request_id
      in finish frame)"

text \<open>\<^verbatim>\<open>sort_unstable\<close> on \<^verbatim>\<open>&str\<close> is by bytes, the lexicographic order of the lists.\<close>

definition export_selection_digest :: "TenantId \<Rightarrow> BlobDigest \<Rightarrow> str list \<Rightarrow> BlobDigest" where
  "export_selection_digest tenant_id inventory_digest occurrence_keys =
     (let ordered = sort occurrence_keys;
          frame = FrameBuilder_new (lit ''export-selection-v1'');
          frame = push_text frame tenant_id;
          frame = push_digest32 frame inventory_digest;
          frame = push_u63 frame (of_nat (length ordered));
          frame = fold (\<lambda>key frame. push_text frame key) ordered frame
      in finish frame)"

section \<open>The preimage builder\<close>

record PreimageBuilder =
  pb_bytes :: "u8 list"

definition PreimageBuilder_new :: "str \<Rightarrow> PreimageBuilder" where
  "PreimageBuilder_new label = \<lparr>pb_bytes = label @ [LABEL_DELIMITER]\<rparr>"

definition preimage_push_len :: "PreimageBuilder \<Rightarrow> nat \<Rightarrow> PreimageBuilder" where
  "preimage_push_len self len = self\<lparr>pb_bytes := pb_bytes self @ u64_to_be_bytes (of_nat len)\<rparr>"

definition preimage_push_text :: "PreimageBuilder \<Rightarrow> str \<Rightarrow> PreimageBuilder" where
  "preimage_push_text self t =
     (let self = preimage_push_len self (length t) in self\<lparr>pb_bytes := pb_bytes self @ t\<rparr>)"

definition preimage_push_digest32 :: "PreimageBuilder \<Rightarrow> Digest \<Rightarrow> PreimageBuilder" where
  "preimage_push_digest32 self raw =
     (let self = preimage_push_len self 32 in self\<lparr>pb_bytes := pb_bytes self @ raw\<rparr>)"

definition preimage_push_u63 :: "PreimageBuilder \<Rightarrow> u64 \<Rightarrow> PreimageBuilder" where
  "preimage_push_u63 self val =
     (let self = preimage_push_len self 8 in self\<lparr>pb_bytes := pb_bytes self @ u64_to_be_bytes val\<rparr>)"

definition preimage_finish :: "PreimageBuilder \<Rightarrow> u8 list" where
  "preimage_finish self = pb_bytes self"

definition ingest_attempt_signing_input ::
  "str \<Rightarrow> str \<Rightarrow> str \<Rightarrow> RequestContentDigest \<Rightarrow> EnvelopeDigest \<Rightarrow> BlobDigest \<Rightarrow> IncomingChecksum \<Rightarrow>
   KeyId \<Rightarrow> u64 \<Rightarrow> Timestamp \<Rightarrow> u8 list"
where
  "ingest_attempt_signing_input http_method route content_type request_content_digest envelope_digest
     payload_canonical_digest payload_transport_digest uploader_key_id authorization_epoch
     authorization_timestamp =
     (let frame = PreimageBuilder_new (lit ''ingest-attempt-v1'');
          frame = preimage_push_text frame http_method;
          frame = preimage_push_text frame route;
          frame = preimage_push_text frame content_type;
          frame = preimage_push_digest32 frame request_content_digest;
          frame = preimage_push_digest32 frame envelope_digest;
          frame = preimage_push_digest32 frame payload_canonical_digest;
          frame = preimage_push_digest32 frame payload_transport_digest;
          frame = preimage_push_digest32 frame uploader_key_id;
          frame = preimage_push_u63 frame authorization_epoch;
          frame = preimage_push_text frame authorization_timestamp
      in preimage_finish frame)"

section \<open>The abstract frame\<close>

datatype field = Text str | Raw Digest | U63 u64

fun field_bytes :: "field \<Rightarrow> u8 list" where
  "field_bytes (Text t) = t"
| "field_bytes (Raw d) = d"
| "field_bytes (U63 n) = u64_to_be_bytes n"

fun field_ok :: "field \<Rightarrow> bool" where
  "field_ok (Text t) \<longleftrightarrow> length t < 2 ^ 64"
| "field_ok (Raw d) \<longleftrightarrow> length d = 32"
| "field_ok (U63 n) \<longleftrightarrow> True"

definition frame_bytes :: "u8 list \<Rightarrow> u8 list" where
  "frame_bytes content = u64_to_be_bytes (of_nat (length content)) @ content"

definition preimage :: "str \<Rightarrow> field list \<Rightarrow> u8 list" where
  "preimage label fs = label @ [LABEL_DELIMITER] @ concat (map (frame_bytes \<circ> field_bytes) fs)"

lemma preimage_Nil: "preimage label [] = label @ [LABEL_DELIMITER]"
  by (simp add: preimage_def)

lemma preimage_snoc: "preimage label (fs @ [f]) = preimage label fs @ frame_bytes (field_bytes f)"
  by (simp add: preimage_def)

lemma frame_bytes_inject:
  assumes "length x < 2 ^ 64" "length y < 2 ^ 64"
  shows "frame_bytes x @ us = frame_bytes y @ vs \<longleftrightarrow> x = y \<and> us = vs"
proof
  assume "frame_bytes x @ us = frame_bytes y @ vs"
  then have "(of_nat (length x) :: u64) = of_nat (length y)" and rest: "x @ us = y @ vs"
    by (simp_all add: frame_bytes_def append_eq_length_inject)
  then have "unat (of_nat (length x) :: u64) = unat (of_nat (length y) :: u64)" by simp
  then have "length x = length y" using assms by (simp add: unat_of_nat)
  then show "x = y \<and> us = vs" using rest by simp
qed simp

lemma frames_inject:
  assumes "\<forall>x\<in>set xs. length x < 2 ^ 64" "\<forall>y\<in>set ys. length y < 2 ^ 64"
  shows "concat (map frame_bytes xs) = concat (map frame_bytes ys) \<longleftrightarrow> xs = ys"
  using assms
proof (induction xs arbitrary: ys)
  case Nil
  then show ?case by (cases ys) (auto simp: frame_bytes_def u64_to_be_bytes_def)
next
  case (Cons x xs)
  show ?case
  proof (cases ys)
    case Nil
    then show ?thesis by (simp add: frame_bytes_def u64_to_be_bytes_def)
  next
    case (Cons y ys')
    then show ?thesis using Cons.prems Cons.IH [of ys'] by (simp add: frame_bytes_inject)
  qed
qed

lemma field_ok_length: "field_ok f \<Longrightarrow> length (field_bytes f) < 2 ^ 64"
  by (cases f) simp_all

text \<open>A label has no NUL byte, so its end is the first one.\<close>

lemma label_inject:
  assumes "LABEL_DELIMITER \<notin> set l" "LABEL_DELIMITER \<notin> set l'"
  shows "l @ LABEL_DELIMITER # us = l' @ LABEL_DELIMITER # vs \<longleftrightarrow> l = l' \<and> us = vs"
  using assms by (induction l arbitrary: l') (case_tac [!] l', auto)

lemma preimage_inject:
  assumes "LABEL_DELIMITER \<notin> set l" "LABEL_DELIMITER \<notin> set l'"
    and "\<forall>f\<in>set fs. field_ok f" "\<forall>f\<in>set fs'. field_ok f"
  shows "preimage l fs = preimage l' fs' \<longleftrightarrow> l = l' \<and> map field_bytes fs = map field_bytes fs'"
proof -
  have "\<forall>x\<in>set (map field_bytes fs). length x < 2 ^ 64" "\<forall>x\<in>set (map field_bytes fs'). length x < 2 ^ 64"
    using assms(3,4) field_ok_length by auto
  from frames_inject [OF this]
  show ?thesis using assms(1,2) by (simp add: preimage_def label_inject)
qed

section \<open>Both builders write the frame\<close>

text \<open>
  A frame sink holds the bytes pushed so far. The contract of the two builders, and what a
  sequence of pushes leaves in a sink.
\<close>

locale frame_sink =
  fixes new :: "str \<Rightarrow> 'b" and put_text :: "'b \<Rightarrow> str \<Rightarrow> 'b" and put_raw32 :: "'b \<Rightarrow> Digest \<Rightarrow> 'b"
    and put_u63 :: "'b \<Rightarrow> u64 \<Rightarrow> 'b" and holds :: "'b \<Rightarrow> u8 list \<Rightarrow> bool"
  assumes holds_new: "holds (new label) (preimage label [])"
    and holds_text: "holds b m \<Longrightarrow> holds (put_text b t) (m @ frame_bytes t)"
    and holds_raw32: "holds b m \<Longrightarrow> length d = 32 \<Longrightarrow> holds (put_raw32 b d) (m @ frame_bytes d)"
    and holds_u63: "holds b m \<Longrightarrow> holds (put_u63 b n) (m @ frame_bytes (u64_to_be_bytes n))"
begin

lemma holds_texts: "holds b m \<Longrightarrow> holds (fold (\<lambda>t b. put_text b t) ts b) (m @ concat (map frame_bytes ts))"
proof (induction ts arbitrary: b m)
  case (Cons t ts)
  then show ?case using Cons.IH [OF holds_text] by fastforce
qed simp

lemma holds_push:
  "holds b (preimage l fs) \<Longrightarrow> holds (put_text b t) (preimage l (fs @ [Text t]))"
  "holds b (preimage l fs) \<Longrightarrow> length d = 32 \<Longrightarrow> holds (put_raw32 b d) (preimage l (fs @ [Raw d]))"
  "holds b (preimage l fs) \<Longrightarrow> holds (put_u63 b n) (preimage l (fs @ [U63 n]))"
  unfolding preimage_snoc by (simp_all add: holds_text holds_raw32 holds_u63)

lemma holds_push_texts:
  "holds b (preimage l fs) \<Longrightarrow> holds (fold (\<lambda>t b. put_text b t) ts b) (preimage l (fs @ map Text ts))"
  using holds_texts [of b "preimage l fs" ts] by (simp add: preimage_def comp_def)

end

definition frame_holds :: "FrameBuilder \<Rightarrow> u8 list \<Rightarrow> bool" where
  "frame_holds b m \<longleftrightarrow> absorbed (hasher b) m"

interpretation hashed: frame_sink FrameBuilder_new push_text push_digest32 push_u63 frame_holds
proof unfold_locales
  show "frame_holds (FrameBuilder_new label) (preimage label [])" for label
    using sha.holds_update [OF sha.holds_update [OF sha.holds_new, of label], of "[LABEL_DELIMITER]"]
    by (simp add: frame_holds_def FrameBuilder_new_def preimage_Nil)
  show "frame_holds (push_text b t) (m @ frame_bytes t)" if "frame_holds b m" for b m t
    using sha.holds_update [OF sha.holds_update] that
    by (fastforce simp: frame_holds_def push_text_def frame_bytes_def)
  show "frame_holds (push_digest32 b d) (m @ frame_bytes d)" if "frame_holds b m" "length d = 32" for b m d
    using sha.holds_update [OF sha.holds_update] that
    by (fastforce simp: frame_holds_def push_digest32_def frame_bytes_def)
  show "frame_holds (push_u63 b n) (m @ frame_bytes (u64_to_be_bytes n))" if "frame_holds b m" for b m n
    using sha.holds_update [OF sha.holds_update] that
    by (fastforce simp: frame_holds_def push_u63_def frame_bytes_def)
qed

definition preimage_holds :: "PreimageBuilder \<Rightarrow> u8 list \<Rightarrow> bool" where
  "preimage_holds b m \<longleftrightarrow> pb_bytes b = m"

interpretation clear: frame_sink PreimageBuilder_new preimage_push_text preimage_push_digest32
  preimage_push_u63 preimage_holds
  by unfold_locales
     (simp_all add: preimage_holds_def PreimageBuilder_new_def preimage_push_text_def
      preimage_push_digest32_def preimage_push_u63_def preimage_push_len_def preimage_def frame_bytes_def)

lemma finish_holds: "frame_holds b m \<Longrightarrow> finish b = digest m"
  by (simp add: frame_holds_def finish_def digest_spec sha.finalize_holds)

section \<open>Every identity is the digest of its frame\<close>

definition session_preimage :: "TenantId \<Rightarrow> ClientId \<Rightarrow> HarnessId \<Rightarrow> str \<Rightarrow> u8 list" where
  "session_preimage t c h u = preimage (lit ''session-v1'') [Text t, Text c, Text h, Text u]"

definition artifact_preimage ::
  "SessionHash \<Rightarrow> ArtifactKind \<Rightarrow> AdapterId \<Rightarrow> VersionToken \<Rightarrow> str \<Rightarrow> u8 list" where
  "artifact_preimage s k a v i =
     preimage (lit ''artifact-v1'') [Raw s, Text (ArtifactKind_token k), Text a, Text v, Text i]"

definition occurrence_preimage ::
  "SessionHash \<Rightarrow> ArtifactHash \<Rightarrow> GenerationId \<Rightarrow> RangeKind \<Rightarrow> u64 \<Rightarrow> u64 \<Rightarrow> BlobDigest \<Rightarrow> u8 list" where
  "occurrence_preimage s a g k x y b =
     preimage (lit ''occurrence-v1'')
       [Raw s, Raw a, Text g, Text (RangeKind_token k), U63 x, U63 y, Raw b]"

definition attestation_preimage :: "OccurrenceId \<Rightarrow> ClientId \<Rightarrow> RequestId \<Rightarrow> u8 list" where
  "attestation_preimage oc u r = preimage (lit ''attestation-v1'') [Raw oc, Text u, Text r]"

definition export_selection_preimage :: "TenantId \<Rightarrow> BlobDigest \<Rightarrow> str list \<Rightarrow> u8 list" where
  "export_selection_preimage t i ks =
     preimage (lit ''export-selection-v1'') ([Text t, Raw i, U63 (of_nat (length ks))] @ map Text (sort ks))"

lemma session_hash_eq: "session_hash t c h u = digest (session_preimage t c h u)"
proof -
  note hashed.holds_push(1) [OF hashed.holds_push(1) [OF hashed.holds_push(1)
      [OF hashed.holds_push(1) [OF hashed.holds_new]]]]
  from finish_holds [OF this [of "lit ''session-v1''" t c h u]]
  show ?thesis by (simp add: session_hash_def session_preimage_def)
qed

lemma artifact_hash_eq:
  assumes "length s = 32"
  shows "artifact_hash s k a v i = digest (artifact_preimage s k a v i)"
proof -
  note hashed.holds_push(1) [OF hashed.holds_push(1) [OF hashed.holds_push(1)
      [OF hashed.holds_push(1) [OF hashed.holds_push(2) [OF hashed.holds_new assms]]]]]
  from finish_holds [OF this [of "lit ''artifact-v1''" "ArtifactKind_token k" a v i]]
  show ?thesis by (simp add: artifact_hash_def artifact_preimage_def)
qed

lemma occurrence_id_eq:
  assumes "length s = 32" "length a = 32" "length b = 32"
  shows "occurrence_id s a g k x y b = digest (occurrence_preimage s a g k x y b)"
proof -
  note hashed.holds_push(2) [OF hashed.holds_push(3) [OF hashed.holds_push(3) [OF hashed.holds_push(1)
      [OF hashed.holds_push(1) [OF hashed.holds_push(2) [OF hashed.holds_push(2)
      [OF hashed.holds_new assms(1)] assms(2)]]]]] assms(3)]
  from finish_holds [OF this [of "lit ''occurrence-v1''" g "RangeKind_token k" x y]]
  show ?thesis by (simp add: occurrence_id_def occurrence_preimage_def)
qed

lemma attestation_id_eq:
  assumes "length oc = 32"
  shows "attestation_id oc u r = digest (attestation_preimage oc u r)"
proof -
  note hashed.holds_push(1) [OF hashed.holds_push(1) [OF hashed.holds_push(2) [OF hashed.holds_new assms]]]
  from finish_holds [OF this [of "lit ''attestation-v1''" u r]]
  show ?thesis by (simp add: attestation_id_def attestation_preimage_def)
qed

lemma export_selection_digest_eq:
  assumes "length i = 32"
  shows "export_selection_digest t i ks = digest (export_selection_preimage t i ks)"
proof -
  note hashed.holds_push(3) [OF hashed.holds_push(2) [OF hashed.holds_push(1) [OF hashed.holds_new] assms]]
  from finish_holds [OF hashed.holds_push_texts [OF this [of "lit ''export-selection-v1''" t "of_nat (length ks)"],
        of "sort ks"]]
  show ?thesis by (simp add: export_selection_digest_def export_selection_preimage_def)
qed

section \<open>The frames are injective\<close>

lemma no_delimiter_labels:
  "LABEL_DELIMITER \<notin> set (lit ''session-v1'')" "LABEL_DELIMITER \<notin> set (lit ''artifact-v1'')"
  "LABEL_DELIMITER \<notin> set (lit ''occurrence-v1'')" "LABEL_DELIMITER \<notin> set (lit ''attestation-v1'')"
  "LABEL_DELIMITER \<notin> set (lit ''export-selection-v1'')" "LABEL_DELIMITER \<notin> set (lit ''ingest-attempt-v1'')"
  by (simp_all add: LABEL_DELIMITER_def wire_simps)

lemma same_label_inject:
  assumes "LABEL_DELIMITER \<notin> set l" "list_all field_ok fs" "list_all field_ok fs'"
  shows "preimage l fs = preimage l fs' \<longleftrightarrow> map field_bytes fs = map field_bytes fs'"
  using preimage_inject [OF assms(1) assms(1)] assms(2,3) by (simp add: list_all_iff)

lemma token_lengths [simp]:
  "length (ArtifactKind_token k) < 2 ^ 64" "length (RangeKind_token r) < 2 ^ 64"
  by (cases k; cases r; simp)+

lemma token_inject [simp]:
  "ArtifactKind_token k = ArtifactKind_token k' \<longleftrightarrow> k = k'" "RangeKind_token r = RangeKind_token r' \<longleftrightarrow> r = r'"
  using artifact_kind.render_inject range_kind.render_inject by simp_all

lemma session_preimage_inject:
  assumes "list_all (\<lambda>x. length x < 2 ^ 64) [t, c, h, u, t', c', h', u']"
  shows "session_preimage t c h u = session_preimage t' c' h' u' \<longleftrightarrow> t = t' \<and> c = c' \<and> h = h' \<and> u = u'"
  using assms unfolding session_preimage_def
  by (subst same_label_inject) (simp_all add: no_delimiter_labels)

lemma artifact_preimage_inject:
  assumes "length s = 32" "length s' = 32" "list_all (\<lambda>x. length x < 2 ^ 64) [a, v, i, a', v', i']"
  shows "artifact_preimage s k a v i = artifact_preimage s' k' a' v' i' \<longleftrightarrow>
    s = s' \<and> k = k' \<and> a = a' \<and> v = v' \<and> i = i'"
  using assms token_lengths(1) [of k] token_lengths(1) [of k'] unfolding artifact_preimage_def
  by (subst same_label_inject) (simp_all add: no_delimiter_labels)

lemma occurrence_preimage_inject:
  assumes "list_all (\<lambda>d. length d = 32) [s, a, b, s', a', b']" "length g < 2 ^ 64" "length g' < 2 ^ 64"
  shows "occurrence_preimage s a g k x y b = occurrence_preimage s' a' g' k' x' y' b' \<longleftrightarrow>
    s = s' \<and> a = a' \<and> g = g' \<and> k = k' \<and> x = x' \<and> y = y' \<and> b = b'"
  using assms token_lengths(2) [of k] token_lengths(2) [of k'] unfolding occurrence_preimage_def
  by (subst same_label_inject) (simp_all add: no_delimiter_labels)

lemma attestation_preimage_inject:
  assumes "length oc = 32" "length oc' = 32" "list_all (\<lambda>x. length x < 2 ^ 64) [u, r, u', r']"
  shows "attestation_preimage oc u r = attestation_preimage oc' u' r' \<longleftrightarrow> oc = oc' \<and> u = u' \<and> r = r'"
  using assms unfolding attestation_preimage_def
  by (subst same_label_inject) (simp_all add: no_delimiter_labels)

lemma length_identities [simp]:
  "length (session_hash t c h u) = 32"
  "length s = 32 \<Longrightarrow> length (artifact_hash s k a v i) = 32"
  "length (blob_digest bs) = 32"
  "length s = 32 \<Longrightarrow> length ah = 32 \<Longrightarrow> length b = 32 \<Longrightarrow> length (occurrence_id s ah g rk x y b) = 32"
  "length oc = 32 \<Longrightarrow> length (attestation_id oc c r) = 32"
  by (simp_all add: session_hash_eq artifact_hash_eq occurrence_id_eq attestation_id_eq blob_digest_def)

text \<open>Everything an occurrence identity is derived from, and the chain of derivations.\<close>

record occurrence_inputs =
  oi_tenant :: TenantId
  oi_origin :: ClientId
  oi_harness :: HarnessId
  oi_upstream :: str
  oi_kind :: ArtifactKind
  oi_adapter :: AdapterId
  oi_version :: VersionToken
  oi_artifact_id :: str
  oi_generation :: GenerationId
  oi_range_kind :: RangeKind
  oi_start :: u64
  oi_end :: u64
  oi_payload :: "u8 list"

definition oi_ok :: "occurrence_inputs \<Rightarrow> bool" where
  "oi_ok i \<longleftrightarrow> list_all (\<lambda>x. length x < 2 ^ 64)
     [oi_tenant i, oi_origin i, oi_harness i, oi_upstream i, oi_adapter i, oi_version i, oi_artifact_id i,
      oi_generation i]"

definition oi_session :: "occurrence_inputs \<Rightarrow> SessionHash" where
  "oi_session i = session_hash (oi_tenant i) (oi_origin i) (oi_harness i) (oi_upstream i)"

definition oi_artifact :: "occurrence_inputs \<Rightarrow> ArtifactHash" where
  "oi_artifact i = artifact_hash (oi_session i) (oi_kind i) (oi_adapter i) (oi_version i) (oi_artifact_id i)"

definition oi_occurrence :: "occurrence_inputs \<Rightarrow> OccurrenceId" where
  "oi_occurrence i = occurrence_id (oi_session i) (oi_artifact i) (oi_generation i) (oi_range_kind i)
     (oi_start i) (oi_end i) (blob_digest (oi_payload i))"

definition oi_frames :: "occurrence_inputs \<Rightarrow> u8 list list" where
  "oi_frames i =
     [session_preimage (oi_tenant i) (oi_origin i) (oi_harness i) (oi_upstream i),
      artifact_preimage (oi_session i) (oi_kind i) (oi_adapter i) (oi_version i) (oi_artifact_id i),
      oi_payload i,
      occurrence_preimage (oi_session i) (oi_artifact i) (oi_generation i) (oi_range_kind i)
        (oi_start i) (oi_end i) (blob_digest (oi_payload i))]"

text \<open>Two different byte strings with one digest.\<close>

definition collides :: "u8 list \<Rightarrow> u8 list \<Rightarrow> bool" where
  "collides m m' \<longleftrightarrow> m \<noteq> m' \<and> digest m = digest m'"

lemma not_collides: "\<not> collides m m' \<Longrightarrow> digest m = digest m' \<longleftrightarrow> m = m'"
  by (auto simp: collides_def)

lemma oi_lengths [simp]: "length (oi_session i) = 32" "length (oi_artifact i) = 32"
  by (simp_all add: oi_session_def oi_artifact_def)

lemma oi_occurrence_inject:
  assumes ok: "oi_ok i" "oi_ok j" and eq: "oi_occurrence i = oi_occurrence j"
    and nc: "\<not> list_ex (\<lambda>(m, m'). collides m m') (zip (oi_frames i) (oi_frames j))"
  shows "i = j"
proof -
  have nc1: "\<not> collides (session_preimage (oi_tenant i) (oi_origin i) (oi_harness i) (oi_upstream i))
      (session_preimage (oi_tenant j) (oi_origin j) (oi_harness j) (oi_upstream j))"
    and nc2: "\<not> collides (artifact_preimage (oi_session i) (oi_kind i) (oi_adapter i) (oi_version i) (oi_artifact_id i))
      (artifact_preimage (oi_session j) (oi_kind j) (oi_adapter j) (oi_version j) (oi_artifact_id j))"
    and nc3: "\<not> collides (oi_payload i) (oi_payload j)"
    and nc4: "\<not> collides (last (oi_frames i)) (last (oi_frames j))"
    using nc by (auto simp: oi_frames_def)
  have "digest (last (oi_frames i)) = digest (last (oi_frames j))"
    using eq by (simp add: oi_occurrence_def occurrence_id_eq oi_frames_def)
  then have o: "oi_session i = oi_session j" "oi_artifact i = oi_artifact j" "oi_generation i = oi_generation j"
    "oi_range_kind i = oi_range_kind j" "oi_start i = oi_start j" "oi_end i = oi_end j"
    "digest (oi_payload i) = digest (oi_payload j)"
    using not_collides [OF nc4] ok
    by (simp_all add: oi_frames_def oi_ok_def occurrence_preimage_inject blob_digest_def)
  from o(2) have a: "oi_kind i = oi_kind j" "oi_adapter i = oi_adapter j" "oi_version i = oi_version j"
    "oi_artifact_id i = oi_artifact_id j"
    using not_collides [OF nc2] ok
    by (simp_all add: oi_artifact_def artifact_hash_eq oi_ok_def artifact_preimage_inject)
  from o(1) have "oi_tenant i = oi_tenant j" "oi_origin i = oi_origin j" "oi_harness i = oi_harness j"
    "oi_upstream i = oi_upstream j"
    using not_collides [OF nc1] ok
    by (simp_all add: oi_session_def session_hash_eq oi_ok_def session_preimage_inject)
  moreover have "oi_payload i = oi_payload j" using o(7) not_collides [OF nc3] by simp
  ultimately show ?thesis using o(3-6) a by simp
qed

lemma ingest_attempt_signing_input_eq:
  assumes "list_all (\<lambda>d. length d = 32) [cd, ed, pc, pt, key]"
  shows "ingest_attempt_signing_input m r ct cd ed pc pt key e ts =
    preimage (lit ''ingest-attempt-v1'')
      [Text m, Text r, Text ct, Raw cd, Raw ed, Raw pc, Raw pt, Raw key, U63 e, Text ts]"
proof -
  from assms have len: "length cd = 32" "length ed = 32" "length pc = 32" "length pt = 32" "length key = 32"
    by simp_all
  note clear.holds_push(1) [OF clear.holds_push(1) [OF clear.holds_push(1) [OF clear.holds_new]]]
  note clear.holds_push(2) [OF clear.holds_push(2) [OF clear.holds_push(2) [OF this len(1)] len(2)] len(3)]
  note clear.holds_push(1) [OF clear.holds_push(3) [OF clear.holds_push(2) [OF clear.holds_push(2)
      [OF this len(4)] len(5)]]]
  from this [of "lit ''ingest-attempt-v1''" m r ct e ts] show ?thesis
    by (simp add: ingest_attempt_signing_input_def preimage_finish_def preimage_holds_def)
qed

lemma export_selection_preimage_inject:
  assumes "list_all (\<lambda>k. length k < 2 ^ 64) (t # t' # ks @ ks')" "length i = 32" "length i' = 32"
    "length ks < 2 ^ 64" "length ks' < 2 ^ 64"
  shows "export_selection_preimage t i ks = export_selection_preimage t' i' ks' \<longleftrightarrow>
    t = t' \<and> i = i' \<and> mset ks = mset ks'"
proof -
  have ok: "list_all field_ok ([Text t, Raw i, U63 (of_nat (length ks))] @ map Text (sort ks))"
    "list_all field_ok ([Text t', Raw i', U63 (of_nat (length ks'))] @ map Text (sort ks'))"
    using assms by (auto simp: list_all_iff)
  have "export_selection_preimage t i ks = export_selection_preimage t' i' ks' \<longleftrightarrow>
      t = t' \<and> i = i' \<and> (of_nat (length ks) :: u64) = of_nat (length ks') \<and> sort ks = sort ks'"
    unfolding export_selection_preimage_def same_label_inject [OF no_delimiter_labels(5) ok]
    by (simp add: comp_def)
  moreover have "sort ks = sort ks' \<longleftrightarrow> mset ks = mset ks'"
    by (metis mset_sort sort_key_id_if_sorted sorted_sort properties_for_sort)
  moreover have "mset ks = mset ks' \<Longrightarrow> length ks = length ks'" by (metis size_mset)
  ultimately show ?thesis by auto
qed

section \<open>Properties\<close>

text \<open>
  C1. The occurrence identity determines the occurrence: if two captures have the same
  \<open>occurrence_id\<close>, derived through \<open>session_hash\<close>, \<open>artifact_hash\<close> and \<open>blob_digest\<close> as the
  ingest path derives it, then tenant, origin client, harness, upstream session, artifact
  kind, adapter, projection version, artifact id, generation, range and payload all agree,
  or one of the four pairs of hashed byte strings is a SHA-256 collision. Text lengths are
  below \<open>2 ^ 64\<close>, as every \<^verbatim>\<open>usize\<close> is.
\<close>

theorem occurrence_identity:
  assumes "oi_ok i" "oi_ok j" and "oi_occurrence i = oi_occurrence j"
  shows "i = j \<or> list_ex (\<lambda>(m, m'). collides m m') (zip (oi_frames i) (oi_frames j))"
  using oi_occurrence_inject [OF assms] by blast

definition sample_inputs :: occurrence_inputs where
  "sample_inputs = \<lparr>oi_tenant = lit ''0f1e2d3c-4b5a-4978-8a9b-0c1d2e3f4a5b'',
     oi_origin = lit ''aaaaaaaa-bbbb-4ccc-8ddd-1e2f3f4f5f6f'', oi_harness = lit ''claude-code'',
     oi_upstream = lit ''s-1'', oi_kind = FileSlice, oi_adapter = lit ''jsonl'', oi_version = lit ''1'',
     oi_artifact_id = lit ''main'', oi_generation = lit ''1a07a111-7000-7000-8000-000000000001'',
     oi_range_kind = Byte, oi_start = 0, oi_end = 4, oi_payload = lit ''abc''\<rparr>"

theorem occurrence_identity_witness:
  "oi_ok sample_inputs \<and>
   (sample_inputs = sample_inputs \<or>
    list_ex (\<lambda>(m, m'). collides m m') (zip (oi_frames sample_inputs) (oi_frames sample_inputs)))"
proof -
  have ok: "oi_ok sample_inputs" by (simp add: oi_ok_def sample_inputs_def)
  from ok occurrence_identity [OF ok ok refl] show ?thesis by blast
qed

text \<open>
  C2. The signature of an ingest attempt covers every field: two signing inputs are equal
  exactly when method, route, content type, the four digests, the key id, the epoch and the
  timestamp are all equal, so no field can be moved into another.
\<close>

theorem signing_input_covers_every_field:
  assumes "list_all (\<lambda>d. length d = 32) [cd, ed, pc, pt, key, cd', ed', pc', pt', key']"
    and "list_all (\<lambda>t. length t < 2 ^ 64) [m, r, ct, ts, m', r', ct', ts']"
  shows "ingest_attempt_signing_input m r ct cd ed pc pt key e ts =
      ingest_attempt_signing_input m' r' ct' cd' ed' pc' pt' key' e' ts' \<longleftrightarrow>
    m = m' \<and> r = r' \<and> ct = ct' \<and> cd = cd' \<and> ed = ed' \<and> pc = pc' \<and> pt = pt' \<and> key = key' \<and> e = e' \<and> ts = ts'"
proof -
  have len: "list_all (\<lambda>d. length d = 32) [cd, ed, pc, pt, key]" "list_all (\<lambda>d. length d = 32) [cd', ed', pc', pt', key']"
    using assms(1) by simp_all
  show ?thesis
    unfolding len [THEN ingest_attempt_signing_input_eq]
    using assms by (subst same_label_inject) (simp_all add: no_delimiter_labels)
qed

theorem signing_input_covers_every_field_witness:
  "ingest_attempt_signing_input (lit ''POST'') (lit ''/v1'') (lit ''a'') (replicate 32 0) (replicate 32 1)
     (replicate 32 2) (replicate 32 3) (replicate 32 4) 7 (lit ''t'') \<noteq>
   ingest_attempt_signing_input (lit ''POST'') (lit ''/v1a'') (lit '''') (replicate 32 0) (replicate 32 1)
     (replicate 32 2) (replicate 32 3) (replicate 32 4) 7 (lit ''t'')"
  by (subst signing_input_covers_every_field) simp_all

text \<open>
  C35. A raw-export approval is bound to exactly its selection: the digest is that of a frame
  which two selections share exactly when tenant, inventory digest and the keys, each with
  its number of occurrences, agree; the order in which the keys are supplied is irrelevant.
\<close>

theorem export_selection_exact:
  assumes "list_all (\<lambda>k. length k < 2 ^ 64) (t # t' # ks @ ks')" "length i = 32" "length i' = 32"
    "length ks < 2 ^ 64" "length ks' < 2 ^ 64"
  shows "export_selection_digest t i ks = digest (export_selection_preimage t i ks) \<and>
    (export_selection_preimage t i ks = export_selection_preimage t' i' ks' \<longleftrightarrow>
      t = t' \<and> i = i' \<and> mset ks = mset ks')"
  using export_selection_digest_eq [OF assms(2)] export_selection_preimage_inject [OF assms] by simp

theorem export_selection_exact_witness:
  "export_selection_preimage (lit ''t'') (replicate 32 0) [lit ''b'', lit ''a''] =
   export_selection_preimage (lit ''t'') (replicate 32 0) [lit ''a'', lit ''b'']"
  using export_selection_exact [of "lit ''t''" "lit ''t''" "[lit ''b'', lit ''a'']" "[lit ''a'', lit ''b'']"
      "replicate 32 0" "replicate 32 0"]
  by simp

end
