(* ===== verification/Object_Key.thy ===== *)
theory Object_Key
  imports Vocabulary
begin

text \<open>
  The server-derived object keys of \<^verbatim>\<open>crates/archivist-protocol/src/object_key.rs\<close>: assembling and
  re-parsing the blob, occurrence and attestation keys. A key is its text. The parsers are
  shown to accept exactly the assembled keys, shard coupling included, and assembling is
  injective within and across the three kinds.
\<close>

section \<open>Splitting\<close>

text \<open>\<^verbatim>\<open>str::split('/')\<close> and \<^verbatim>\<open>str::ends_with\<close>.\<close>

fun split_slash :: "str \<Rightarrow> str list" where
  "split_slash [] = [[]]"
| "split_slash (c # t) =
     (if c = ch CHR ''/'' then [] # split_slash t
      else case split_slash t of [] \<Rightarrow> [[c]] | s # ss \<Rightarrow> (c # s) # ss)"

definition ends_with :: "str \<Rightarrow> str \<Rightarrow> bool" where
  "ends_with t suffix \<longleftrightarrow> length suffix \<le> length t \<and> drop (length t - length suffix) t = suffix"

definition split_exact :: "str \<Rightarrow> nat \<Rightarrow> str list option" where
  "split_exact t n = (let segments = split_slash t in if length segments = n then Some segments else None)"

definition hex_member :: "str \<Rightarrow> nat \<Rightarrow> str \<Rightarrow> str option" where
  "hex_member member hex_len suffix =
     (if length member \<noteq> hex_len + length suffix \<or> \<not> ends_with member suffix then None
      else Some (take hex_len member))"

section \<open>The three kinds of key\<close>

type_synonym BlobObjectKey = str
type_synonym OccurrenceObjectKey = str
type_synonym AttestationObjectKey = str

definition BlobObjectKey_new :: "TenantId \<Rightarrow> StorageProfile \<Rightarrow> BlobDigest \<Rightarrow> BlobObjectKey" where
  "BlobObjectKey_new tenant profile blob =
     lit ''tenants/'' @ tenant @ lit ''/v1/raw/blobs/'' @ StorageProfile_token profile @
     lit ''/sha256/'' @ take 2 (to_hex blob) @ lit ''/'' @ to_hex blob @ lit ''.zst''"

definition BlobObjectKey_parse :: "str \<Rightarrow> GrammarError + BlobObjectKey" where
  "BlobObjectKey_parse t =
     and_then (ok_or (split_exact t 9) NotCanonical) (\<lambda>s.
     if s ! 0 \<noteq> lit ''tenants'' \<or> s ! 2 \<noteq> lit ''v1'' \<or> s ! 3 \<noteq> lit ''raw'' \<or> s ! 4 \<noteq> lit ''blobs''
       then Inl NotCanonical else
     and_then (TenantId_parse (s ! 1)) (\<lambda>_.
     and_then (StorageProfile_parse (s ! 5)) (\<lambda>_.
     if s ! 6 \<noteq> lit ''sha256'' then Inl NotCanonical else
     and_then (ok_or (hex_member (s ! 8) 64 (lit ''.zst'')) NotCanonical) (\<lambda>h.
     and_then (digest_parse h) (\<lambda>blob.
     if s ! 7 \<noteq> take 2 (to_hex blob) then Inl NotCanonical else Inr t)))))"

definition OccurrenceObjectKey_new ::
  "TenantId \<Rightarrow> ClientId \<Rightarrow> HarnessId \<Rightarrow> SessionHash \<Rightarrow> OccurrenceId \<Rightarrow> OccurrenceObjectKey" where
  "OccurrenceObjectKey_new tenant origin harness session occurrence =
     lit ''tenants/'' @ tenant @ lit ''/v1/raw/occurrences/'' @ origin @ lit ''/'' @ harness @ lit ''/'' @
     take 2 (to_hex session) @ lit ''/'' @ to_hex session @ lit ''/'' @ to_hex occurrence @ lit ''.json''"

definition OccurrenceObjectKey_parse :: "str \<Rightarrow> GrammarError + OccurrenceObjectKey" where
  "OccurrenceObjectKey_parse t =
     and_then (ok_or (split_exact t 10) NotCanonical) (\<lambda>s.
     if s ! 0 \<noteq> lit ''tenants'' \<or> s ! 2 \<noteq> lit ''v1'' \<or> s ! 3 \<noteq> lit ''raw'' \<or> s ! 4 \<noteq> lit ''occurrences''
       then Inl NotCanonical else
     and_then (TenantId_parse (s ! 1)) (\<lambda>_.
     and_then (ClientId_parse (s ! 5)) (\<lambda>_.
     and_then (HarnessId_parse (s ! 6)) (\<lambda>_.
     and_then (digest_parse (s ! 8)) (\<lambda>session.
     and_then (ok_or (hex_member (s ! 9) 64 (lit ''.json'')) NotCanonical) (\<lambda>h.
     and_then (digest_parse h) (\<lambda>_.
     if s ! 7 \<noteq> take 2 (to_hex session) then Inl NotCanonical else Inr t)))))))"

definition AttestationObjectKey_new ::
  "TenantId \<Rightarrow> OccurrenceId \<Rightarrow> AttestationId \<Rightarrow> AttestationObjectKey" where
  "AttestationObjectKey_new tenant occurrence attestation =
     lit ''tenants/'' @ tenant @ lit ''/v1/raw/attestations/'' @ take 2 (to_hex occurrence) @ lit ''/'' @
     to_hex occurrence @ lit ''/'' @ to_hex attestation @ lit ''.json''"

definition AttestationObjectKey_parse :: "str \<Rightarrow> GrammarError + AttestationObjectKey" where
  "AttestationObjectKey_parse t =
     and_then (ok_or (split_exact t 8) NotCanonical) (\<lambda>s.
     if s ! 0 \<noteq> lit ''tenants'' \<or> s ! 2 \<noteq> lit ''v1'' \<or> s ! 3 \<noteq> lit ''raw'' \<or> s ! 4 \<noteq> lit ''attestations''
       then Inl NotCanonical else
     and_then (TenantId_parse (s ! 1)) (\<lambda>_.
     and_then (digest_parse (s ! 6)) (\<lambda>occurrence.
     and_then (ok_or (hex_member (s ! 7) 64 (lit ''.json'')) NotCanonical) (\<lambda>h.
     and_then (digest_parse h) (\<lambda>_.
     if s ! 5 \<noteq> take 2 (to_hex occurrence) then Inl NotCanonical else Inr t)))))"

section \<open>Splitting undoes joining\<close>

fun slash_join :: "str list \<Rightarrow> str" where
  "slash_join [] = []"
| "slash_join [s] = s"
| "slash_join (s # ss) = s @ ch CHR ''/'' # slash_join ss"

lemma split_slash_not_Nil: "split_slash t \<noteq> []"
  by (cases t) (auto split: list.splits)

lemma split_slash_no_slash: "\<forall>s\<in>set (split_slash t). no_slash s"
  by (induction t) (auto split: list.splits)

lemma join_split: "slash_join (split_slash t) = t"
proof (induction t)
  case (Cons c t)
  then show ?case
    using split_slash_not_Nil [of t] by (cases "split_slash t"; cases "tl (split_slash t)") auto
qed simp

lemma split_no_slash: "no_slash s \<Longrightarrow> split_slash s = [s]"
  by (induction s) auto

lemma split_segment: "no_slash s \<Longrightarrow> split_slash (s @ ch CHR ''/'' # t) = s # split_slash t"
  by (induction s) auto

lemma split_join: "list_all no_slash ss \<Longrightarrow> ss \<noteq> [] \<Longrightarrow> split_slash (slash_join ss) = ss"
proof (induction ss rule: slash_join.induct)
  case (2 s)
  then show ?case by (simp add: split_no_slash)
next
  case (3 s v va)
  have "split_slash (slash_join (s # v # va)) = split_slash (s @ ch CHR ''/'' # slash_join (v # va))"
    by (simp only: slash_join.simps)
  also have "\<dots> = s # split_slash (slash_join (v # va))"
    using 3 by (intro split_segment) simp
  finally show ?case using 3 by simp
qed simp

lemma split_exact_Some:
  "n > 0 \<Longrightarrow> split_exact t n = Some ss \<longleftrightarrow> length ss = n \<and> list_all no_slash ss \<and> t = slash_join ss"
  using split_slash_no_slash [of t] join_split [of t] split_join [of ss]
  by (cases ss) (auto simp: split_exact_def Let_def list_all_iff)

lemma slash_join_inject:
  "list_all no_slash ss \<Longrightarrow> list_all no_slash ts \<Longrightarrow> ss \<noteq> [] \<Longrightarrow> ts \<noteq> [] \<Longrightarrow>
   slash_join ss = slash_join ts \<longleftrightarrow> ss = ts"
  using split_join [of ss] split_join [of ts] by metis

lemma hex_member_Some: "hex_member m n suffix = Some h \<longleftrightarrow> length h = n \<and> m = h @ suffix"
proof
  assume "hex_member m n suffix = Some h"
  then have "length m = n + length suffix" "drop n m = suffix" "h = take n m"
    by (auto simp: hex_member_def ends_with_def split: if_splits)
  then show "length h = n \<and> m = h @ suffix" using append_take_drop_id [of n m] by simp
qed (auto simp: hex_member_def ends_with_def)

section \<open>Keys as segments\<close>

definition blob_segments :: "TenantId \<Rightarrow> StorageProfile \<Rightarrow> BlobDigest \<Rightarrow> str list" where
  "blob_segments tenant profile blob =
     [lit ''tenants'', tenant, lit ''v1'', lit ''raw'', lit ''blobs'', StorageProfile_token profile,
      lit ''sha256'', take 2 (to_hex blob), to_hex blob @ lit ''.zst'']"

definition occurrence_segments ::
  "TenantId \<Rightarrow> ClientId \<Rightarrow> HarnessId \<Rightarrow> SessionHash \<Rightarrow> OccurrenceId \<Rightarrow> str list" where
  "occurrence_segments tenant origin harness session occurrence =
     [lit ''tenants'', tenant, lit ''v1'', lit ''raw'', lit ''occurrences'', origin, harness,
      take 2 (to_hex session), to_hex session, to_hex occurrence @ lit ''.json'']"

definition attestation_segments :: "TenantId \<Rightarrow> OccurrenceId \<Rightarrow> AttestationId \<Rightarrow> str list" where
  "attestation_segments tenant occurrence attestation =
     [lit ''tenants'', tenant, lit ''v1'', lit ''raw'', lit ''attestations'', take 2 (to_hex occurrence),
      to_hex occurrence, to_hex attestation @ lit ''.json'']"

lemma key_new_segments:
  "BlobObjectKey_new tenant profile blob = slash_join (blob_segments tenant profile blob)"
  "OccurrenceObjectKey_new tenant origin harness session occurrence =
     slash_join (occurrence_segments tenant origin harness session occurrence)"
  "AttestationObjectKey_new tenant occurrence attestation =
     slash_join (attestation_segments tenant occurrence attestation)"
  by (simp_all add: BlobObjectKey_new_def OccurrenceObjectKey_new_def AttestationObjectKey_new_def
      blob_segments_def occurrence_segments_def attestation_segments_def wire_simps)

lemma no_slash_take [simp]: "no_slash t \<Longrightarrow> no_slash (take n t)"
  by (auto simp: no_slash_def dest: in_set_takeD)

lemma no_slash_lits [simp]:
  "no_slash (lit ''tenants'')" "no_slash (lit ''v1'')" "no_slash (lit ''raw'')" "no_slash (lit ''blobs'')"
  "no_slash (lit ''occurrences'')" "no_slash (lit ''attestations'')" "no_slash (lit ''sha256'')"
  "no_slash (lit ''.zst'')" "no_slash (lit ''.json'')" "no_slash (StorageProfile_token p)"
  by (simp_all add: wire_simps) (cases p, simp add: wire_simps)

lemma segments_no_slash:
  "uuid_grammar tenant 4 \<Longrightarrow> list_all no_slash (blob_segments tenant profile blob)"
  "uuid_grammar tenant 4 \<Longrightarrow> uuid_grammar origin 4 \<Longrightarrow> short_token_grammar harness \<Longrightarrow>
     list_all no_slash (occurrence_segments tenant origin harness session occurrence)"
  "uuid_grammar tenant 4 \<Longrightarrow> list_all no_slash (attestation_segments tenant occurrence attestation)"
  by (auto simp: blob_segments_def occurrence_segments_def attestation_segments_def
      intro: no_slash_uuid no_slash_short_token)

lemma nth_list:
  "length ss = 8 \<Longrightarrow> ss = [ss!0, ss!1, ss!2, ss!3, ss!4, ss!5, ss!6, ss!7]"
  "length ss = 9 \<Longrightarrow> ss = [ss!0, ss!1, ss!2, ss!3, ss!4, ss!5, ss!6, ss!7, ss!8]"
  "length ss = 10 \<Longrightarrow> ss = [ss!0, ss!1, ss!2, ss!3, ss!4, ss!5, ss!6, ss!7, ss!8, ss!9]"
  using map_nth [of ss] by (simp_all add: upt_rec numeral_eq_Suc)

lemma list_8: "length ss = 8 \<Longrightarrow> \<exists>a b c d e f g h. ss = [a, b, c, d, e, f, g, h]"
  by (intro exI) (rule nth_list(1))

lemma list_9: "length ss = 9 \<Longrightarrow> \<exists>a b c d e f g h i. ss = [a, b, c, d, e, f, g, h, i]"
  by (intro exI) (rule nth_list(2))

lemma list_10: "length ss = 10 \<Longrightarrow> \<exists>a b c d e f g h i j. ss = [a, b, c, d, e, f, g, h, i, j]"
  by (intro exI) (rule nth_list(3))

lemma text_parse_iff [result_simps]:
  "TenantId_parse t = Inr x \<longleftrightarrow> uuid_grammar t 4 \<and> x = t"
  "ClientId_parse t = Inr x \<longleftrightarrow> uuid_grammar t 4 \<and> x = t"
  "HarnessId_parse t = Inr x \<longleftrightarrow> short_token_grammar t \<and> x = t"
  by (auto simp: TenantId_parse_def ClientId_parse_def HarnessId_parse_def text_newtype_parse_def)

text \<open>
  A parser that splits into \<open>n\<close> segments and checks them accepts the joined segment lists it
  accepts, provided none of those segments contains the separator.
\<close>

lemma split_parse_iff:
  assumes "n > 0"
    and check: "\<And>ss. length ss = n \<Longrightarrow> f ss = Inr k \<longleftrightarrow> k = t \<and> (\<exists>x. valid x \<and> ss = segments x)"
    and segments: "\<And>x. valid x \<Longrightarrow> length (segments x) = n \<and> list_all no_slash (segments x)"
  shows "and_then (ok_or (split_exact t n) NotCanonical) f = Inr k \<longleftrightarrow>
    k = t \<and> (\<exists>x. valid x \<and> t = slash_join (segments x))"
proof
  assume "and_then (ok_or (split_exact t n) NotCanonical) f = Inr k"
  then obtain ss where ss: "split_exact t n = Some ss" "f ss = Inr k" by (auto simp: result_simps)
  from ss(1) have "length ss = n" "t = slash_join ss" unfolding split_exact_Some [OF assms(1)] by blast+
  with check [of ss] ss(2) show "k = t \<and> (\<exists>x. valid x \<and> t = slash_join (segments x))" by blast
next
  assume "k = t \<and> (\<exists>x. valid x \<and> t = slash_join (segments x))"
  then obtain x where x: "k = t" "valid x" "t = slash_join (segments x)" by blast
  with segments have "split_exact t n = Some (segments x)" unfolding split_exact_Some [OF assms(1)] by blast
  moreover have "f (segments x) = Inr k" using check segments x by blast
  ultimately show "and_then (ok_or (split_exact t n) NotCanonical) f = Inr k" by simp
qed

lemmas key_parse_simps = result_simps hex_member_Some storage_profile.parse_iff digest_text.parse_iff
  to_hex_def

lemma BlobObjectKey_parse_iff:
  "BlobObjectKey_parse t = Inr k \<longleftrightarrow>
     k = t \<and> (\<exists>tenant profile blob. uuid_grammar tenant 4 \<and> length blob = 32 \<and>
       t = BlobObjectKey_new tenant profile blob)"
proof -
  let ?valid = "\<lambda>(tenant :: TenantId, profile :: StorageProfile, blob :: BlobDigest). uuid_grammar tenant 4 \<and> length blob = 32"
  have "BlobObjectKey_parse t = Inr k \<longleftrightarrow>
     k = t \<and> (\<exists>x. ?valid x \<and> t = slash_join ((\<lambda>(tenant, profile, blob). blob_segments tenant profile blob) x))"
    unfolding BlobObjectKey_parse_def
  proof (rule split_parse_iff, goal_cases)
    case (2 ss)
    then show ?case
      by (auto dest!: list_9 simp: key_parse_simps blob_segments_def)
  next
    case (3 x)
    then show ?case using segments_no_slash(1) by (auto simp: blob_segments_def)
  qed simp
  then show ?thesis by (auto simp: key_new_segments)
qed

lemma OccurrenceObjectKey_parse_iff:
  "OccurrenceObjectKey_parse t = Inr k \<longleftrightarrow>
     k = t \<and> (\<exists>tenant origin harness session occurrence. uuid_grammar tenant 4 \<and> uuid_grammar origin 4 \<and> short_token_grammar harness \<and>
       length session = 32 \<and> length occurrence = 32 \<and>
       t = OccurrenceObjectKey_new tenant origin harness session occurrence)"
proof -
  let ?valid = "\<lambda>(tenant :: TenantId, origin :: ClientId, harness :: HarnessId, session :: SessionHash, occurrence :: OccurrenceId). uuid_grammar tenant 4 \<and> uuid_grammar origin 4 \<and> short_token_grammar harness \<and>
       length session = 32 \<and> length occurrence = 32"
  have "OccurrenceObjectKey_parse t = Inr k \<longleftrightarrow>
     k = t \<and> (\<exists>x. ?valid x \<and> t = slash_join ((\<lambda>(tenant, origin, harness, session, occurrence). occurrence_segments tenant origin harness session occurrence) x))"
    unfolding OccurrenceObjectKey_parse_def
  proof (rule split_parse_iff, goal_cases)
    case (2 ss)
    then show ?case
      by (auto dest!: list_10 simp: key_parse_simps occurrence_segments_def)
  next
    case (3 x)
    then show ?case using segments_no_slash(2) by (auto simp: occurrence_segments_def)
  qed simp
  then show ?thesis by (auto simp: key_new_segments)
qed

lemma AttestationObjectKey_parse_iff:
  "AttestationObjectKey_parse t = Inr k \<longleftrightarrow>
     k = t \<and> (\<exists>tenant occurrence attestation. uuid_grammar tenant 4 \<and> length occurrence = 32 \<and> length attestation = 32 \<and>
       t = AttestationObjectKey_new tenant occurrence attestation)"
proof -
  let ?valid = "\<lambda>(tenant :: TenantId, occurrence :: OccurrenceId, attestation :: AttestationId). uuid_grammar tenant 4 \<and> length occurrence = 32 \<and> length attestation = 32"
  have "AttestationObjectKey_parse t = Inr k \<longleftrightarrow>
     k = t \<and> (\<exists>x. ?valid x \<and> t = slash_join ((\<lambda>(tenant, occurrence, attestation). attestation_segments tenant occurrence attestation) x))"
    unfolding AttestationObjectKey_parse_def
  proof (rule split_parse_iff, goal_cases)
    case (2 ss)
    then show ?case
      by (auto dest!: list_8 simp: key_parse_simps attestation_segments_def)
  next
    case (3 x)
    then show ?case using segments_no_slash(3) by (auto simp: attestation_segments_def)
  qed simp
  then show ?thesis by (auto simp: key_new_segments)
qed

section \<open>Properties\<close>

text \<open>
  C4. Re-parsing a key is exact: each parser accepts precisely the texts its constructor
  assembles from a v4 tenant, the closed profile, a v4 origin, a harness token and 32-byte
  digests. In particular a key whose shard segment is not the first two hex characters of
  the digest it shards is refused.
\<close>

theorem object_keys_exact:
  "(BlobObjectKey_parse t = Inr k \<longleftrightarrow>
     k = t \<and> (\<exists>tenant profile blob. uuid_grammar tenant 4 \<and> length blob = 32 \<and>
       t = BlobObjectKey_new tenant profile blob)) \<and>
   (OccurrenceObjectKey_parse t = Inr k \<longleftrightarrow>
     k = t \<and> (\<exists>tenant origin harness session occurrence.
       uuid_grammar tenant 4 \<and> uuid_grammar origin 4 \<and> short_token_grammar harness \<and>
       length session = 32 \<and> length occurrence = 32 \<and>
       t = OccurrenceObjectKey_new tenant origin harness session occurrence)) \<and>
   (AttestationObjectKey_parse t = Inr k \<longleftrightarrow>
     k = t \<and> (\<exists>tenant occurrence attestation.
       uuid_grammar tenant 4 \<and> length occurrence = 32 \<and> length attestation = 32 \<and>
       t = AttestationObjectKey_new tenant occurrence attestation))"
  by (simp add: BlobObjectKey_parse_iff OccurrenceObjectKey_parse_iff AttestationObjectKey_parse_iff)

text \<open>
  C5. Distinct objects have distinct keys: within each kind the key determines the tenant and
  every digest and identifier it was assembled from, and keys of different kinds never
  coincide, so no write of one object can land on another.
\<close>

theorem object_keys_injective:
  assumes "uuid_grammar t 4" "uuid_grammar t' 4" "uuid_grammar c 4" "uuid_grammar c' 4"
    and "short_token_grammar h" "short_token_grammar h'"
  shows "(BlobObjectKey_new t p b = BlobObjectKey_new t' p' b' \<longleftrightarrow> t = t' \<and> p = p' \<and> b = b') \<and>
    (OccurrenceObjectKey_new t c h s oc = OccurrenceObjectKey_new t' c' h' s' oc' \<longleftrightarrow>
       t = t' \<and> c = c' \<and> h = h' \<and> s = s' \<and> oc = oc') \<and>
    (AttestationObjectKey_new t oc a = AttestationObjectKey_new t' oc' a' \<longleftrightarrow> t = t' \<and> oc = oc' \<and> a = a') \<and>
    BlobObjectKey_new t p b \<noteq> OccurrenceObjectKey_new t' c' h' s' oc' \<and>
    BlobObjectKey_new t p b \<noteq> AttestationObjectKey_new t' oc' a' \<and>
    OccurrenceObjectKey_new t c h s oc \<noteq> AttestationObjectKey_new t' oc' a'"
proof -
  note ok = segments_no_slash(1) [OF assms(1)] segments_no_slash(1) [OF assms(2)]
    segments_no_slash(2) [OF assms(1,3,5)] segments_no_slash(2) [OF assms(2,4,6)]
    segments_no_slash(3) [OF assms(1)] segments_no_slash(3) [OF assms(2)]
  have ne: "blob_segments t p b \<noteq> []" "occurrence_segments t c h s oc \<noteq> []" "attestation_segments t oc a \<noteq> []"
    for t p b c h s oc a
    by (simp_all add: blob_segments_def occurrence_segments_def attestation_segments_def)
  have hex: "to_hex x = to_hex y \<longleftrightarrow> x = y" for x y by (simp add: to_hex_def)
  show ?thesis
    unfolding key_new_segments
    using ok ne hex by (simp add: slash_join_inject)
      (auto simp: blob_segments_def occurrence_segments_def attestation_segments_def hex
        storage_profile.render_inject)
qed

theorem object_keys_injective_witness:
  "AttestationObjectKey_new (lit ''0f1e2d3c-4b5a-4978-8a9b-0c1d2e3f4a5b'') (replicate 32 1) (replicate 32 2) \<noteq>
   AttestationObjectKey_new (lit ''aaaaaaaa-bbbb-4ccc-8ddd-1e2f3f4f5f6f'') (replicate 32 1) (replicate 32 2)"
proof -
  have u: "uuid_grammar (lit ''0f1e2d3c-4b5a-4978-8a9b-0c1d2e3f4a5b'') 4"
    "uuid_grammar (lit ''aaaaaaaa-bbbb-4ccc-8ddd-1e2f3f4f5f6f'') 4"
    and h: "short_token_grammar (lit ''claude-code'')"
    by code_simp+
  from object_keys_injective [OF u u h h] show ?thesis by simp
qed

end
