(* ===== verification/Status.thy ===== *)
theory Status
  imports Vocabulary "HOL-Library.Multiset"
begin

text \<open>
  The bounded source status of \<^verbatim>\<open>crates/archivist-adapter-sdk/src/status.rs\<close>: the identifier grammars,
  the three closed vocabularies, the observation of one scan and the per-state and
  per-classification counters. Counters count sources held in memory and are \<open>nat\<close>.
  The JSON renderings of the status are not modelled.
\<close>

section \<open>Identifiers\<close>

definition source_id_grammar :: "str \<Rightarrow> bool" where
  "source_id_grammar raw \<longleftrightarrow>
     (if length raw \<noteq> 36 then False
      else list_all is_lower_hex (subslice 0 8 raw) \<and> raw ! 8 = ch CHR ''-'' \<and>
           list_all is_lower_hex (subslice 9 13 raw) \<and> raw ! 13 = ch CHR ''-'' \<and>
           list_all is_lower_hex (subslice 14 18 raw) \<and> raw ! 18 = ch CHR ''-'' \<and>
           list_all is_lower_hex (subslice 19 23 raw) \<and> raw ! 23 = ch CHR ''-'' \<and>
           list_all is_lower_hex (subslice 24 36 raw))"

definition account_label_grammar :: "str \<Rightarrow> bool" where
  "account_label_grammar raw \<longleftrightarrow>
     (if raw = [] \<or> length raw > 64 then False
      else if \<not> is_ascii_alphanumeric (raw ! 0) then False
      else list_all (\<lambda>c. is_ascii_alphanumeric c \<or>
             c \<in> {ch CHR ''.'', ch CHR ''_'', ch CHR '':'', ch CHR ''-''}) (drop 1 raw))"

type_synonym SourceId = str
type_synonym AccountLabel = str

definition SourceId_parse :: "str \<Rightarrow> GrammarError + SourceId" where
  "SourceId_parse = text_newtype_parse source_id_grammar"

definition AccountLabel_parse :: "str \<Rightarrow> GrammarError + AccountLabel" where
  "AccountLabel_parse = text_newtype_parse account_label_grammar"

section \<open>Closed vocabularies\<close>

datatype FreshnessLane = Freshness | Backfill

fun FreshnessLane_token :: "FreshnessLane \<Rightarrow> str" where
  "FreshnessLane_token Freshness = lit ''freshness''"
| "FreshnessLane_token Backfill = lit ''backfill''"

definition FreshnessLane_parse :: "str \<Rightarrow> GrammarError + FreshnessLane" where
  "FreshnessLane_parse t =
     (if t = lit ''freshness'' then Inr Freshness
      else if t = lit ''backfill'' then Inr Backfill
      else Inl NotCanonical)"

datatype CoverageState = Absent | Unsupported | Failed | Partial | Current | FullyBackfilled

fun CoverageState_token :: "CoverageState \<Rightarrow> str" where
  "CoverageState_token Absent = lit ''missing''"
| "CoverageState_token Unsupported = lit ''unsupported''"
| "CoverageState_token Failed = lit ''failed''"
| "CoverageState_token Partial = lit ''partial''"
| "CoverageState_token Current = lit ''current''"
| "CoverageState_token FullyBackfilled = lit ''backfilled''"

definition CoverageState_parse :: "str \<Rightarrow> GrammarError + CoverageState" where
  "CoverageState_parse t =
     (if t = lit ''missing'' then Inr Absent
      else if t = lit ''unsupported'' then Inr Unsupported
      else if t = lit ''failed'' then Inr Failed
      else if t = lit ''partial'' then Inr Partial
      else if t = lit ''current'' then Inr Current
      else if t = lit ''backfilled'' then Inr FullyBackfilled
      else Inl NotCanonical)"

fun rank :: "CoverageState \<Rightarrow> nat" where
  "rank Absent = 0"
| "rank FullyBackfilled = 1"
| "rank Current = 2"
| "rank Partial = 3"
| "rank Unsupported = 4"
| "rank Failed = 5"

definition combine :: "CoverageState \<Rightarrow> CoverageState \<Rightarrow> CoverageState" where
  "combine self other = (if rank other > rank self then other else self)"

datatype ScanClassification =
  Ok | RootAbsent | NoDatabase | TransportUnreachable | ReadError | PermissionDenied
  | FingerprintUnsupported | NotObserved

fun ScanClassification_token :: "ScanClassification \<Rightarrow> str" where
  "ScanClassification_token Ok = lit ''ok''"
| "ScanClassification_token RootAbsent = lit ''root-absent''"
| "ScanClassification_token NoDatabase = lit ''no-database''"
| "ScanClassification_token TransportUnreachable = lit ''transport-unreachable''"
| "ScanClassification_token ReadError = lit ''read-error''"
| "ScanClassification_token PermissionDenied = lit ''permission-denied''"
| "ScanClassification_token FingerprintUnsupported = lit ''fingerprint-unsupported''"
| "ScanClassification_token NotObserved = lit ''not-observed''"

definition ScanClassification_parse :: "str \<Rightarrow> GrammarError + ScanClassification" where
  "ScanClassification_parse t =
     (if t = lit ''ok'' then Inr Ok
      else if t = lit ''root-absent'' then Inr RootAbsent
      else if t = lit ''no-database'' then Inr NoDatabase
      else if t = lit ''transport-unreachable'' then Inr TransportUnreachable
      else if t = lit ''read-error'' then Inr ReadError
      else if t = lit ''permission-denied'' then Inr PermissionDenied
      else if t = lit ''fingerprint-unsupported'' then Inr FingerprintUnsupported
      else if t = lit ''not-observed'' then Inr NotObserved
      else Inl NotCanonical)"

fun forced_coverage :: "ScanClassification \<Rightarrow> CoverageState option" where
  "forced_coverage RootAbsent = Some Absent"
| "forced_coverage NoDatabase = Some Absent"
| "forced_coverage FingerprintUnsupported = Some Unsupported"
| "forced_coverage TransportUnreachable = Some Failed"
| "forced_coverage ReadError = Some Failed"
| "forced_coverage PermissionDenied = Some Failed"
| "forced_coverage Ok = None"
| "forced_coverage NotObserved = None"

section \<open>Scans, counters and statuses\<close>

record SourceScan =
  scan_source :: SourceId
  scan_adapter :: AdapterId
  scan_account :: AccountLabel
  scan_complete_bytes :: nat
  scan_complete_events :: nat
  scan_incomplete_tail_bytes :: nat
  scan_last_activity :: "Timestamp option"
  scan_active_in_window :: bool
  scan_classification :: ScanClassification

record CoverageCounts =
  cc_absent :: nat
  cc_unsupported :: nat
  cc_failed :: nat
  cc_partial :: nat
  cc_current :: nat
  cc_fully_backfilled :: nat

definition CoverageCounts_default :: CoverageCounts where
  "CoverageCounts_default =
     \<lparr>cc_absent = 0, cc_unsupported = 0, cc_failed = 0, cc_partial = 0, cc_current = 0,
      cc_fully_backfilled = 0\<rparr>"

fun CoverageCounts_record :: "CoverageCounts \<Rightarrow> CoverageState \<Rightarrow> CoverageCounts" where
  "CoverageCounts_record self Absent = self\<lparr>cc_absent := cc_absent self + 1\<rparr>"
| "CoverageCounts_record self Unsupported = self\<lparr>cc_unsupported := cc_unsupported self + 1\<rparr>"
| "CoverageCounts_record self Failed = self\<lparr>cc_failed := cc_failed self + 1\<rparr>"
| "CoverageCounts_record self Partial = self\<lparr>cc_partial := cc_partial self + 1\<rparr>"
| "CoverageCounts_record self Current = self\<lparr>cc_current := cc_current self + 1\<rparr>"
| "CoverageCounts_record self FullyBackfilled = self\<lparr>cc_fully_backfilled := cc_fully_backfilled self + 1\<rparr>"

fun CoverageCounts_get :: "CoverageCounts \<Rightarrow> CoverageState \<Rightarrow> nat" where
  "CoverageCounts_get self Absent = cc_absent self"
| "CoverageCounts_get self Unsupported = cc_unsupported self"
| "CoverageCounts_get self Failed = cc_failed self"
| "CoverageCounts_get self Partial = cc_partial self"
| "CoverageCounts_get self Current = cc_current self"
| "CoverageCounts_get self FullyBackfilled = cc_fully_backfilled self"

definition CoverageCounts_total :: "CoverageCounts \<Rightarrow> nat" where
  "CoverageCounts_total self =
     cc_absent self + cc_unsupported self + cc_failed self + cc_partial self + cc_current self +
     cc_fully_backfilled self"

record ClassificationCounts =
  cl_ok :: nat
  cl_root_absent :: nat
  cl_no_database :: nat
  cl_transport_unreachable :: nat
  cl_read_error :: nat
  cl_permission_denied :: nat
  cl_fingerprint_unsupported :: nat
  cl_not_observed :: nat

definition ClassificationCounts_default :: ClassificationCounts where
  "ClassificationCounts_default =
     \<lparr>cl_ok = 0, cl_root_absent = 0, cl_no_database = 0, cl_transport_unreachable = 0, cl_read_error = 0,
      cl_permission_denied = 0, cl_fingerprint_unsupported = 0, cl_not_observed = 0\<rparr>"

fun ClassificationCounts_record :: "ClassificationCounts \<Rightarrow> ScanClassification \<Rightarrow> ClassificationCounts" where
  "ClassificationCounts_record self Ok = self\<lparr>cl_ok := cl_ok self + 1\<rparr>"
| "ClassificationCounts_record self RootAbsent = self\<lparr>cl_root_absent := cl_root_absent self + 1\<rparr>"
| "ClassificationCounts_record self NoDatabase = self\<lparr>cl_no_database := cl_no_database self + 1\<rparr>"
| "ClassificationCounts_record self TransportUnreachable =
     self\<lparr>cl_transport_unreachable := cl_transport_unreachable self + 1\<rparr>"
| "ClassificationCounts_record self ReadError = self\<lparr>cl_read_error := cl_read_error self + 1\<rparr>"
| "ClassificationCounts_record self PermissionDenied =
     self\<lparr>cl_permission_denied := cl_permission_denied self + 1\<rparr>"
| "ClassificationCounts_record self FingerprintUnsupported =
     self\<lparr>cl_fingerprint_unsupported := cl_fingerprint_unsupported self + 1\<rparr>"
| "ClassificationCounts_record self NotObserved = self\<lparr>cl_not_observed := cl_not_observed self + 1\<rparr>"

fun ClassificationCounts_get :: "ClassificationCounts \<Rightarrow> ScanClassification \<Rightarrow> nat" where
  "ClassificationCounts_get self Ok = cl_ok self"
| "ClassificationCounts_get self RootAbsent = cl_root_absent self"
| "ClassificationCounts_get self NoDatabase = cl_no_database self"
| "ClassificationCounts_get self TransportUnreachable = cl_transport_unreachable self"
| "ClassificationCounts_get self ReadError = cl_read_error self"
| "ClassificationCounts_get self PermissionDenied = cl_permission_denied self"
| "ClassificationCounts_get self FingerprintUnsupported = cl_fingerprint_unsupported self"
| "ClassificationCounts_get self NotObserved = cl_not_observed self"

definition ClassificationCounts_total :: "ClassificationCounts \<Rightarrow> nat" where
  "ClassificationCounts_total self =
     cl_ok self + cl_root_absent self + cl_no_database self + cl_transport_unreachable self +
     cl_read_error self + cl_permission_denied self + cl_fingerprint_unsupported self +
     cl_not_observed self"

record AdapterAccountStatus =
  st_adapter :: AdapterId
  st_account :: AccountLabel
  st_coverage :: CoverageState
  st_active_backlog_bytes :: nat
  st_active_backlog_events :: nat
  st_historical_backlog_bytes :: nat
  st_historical_backlog_events :: nat
  st_max_freshness_lag_seconds :: nat
  st_sources :: CoverageCounts
  st_classifications :: ClassificationCounts

definition scope :: "AdapterAccountStatus \<Rightarrow> str \<times> str" where
  "scope self = (st_adapter self, st_account self)"

section \<open>Wire types\<close>

interpretation source_id: wire_type SourceId_parse "\<lambda>t. t" source_id_grammar
  unfolding SourceId_parse_def by (rule text_newtype_wire)

interpretation account_label: wire_type AccountLabel_parse "\<lambda>t. t" account_label_grammar
  unfolding AccountLabel_parse_def by (rule text_newtype_wire)

interpretation freshness_lane: wire_type FreshnessLane_parse FreshnessLane_token "\<lambda>_. True"
proof unfold_locales
  show "FreshnessLane_parse (FreshnessLane_token x) = Inr x" for x
    by (cases x) (simp_all add: FreshnessLane_parse_def)
  show "True \<and> FreshnessLane_token x = t" if "FreshnessLane_parse t = Inr x" for t x
    using that by (auto simp: FreshnessLane_parse_def split: if_splits)
qed

interpretation coverage_state: wire_type CoverageState_parse CoverageState_token "\<lambda>_. True"
proof unfold_locales
  show "CoverageState_parse (CoverageState_token x) = Inr x" for x
    by (cases x) (simp_all add: CoverageState_parse_def)
  show "True \<and> CoverageState_token x = t" if "CoverageState_parse t = Inr x" for t x
    using that by (auto simp: CoverageState_parse_def split: if_splits)
qed

interpretation scan_classification: wire_type ScanClassification_parse ScanClassification_token "\<lambda>_. True"
proof unfold_locales
  show "ScanClassification_parse (ScanClassification_token x) = Inr x" for x
    by (cases x) (simp_all add: ScanClassification_parse_def)
  show "True \<and> ScanClassification_token x = t" if "ScanClassification_parse t = Inr x" for t x
    using that by (auto simp: ScanClassification_parse_def split: if_splits)
qed

section \<open>Aggregation\<close>

text \<open>The attention order makes \<open>combine\<close> the maximum, so aggregation does not depend on order.\<close>

lemma rank_inject [simp]: "rank a = rank b \<longleftrightarrow> a = b"
  by (cases a; cases b; simp)

instantiation CoverageState :: linorder
begin

definition less_eq_CoverageState :: "CoverageState \<Rightarrow> CoverageState \<Rightarrow> bool" where
  "a \<le> b \<longleftrightarrow> rank a \<le> rank b"

definition less_CoverageState :: "CoverageState \<Rightarrow> CoverageState \<Rightarrow> bool" where
  "a < b \<longleftrightarrow> rank a < rank b"

instance
  by standard (auto simp: less_eq_CoverageState_def less_CoverageState_def)

end

lemma combine_max: "combine a b = max a b"
  by (auto simp: combine_def max_def less_eq_CoverageState_def)

lemma fold_combine: "fold (\<lambda>s acc. combine acc s) ss a = Max (insert a (set ss))"
proof (induction ss arbitrary: a)
  case (Cons s ss)
  have "insert a (set (s # ss)) = insert a (insert s (set ss))" by simp
  moreover have "Max (insert (max a s) (set ss)) = Max (insert a (insert s (set ss)))"
    by (cases "set ss = {}") (simp_all add: max.assoc)
  ultimately show ?case using Cons [of "max a s"] by (simp add: combine_max del: set_simps)
qed simp

lemma CoverageCounts_get_record:
  "CoverageCounts_get (CoverageCounts_record c s) s' = CoverageCounts_get c s' + of_bool (s = s')"
  by (cases s; cases s') simp_all

lemma CoverageCounts_get_fold:
  "CoverageCounts_get (fold (\<lambda>s c. CoverageCounts_record c s) ss c) s' =
     CoverageCounts_get c s' + count (mset ss) s'"
  by (induction ss arbitrary: c) (auto simp: CoverageCounts_get_record)

lemma CoverageCounts_total_fold:
  "CoverageCounts_total (fold (\<lambda>s c. CoverageCounts_record c s) ss c) = CoverageCounts_total c + length ss"
proof (induction ss arbitrary: c)
  case (Cons s ss)
  have "CoverageCounts_total (CoverageCounts_record c s) = CoverageCounts_total c + 1"
    by (cases s) (simp_all add: CoverageCounts_total_def)
  then show ?case using Cons by simp
qed simp

lemma CoverageCounts_total_default [simp]: "CoverageCounts_total CoverageCounts_default = 0"
  by (simp add: CoverageCounts_total_def CoverageCounts_default_def)

lemma ClassificationCounts_get_record:
  "ClassificationCounts_get (ClassificationCounts_record c s) s' =
     ClassificationCounts_get c s' + of_bool (s = s')"
  by (cases s; cases s') simp_all

end
