(* ===== verification/Checked_Arith.thy ===== *)
theory Checked_Arith
  imports Prelude
begin

text \<open>
  Arithmetic on \<^verbatim>\<open>u64\<close> values held as \<open>nat\<close>. An operation that leaves the range is \<open>None\<close>: a panic
  where overflow checks are on. The saturating and ceiling operations of the standard library
  are total.
\<close>

definition u64_add :: "nat \<Rightarrow> nat \<Rightarrow> nat option" where
  "u64_add a b = (if a + b \<le> U64_MAX then Some (a + b) else None)"

definition u64_sub :: "nat \<Rightarrow> nat \<Rightarrow> nat option" where
  "u64_sub a b = (if b \<le> a then Some (a - b) else None)"

definition saturating_sub :: "nat \<Rightarrow> nat \<Rightarrow> nat" where
  "saturating_sub a b = a - b"

definition saturating_mul :: "nat \<Rightarrow> nat \<Rightarrow> nat" where
  "saturating_mul a b = min (a * b) U64_MAX"

definition saturating_add :: "nat \<Rightarrow> nat \<Rightarrow> nat" where
  "saturating_add a b = min (a + b) U64_MAX"

definition div_ceil :: "nat \<Rightarrow> nat \<Rightarrow> nat" where
  "div_ceil a b = (if a mod b > 0 then a div b + 1 else a div b)"

text \<open>\<^verbatim>\<open>iter().sum::<u64>()\<close>.\<close>

fun u64_sum_from :: "nat \<Rightarrow> nat list \<Rightarrow> nat option" where
  "u64_sum_from acc [] = Some acc"
| "u64_sum_from acc (x # xs) = Option.bind (u64_add acc x) (\<lambda>a. u64_sum_from a xs)"

definition u64_sum :: "nat list \<Rightarrow> nat option" where
  "u64_sum xs = u64_sum_from 0 xs"

lemma u64_add_Some [simp]: "a + b \<le> U64_MAX \<Longrightarrow> u64_add a b = Some (a + b)"
  by (simp add: u64_add_def)

lemma u64_sub_Some [simp]: "b \<le> a \<Longrightarrow> u64_sub a b = Some (a - b)"
  by (simp add: u64_sub_def)

lemma u64_sum_from_Some: "acc + sum_list xs \<le> U64_MAX \<Longrightarrow> u64_sum_from acc xs = Some (acc + sum_list xs)"
  by (induction xs arbitrary: acc) (auto simp: add.assoc)

lemma u64_sum_Some [simp]: "sum_list xs \<le> U64_MAX \<Longrightarrow> u64_sum xs = Some (sum_list xs)"
  by (simp add: u64_sum_def u64_sum_from_Some)

lemma div_ceil_mult:
  assumes "b > 0"
  shows "a \<le> div_ceil a b * b"
proof -
  have "b * (a div b) + a mod b = a" by simp
  moreover have "a mod b < b" using assms by simp
  ultimately have "a \<le> b + b * (a div b)" by linarith
  moreover have "a mod b = 0 \<Longrightarrow> a = b * (a div b)" by (metis add.right_neutral mult_div_mod_eq)
  ultimately show ?thesis by (auto simp: div_ceil_def algebra_simps)
qed

lemma div_ceil_less: "b > 0 \<Longrightarrow> n < div_ceil a b \<Longrightarrow> n * b < a"
proof -
  assume "b > 0" "n < div_ceil a b"
  then consider "a mod b > 0" "n \<le> a div b" | "a mod b = 0" "n < a div b"
    by (fastforce simp: div_ceil_def split: if_splits)
  then show "n * b < a"
  proof cases
    case 1
    have "n * b \<le> a div b * b" using 1 by simp
    also have "\<dots> < a" using 1 mod_div_mult_eq [of a b] by linarith
    finally show ?thesis .
  next
    case 2
    have "n * b < a div b * b" using 2 \<open>b > 0\<close> by simp
    then show ?thesis using div_times_less_eq_dividend [of a b] by linarith
  qed
qed

lemma less_div_ceil: "b > 0 \<Longrightarrow> n * b < a \<Longrightarrow> n < div_ceil a b"
  using div_ceil_mult [of b a] by (meson linorder_not_less mult_le_mono1 order.trans)

lemma div_ceil_pos: "b > 0 \<Longrightarrow> a > 0 \<Longrightarrow> div_ceil a b > 0"
  using div_ceil_mult [of b a] by (cases "div_ceil a b") auto

end
