(* ===== verification/Inventory.thy ===== *)
theory Inventory
  imports Status Checked_Arith "HOL-Library.AList" "HOL-Library.Signed_Division"
begin

text \<open>
  The source backlog inventory of \<^verbatim>\<open>crates/archivist-client-core/src/inventory.rs\<close>: measuring one
  scan against the acknowledged state, the cursor decision, the aggregation into per-scope
  statuses and fleet totals, and the conversion of timestamps to Unix seconds.

  The SQLite connection is not under the sources: what each of the four \<^verbatim>\<open>SELECT\<close> statements
  returns is a parameter (\<open>None\<close> for a failed statement, a \<open>None\<close> element for a failed row).
  A \<^verbatim>\<open>HashMap\<close> is an association list with \<open>AList.update\<close> as \<^verbatim>\<open>insert\<close>. Byte and event counts are
  \<open>nat\<close>, and the four sums of the report are the \<^verbatim>\<open>u64\<close> additions of the code: one that leaves the range
  panics in a build with overflow checks (\<open>None\<close>) and wraps in one without, so the build profile is
  the argument \<open>checks\<close>. The counters of sources step by one per scan of a \<^verbatim>\<open>Vec\<close> and stay far below the range.
\<close>

section \<open>Cursors\<close>

record InventoryOptions =
  degraded :: bool

record CursorPosition =
  retained_bytes :: nat
  retained_events :: nat
  uncaptured_bytes :: nat
  uncaptured_events :: nat

definition has_uncaptured :: "CursorPosition \<Rightarrow> bool" where
  "has_uncaptured self \<longleftrightarrow> uncaptured_bytes self > 0 \<or> uncaptured_events self > 0"

datatype CursorDecision = Hold | Advance (advance_bytes: nat) (advance_events: nat)

definition cursor_retention :: "nat \<Rightarrow> nat \<Rightarrow> nat \<Rightarrow> nat \<Rightarrow> bool \<Rightarrow> CursorDecision" where
  "cursor_retention r_bytes r_events complete_bytes complete_events is_degraded =
     (if is_degraded \<or> (complete_bytes \<le> r_bytes \<and> complete_events \<le> r_events) then Hold
      else Advance (max complete_bytes r_bytes) (max complete_events r_events))"

datatype CoverageAnomaly = AcknowledgedBeyondComplete

record SourceInventory =
  source :: SourceId
  adapter :: AdapterId
  account :: AccountLabel
  lane :: FreshnessLane
  coverage :: CoverageState
  classification :: ScanClassification
  complete_bytes :: nat
  complete_events :: nat
  acknowledged_bytes :: nat
  acknowledged_events :: nat
  outstanding_bytes :: nat
  outstanding_events :: nat
  incomplete_tail_bytes :: nat
  freshness_lag_seconds :: nat
  cursor :: CursorPosition
  decision :: CursorDecision
  anomaly :: "CoverageAnomaly option"
  enrolled :: bool

section \<open>Timestamps as Unix seconds\<close>

text \<open>\<^verbatim>\<open>i64\<close> arithmetic of four-digit years, exact in \<open>int\<close>; \<open>sdiv\<close> is the truncating division.\<close>

definition days_from_civil :: "int \<Rightarrow> int \<Rightarrow> int \<Rightarrow> int" where
  "days_from_civil year month day =
     (let shifted_year = (if month \<le> 2 then year - 1 else year);
          era = (if shifted_year \<ge> 0 then shifted_year else shifted_year - 399) sdiv 400;
          year_of_era = shifted_year - era * 400;
          shifted_month = (if month > 2 then month - 3 else month + 9);
          day_of_year = (153 * shifted_month + 2) sdiv 5 + day - 1;
          day_of_era = year_of_era * 365 + year_of_era sdiv 4 - year_of_era sdiv 100 + day_of_year
      in era * 146097 + day_of_era - 719468)"

definition epoch_seconds :: "Timestamp \<Rightarrow> nat option" where
  "epoch_seconds raw =
     (if \<not> calendar_valid raw then None
      else let year = int (number (subslice 0 4 raw)); month = int (number (subslice 5 7 raw));
               day = int (number (subslice 8 10 raw)); hour = int (number (subslice 11 13 raw));
               minute = int (number (subslice 14 16 raw)); raw_second = int (number (subslice 17 19 raw));
               (second, leap_extra) = (if raw_second = 60 then (59, 1) else (raw_second, 0));
               days = days_from_civil year month day;
               seconds = days * 86400 + hour * 3600 + minute * 60 + second + leap_extra
           in if seconds \<ge> 0 then Some (nat seconds) else None)"

definition basis_epoch :: "str \<Rightarrow> nat option" where
  "basis_epoch t = (case Timestamp_parse t of Inl _ \<Rightarrow> None | Inr parsed \<Rightarrow> epoch_seconds parsed)"

section \<open>The acknowledged state\<close>

datatype StateError = query_failed | corrupted str

type_synonym 'r query = "'r option list option"

record SourceRow =
  row_lane :: FreshnessLane
  created_at :: str

text \<open>Iterating a query's rows: \<^verbatim>\<open>for row in rows { let row = row.map_err(..)?; .. }\<close>.\<close>

fun for_rows :: "('r \<Rightarrow> 'a \<Rightarrow> StateError + 'a) \<Rightarrow> 'r option list \<Rightarrow> 'a \<Rightarrow> StateError + 'a" where
  "for_rows f [] acc = Inr acc"
| "for_rows f (r # rs) acc =
     and_then (ok_or r query_failed) (\<lambda>row. and_then (f row acc) (\<lambda>acc'. for_rows f rs acc'))"

definition load_sources :: "(str \<times> str \<times> str) query \<Rightarrow> StateError + (str \<times> SourceRow) list" where
  "load_sources q =
     and_then (ok_or q query_failed) (\<lambda>rows.
       for_rows (\<lambda>(source_id, l, created) sources.
           case FreshnessLane_parse l of
             Inl _ \<Rightarrow> Inl (corrupted (lit ''sources.freshness_lane''))
           | Inr l' \<Rightarrow> Inr (AList.update source_id \<lparr>row_lane = l', created_at = created\<rparr> sources))
         rows [])"

definition current_generation_step ::
  "str \<times> str \<times> str \<times> int \<Rightarrow> (str \<times> str \<times> bool \<times> int) list \<Rightarrow> StateError + (str \<times> str \<times> bool \<times> int) list" where
  "current_generation_step row current =
     (case row of (source_id, generation_id, state, ordinal) \<Rightarrow>
        and_then (if state = lit ''open'' then Inr True
                  else if state = lit ''closed'' then Inr False
                  else Inl (corrupted (lit ''generations.state''))) (\<lambda>is_open.
          case map_of current source_id of
            Some (_, was_open, _) \<Rightarrow>
              if was_open \<and> \<not> is_open then Inr current
              else Inr (AList.update source_id (generation_id, is_open, ordinal) current)
          | None \<Rightarrow> Inr (AList.update source_id (generation_id, is_open, ordinal) current)))"

definition current_generation_by_source ::
  "(str \<times> str \<times> str \<times> int) query \<Rightarrow> StateError + (str \<times> str) list" where
  "current_generation_by_source q =
     and_then (ok_or q query_failed) (\<lambda>rows.
     and_then (for_rows current_generation_step rows []) (\<lambda>current.
       Inr (map (\<lambda>(s, (generation, _, _)). (s, generation)) current)))"

definition acknowledged_by_generation ::
  "(str \<times> str \<times> int) query \<Rightarrow> StateError + (str \<times> (nat \<times> nat)) list" where
  "acknowledged_by_generation q =
     and_then (ok_or q query_failed) (\<lambda>rows.
       for_rows (\<lambda>(generation_id, kind, e) acknowledged.
           let n = nat (max e 0);
               (b, v) = (case map_of acknowledged generation_id of None \<Rightarrow> (0, 0) | Some entry \<Rightarrow> entry)
           in if kind = lit ''bytes'' then Inr (AList.update generation_id (max b n, v) acknowledged)
              else if kind = lit ''events'' then Inr (AList.update generation_id (b, max v n) acknowledged)
              else Inl (corrupted (lit ''ranges.range_kind'')))
         rows [])"

definition last_captured_by_source :: "(str \<times> str) query \<Rightarrow> StateError + (str \<times> str) list" where
  "last_captured_by_source q =
     and_then (ok_or q query_failed) (\<lambda>rows.
       for_rows (\<lambda>(source_id, captured_at) latest.
           let newer = (case (Option.bind (map_of latest source_id) basis_epoch, basis_epoch captured_at) of
                          (Some current_at, Some candidate_at) \<Rightarrow> candidate_at > current_at
                        | (None, Some _) \<Rightarrow> True
                        | _ \<Rightarrow> False)
           in Inr (if newer then AList.update source_id captured_at latest else latest))
         rows [])"

record PassContext =
  ctx_sources :: "(str \<times> SourceRow) list"
  ctx_current_generation :: "(str \<times> str) list"
  ctx_acknowledged :: "(str \<times> (nat \<times> nat)) list"
  ctx_last_captured :: "(str \<times> str) list"

text \<open>The four queries of the connection, in the order \<^verbatim>\<open>PassContext::load\<close> runs them.\<close>

record Connection =
  q_sources :: "(str \<times> str \<times> str) query"
  q_generations :: "(str \<times> str \<times> str \<times> int) query"
  q_ranges :: "(str \<times> str \<times> int) query"
  q_captured :: "(str \<times> str) query"

definition PassContext_load :: "Connection \<Rightarrow> StateError + PassContext" where
  "PassContext_load conn =
     and_then (load_sources (q_sources conn)) (\<lambda>ss.
     and_then (current_generation_by_source (q_generations conn)) (\<lambda>cur.
     and_then (acknowledged_by_generation (q_ranges conn)) (\<lambda>ack.
     and_then (last_captured_by_source (q_captured conn)) (\<lambda>lc.
       Inr \<lparr>ctx_sources = ss, ctx_current_generation = cur, ctx_acknowledged = ack,
            ctx_last_captured = lc\<rparr>))))"

section \<open>Measuring\<close>

definition measure_source ::
  "SourceScan \<Rightarrow> SourceRow option \<Rightarrow> nat \<times> nat \<Rightarrow> nat option \<Rightarrow> nat option \<Rightarrow> bool \<Rightarrow> SourceInventory" where
  "measure_source scan state acked last_captured now_epoch is_degraded =
     (let l = (case state of
                 None \<Rightarrow> if scan_active_in_window scan then Freshness else Backfill
               | Some row \<Rightarrow> row_lane row);
          an = (if fst acked > scan_complete_bytes scan \<or> snd acked > scan_complete_events scan
                then Some AcknowledgedBeyondComplete else None);
          out_bytes = scan_complete_bytes scan - fst acked;
          out_events = scan_complete_events scan - snd acked;
          cov = (case an of
                   None \<Rightarrow> (case forced_coverage (scan_classification scan) of
                       Some c \<Rightarrow> c
                     | None \<Rightarrow> if out_bytes > 0 \<or> out_events > 0 then Partial
                               else if l = Backfill then FullyBackfilled else Current)
                 | Some _ \<Rightarrow> Failed);
          basis = (case last_captured of Some b \<Rightarrow> Some b | None \<Rightarrow>
                    (case Option.bind state (\<lambda>row. basis_epoch (created_at row)) of Some b \<Rightarrow> Some b
                     | None \<Rightarrow> Option.bind (scan_last_activity scan) epoch_seconds));
          lag = (case (out_bytes > 0 \<or> out_events > 0, basis, now_epoch) of
                   (True, Some b, Some now) \<Rightarrow> now - b
                 | _ \<Rightarrow> 0)
      in \<lparr>source = scan_source scan, adapter = scan_adapter scan, account = scan_account scan, lane = l,
          coverage = cov, classification = scan_classification scan,
          complete_bytes = scan_complete_bytes scan, complete_events = scan_complete_events scan,
          acknowledged_bytes = fst acked, acknowledged_events = snd acked,
          outstanding_bytes = out_bytes, outstanding_events = out_events,
          incomplete_tail_bytes = scan_incomplete_tail_bytes scan, freshness_lag_seconds = lag,
          cursor = \<lparr>retained_bytes = fst acked, retained_events = snd acked,
                    uncaptured_bytes = out_bytes, uncaptured_events = out_events\<rparr>,
          decision = cursor_retention (fst acked) (snd acked) (scan_complete_bytes scan)
                       (scan_complete_events scan) is_degraded,
          anomaly = an, enrolled = (state \<noteq> None)\<rparr>)"

definition PassContext_measure :: "PassContext \<Rightarrow> SourceScan list \<Rightarrow> Timestamp \<Rightarrow> bool \<Rightarrow> SourceInventory list" where
  "PassContext_measure self scans now is_degraded =
     (let now_epoch = epoch_seconds now in
      map (\<lambda>scan.
        let acked = (case Option.bind (map_of (ctx_current_generation self) (scan_source scan))
                            (map_of (ctx_acknowledged self)) of
                       Some a \<Rightarrow> a | None \<Rightarrow> (0, 0))
        in measure_source scan (map_of (ctx_sources self) (scan_source scan)) acked
             (Option.bind (map_of (ctx_last_captured self) (scan_source scan)) basis_epoch)
             now_epoch is_degraded) scans)"

definition measured_sources ::
  "Connection \<Rightarrow> SourceScan list \<Rightarrow> Timestamp \<Rightarrow> InventoryOptions \<Rightarrow> StateError + SourceInventory list" where
  "measured_sources conn scans now options =
     and_then (PassContext_load conn) (\<lambda>ctx. Inr (PassContext_measure ctx scans now (degraded options)))"

section \<open>The report\<close>

record InventoryTotals =
  active_backlog_bytes :: nat
  active_backlog_events :: nat
  historical_backlog_bytes :: nat
  historical_backlog_events :: nat
  total_sources :: CoverageCounts

definition InventoryTotals_default :: InventoryTotals where
  "InventoryTotals_default =
     \<lparr>active_backlog_bytes = 0, active_backlog_events = 0, historical_backlog_bytes = 0,
      historical_backlog_events = 0, total_sources = CoverageCounts_default\<rparr>"

record InventoryReport =
  generated_at :: Timestamp
  overall :: CoverageState
  totals :: InventoryTotals
  statuses :: "AdapterAccountStatus list"
  sources_without_scan :: nat

text \<open>\<^verbatim>\<open>a += b\<close> on a \<^verbatim>\<open>u64\<close>, with and without overflow checks.\<close>

definition u64_plus :: "bool \<Rightarrow> nat \<Rightarrow> nat \<Rightarrow> nat option" where
  "u64_plus checks a b = (if checks \<and> a + b > U64_MAX then None else Some ((a + b) mod 2 ^ 64))"

definition fold_into_status :: "bool \<Rightarrow> AdapterAccountStatus \<Rightarrow> SourceInventory \<Rightarrow> AdapterAccountStatus option" where
  "fold_into_status checks status r =
     (let status = status\<lparr>st_coverage := combine (st_coverage status) (coverage r)\<rparr>;
          status = status\<lparr>st_sources := CoverageCounts_record (st_sources status) (coverage r)\<rparr>;
          status = status\<lparr>st_classifications :=
                      ClassificationCounts_record (st_classifications status) (classification r)\<rparr>
      in Option.bind (case lane r of
              Freshness \<Rightarrow>
                Option.bind (u64_plus checks (st_active_backlog_bytes status) (outstanding_bytes r)) (\<lambda>b.
                Option.bind (u64_plus checks (st_active_backlog_events status) (outstanding_events r)) (\<lambda>e.
                Some (status\<lparr>st_active_backlog_bytes := b, st_active_backlog_events := e\<rparr>)))
            | Backfill \<Rightarrow>
                Option.bind (u64_plus checks (st_historical_backlog_bytes status) (outstanding_bytes r)) (\<lambda>b.
                Option.bind (u64_plus checks (st_historical_backlog_events status) (outstanding_events r)) (\<lambda>e.
                Some (status\<lparr>st_historical_backlog_bytes := b, st_historical_backlog_events := e\<rparr>)))) (\<lambda>status.
         Some (status\<lparr>st_max_freshness_lag_seconds :=
                  max (st_max_freshness_lag_seconds status) (freshness_lag_seconds r)\<rparr>)))"

definition empty_status :: "SourceInventory \<Rightarrow> AdapterAccountStatus" where
  "empty_status r =
     \<lparr>st_adapter = adapter r, st_account = account r, st_coverage = Absent,
      st_active_backlog_bytes = 0, st_active_backlog_events = 0,
      st_historical_backlog_bytes = 0, st_historical_backlog_events = 0,
      st_max_freshness_lag_seconds = 0, st_sources = CoverageCounts_default,
      st_classifications = ClassificationCounts_default\<rparr>"

text \<open>The loop over the records: the scopes in first-seen order and the index of each scope.\<close>

type_synonym scopes = "((str \<times> str) \<times> AdapterAccountStatus) list \<times> ((str \<times> str) \<times> nat) list"

definition scope_step :: "bool \<Rightarrow> SourceInventory \<Rightarrow> scopes \<Rightarrow> scopes option" where
  "scope_step checks r st =
     (case st of (scps, index) \<Rightarrow>
       let key = (adapter r, account r);
           (scps, index, i) =
             (case map_of index key of
                Some i \<Rightarrow> (scps, index, i)
              | None \<Rightarrow> (let scps = scps @ [(key, empty_status r)]; i = length scps - 1
                         in (scps, AList.update key i index, i)))
       in map_option (\<lambda>status. (scps[i := (fst (scps ! i), status)], index)) (fold_into_status checks (snd (scps ! i)) r))"

definition totals_step :: "bool \<Rightarrow> SourceInventory \<Rightarrow> InventoryTotals \<times> CoverageState \<Rightarrow>
    (InventoryTotals \<times> CoverageState) option" where
  "totals_step checks r acc =
     (case acc of (t, ov) \<Rightarrow>
       let t = t\<lparr>total_sources := CoverageCounts_record (total_sources t) (coverage r)\<rparr>
       in Option.bind (case lane r of
                Freshness \<Rightarrow>
                  Option.bind (u64_plus checks (active_backlog_bytes t) (outstanding_bytes r)) (\<lambda>b.
                  Option.bind (u64_plus checks (active_backlog_events t) (outstanding_events r)) (\<lambda>e.
                  Some (t\<lparr>active_backlog_bytes := b, active_backlog_events := e\<rparr>)))
              | Backfill \<Rightarrow>
                  Option.bind (u64_plus checks (historical_backlog_bytes t) (outstanding_bytes r)) (\<lambda>b.
                  Option.bind (u64_plus checks (historical_backlog_events t) (outstanding_events r)) (\<lambda>e.
                  Some (t\<lparr>historical_backlog_bytes := b, historical_backlog_events := e\<rparr>)))) (\<lambda>t.
          Some (t, combine ov (coverage r))))"

text \<open>A loop over the records whose body may panic.\<close>

fun for_each :: "('r \<Rightarrow> 'a \<Rightarrow> 'a option) \<Rightarrow> 'r list \<Rightarrow> 'a \<Rightarrow> 'a option" where
  "for_each f [] acc = Some acc"
| "for_each f (r # rs) acc = Option.bind (f r acc) (for_each f rs)"

definition inventory ::
  "bool \<Rightarrow> Connection \<Rightarrow> SourceScan list \<Rightarrow> Timestamp \<Rightarrow> InventoryOptions \<Rightarrow> (StateError + InventoryReport) option" where
  "inventory checks conn scans now options =
     (case PassContext_load conn of
        Inl e \<Rightarrow> Some (Inl e)
      | Inr context \<Rightarrow>
          let per_source = PassContext_measure context scans now (degraded options);
              srcs = ctx_sources context
          in Option.bind (for_each (scope_step checks) per_source ([], [])) (\<lambda>(scps, _).
             let scanned = map scan_source scans;
                 without_scan = length (filter (\<lambda>(s, _). s \<notin> set scanned) srcs)
             in Option.bind (for_each (totals_step checks) per_source (InventoryTotals_default, Absent)) (\<lambda>(tot, ov).
                let ov = (if without_scan > 0 then combine ov Partial else ov)
                in Some (Inr \<lparr>generated_at = now, overall = ov, totals = tot, statuses = map snd scps,
                     sources_without_scan = without_scan\<rparr>))))"

section \<open>Cursor decisions\<close>

lemma cursor_retention_Advance:
  "cursor_retention rb re cb ce d = Advance b e \<longleftrightarrow>
     \<not> d \<and> (rb < cb \<or> re < ce) \<and> b = max cb rb \<and> e = max ce re"
  by (auto simp: cursor_retention_def)

section \<open>Grouping by scope\<close>

definition scope_key :: "SourceInventory \<Rightarrow> str \<times> str" where
  "scope_key r = (adapter r, account r)"

definition first_seen :: "'a list \<Rightarrow> 'a list" where
  "first_seen xs = rev (remdups (rev xs))"

lemma first_seen_snoc [simp]:
  "first_seen (xs @ [x]) = (if x \<in> set xs then first_seen xs else first_seen xs @ [x])"
  by (simp add: first_seen_def)

lemma set_first_seen [simp]: "set (first_seen xs) = set xs"
  by (simp add: first_seen_def)

lemma distinct_first_seen [simp]: "distinct (first_seen xs)"
  by (simp add: first_seen_def)

definition lane_sum :: "FreshnessLane \<Rightarrow> (SourceInventory \<Rightarrow> nat) \<Rightarrow> SourceInventory list \<Rightarrow> nat" where
  "lane_sum l f rs = sum_list (map f (filter (\<lambda>r. lane r = l) rs))"

definition most :: "'a :: linorder \<Rightarrow> 'a list \<Rightarrow> 'a" where
  "most a xs = Max (insert a (set xs))"

text \<open>What a status is to hold, from its scope's records; the four sums as a \<^verbatim>\<open>u64\<close> holds them.\<close>

definition scope_status :: "SourceInventory list \<Rightarrow> str \<times> str \<Rightarrow> AdapterAccountStatus" where
  "scope_status rs k =
     (let own = filter (\<lambda>r. scope_key r = k) rs in
       \<lparr>st_adapter = fst k, st_account = snd k, st_coverage = most Absent (map coverage own),
        st_active_backlog_bytes = lane_sum Freshness outstanding_bytes own mod 2 ^ 64,
        st_active_backlog_events = lane_sum Freshness outstanding_events own mod 2 ^ 64,
        st_historical_backlog_bytes = lane_sum Backfill outstanding_bytes own mod 2 ^ 64,
        st_historical_backlog_events = lane_sum Backfill outstanding_events own mod 2 ^ 64,
        st_max_freshness_lag_seconds = most 0 (map freshness_lag_seconds own),
        st_sources = fold (\<lambda>s c. CoverageCounts_record c s) (map coverage own) CoverageCounts_default,
        st_classifications = fold (\<lambda>s c. ClassificationCounts_record c s) (map classification own) ClassificationCounts_default\<rparr>)"

definition fits :: "SourceInventory list \<Rightarrow> bool" where
  "fits rs \<longleftrightarrow> lane_sum Freshness outstanding_bytes rs \<le> U64_MAX \<and> lane_sum Freshness outstanding_events rs \<le> U64_MAX \<and>
     lane_sum Backfill outstanding_bytes rs \<le> U64_MAX \<and> lane_sum Backfill outstanding_events rs \<le> U64_MAX"

lemma lane_sum_simps [simp]: "lane_sum l f [] = 0" "lane_sum l f (rs @ [r]) = lane_sum l f rs + (if lane r = l then f r else 0)"
  by (simp_all add: lane_sum_def)

lemma lane_sum_filter: "lane_sum l f (filter P rs) \<le> lane_sum l f rs"
  by (induction rs rule: rev_induct) auto

lemma fits_filter: "fits rs \<Longrightarrow> fits (filter P rs)"
  using lane_sum_filter unfolding fits_def by (meson order_trans)

lemma fits_snoc: "fits (rs @ [r]) \<Longrightarrow> fits rs"
  unfolding fits_def by (auto split: if_splits)

lemma u64_mod: "n \<le> U64_MAX \<Longrightarrow> n mod 18446744073709551616 = n"
  by (simp add: U64_MAX_def)

lemma u64_plus_mod: "checks \<longrightarrow> a + b \<le> U64_MAX \<Longrightarrow> u64_plus checks (a mod 2 ^ 64) b = Some ((a + b) mod 2 ^ 64)"
  by (auto simp: u64_plus_def u64_mod mod_add_left_eq)

lemma most_simps [simp]: "most a [] = a" "most a (xs @ [x]) = max (most a xs) x"
proof -
  have "insert a (set (xs @ [x])) = insert x (insert a (set xs))" by auto
  then have "most a (xs @ [x]) = max x (most a xs)" by (simp only: most_def) (simp del: Max_insert2)
  then show "most a (xs @ [x]) = max (most a xs) x" by (simp add: max.commute)
qed (simp add: most_def)

lemma scope_status_snoc:
  assumes "scope_key r = k" "checks \<longrightarrow> fits (rs @ [r])"
  shows "fold_into_status checks (scope_status rs k) r = Some (scope_status (rs @ [r]) k)"
proof -
  let ?own = "filter (\<lambda>r. scope_key r = k) rs"
  have "checks \<longrightarrow> fits (?own @ [r])" using assms fits_filter [of "rs @ [r]" "\<lambda>r. scope_key r = k"] by simp
  then have "checks \<longrightarrow> lane_sum (lane r) outstanding_bytes ?own + outstanding_bytes r \<le> U64_MAX"
      "checks \<longrightarrow> lane_sum (lane r) outstanding_events ?own + outstanding_events r \<le> U64_MAX"
    by (cases "lane r"; simp add: fits_def)+
  note plus = this [THEN u64_plus_mod]
  show ?thesis
    using plus assms(1) by (cases "lane r") (simp_all add: fold_into_status_def scope_status_def Let_def combine_max)
qed

lemma scope_status_other: "scope_key r \<noteq> k \<Longrightarrow> scope_status (rs @ [r]) k = scope_status rs k"
  by (simp add: scope_status_def)

lemma scope_status_new: "scope_key r \<notin> scope_key ` set rs \<Longrightarrow> scope_status rs (scope_key r) = empty_status r"
proof -
  assume "scope_key r \<notin> scope_key ` set rs"
  then have "filter (\<lambda>x. scope_key x = scope_key r) rs = []"
    by (auto simp: filter_empty_conv image_iff)
  then show ?thesis by (simp add: scope_status_def empty_status_def) (simp add: scope_key_def)
qed

lemma scope_step_Some:
  "map_of index (scope_key r) = Some i \<Longrightarrow>
   scope_step checks r (scps, index) =
     map_option (\<lambda>status. (scps[i := (fst (scps ! i), status)], index)) (fold_into_status checks (snd (scps ! i)) r)"
  by (simp add: scope_step_def scope_key_def)

lemma scope_step_None:
  "map_of index (scope_key r) = None \<Longrightarrow>
   scope_step checks r (scps, index) =
     map_option (\<lambda>status. (scps @ [(scope_key r, status)], AList.update (scope_key r) (length scps) index))
       (fold_into_status checks (empty_status r) r)"
  by (simp add: scope_step_def scope_key_def Let_def)

lemma for_each_append: "for_each f (xs @ ys) acc = Option.bind (for_each f xs acc) (for_each f ys)"
proof (induction xs arbitrary: acc)
  case (Cons x xs)
  then show ?case by (cases "f x acc") simp_all
qed simp

text \<open>The index names the position of every scope, in first-seen order.\<close>

definition indexes :: "'k list \<Rightarrow> ('k \<times> nat) list \<Rightarrow> bool" where
  "indexes ks index \<longleftrightarrow> (\<forall>k i. map_of index k = Some i \<longleftrightarrow> i < length ks \<and> ks ! i = k)"

lemma indexes_snoc:
  assumes "indexes ks index" "k \<notin> set ks"
  shows "indexes (ks @ [k]) (AList.update k (length ks) index)"
  using assms unfolding indexes_def update_conv'
  by (auto simp: nth_append less_Suc_eq in_set_conv_nth)

lemma indexes_None: "indexes ks index \<Longrightarrow> map_of index k = None \<longleftrightarrow> k \<notin> set ks"
  unfolding indexes_def in_set_conv_nth by (metis not_Some_eq)

lemma map_update_at:
  assumes "distinct ks" "i < length ks" "\<And>k. k \<in> set ks \<Longrightarrow> k \<noteq> ks ! i \<Longrightarrow> g k = f k"
  shows "(map f ks)[i := g (ks ! i)] = map g ks"
proof (rule nth_equalityI)
  fix j assume "j < length ((map f ks)[i := g (ks ! i)])"
  then have j: "j < length ks" by simp
  show "(map f ks)[i := g (ks ! i)] ! j = map g ks ! j"
  proof (cases "j = i")
    case False
    then have "ks ! j \<noteq> ks ! i" using assms(1,2) j by (simp add: nth_eq_iff_index_eq)
    then show ?thesis using False j assms(3) by simp
  qed (use j in simp)
qed simp

lemma scope_loop:
  assumes "checks \<longrightarrow> fits rs"
  shows "\<exists>index. for_each (scope_step checks) rs ([], []) =
     Some (map (\<lambda>k. (k, scope_status rs k)) (first_seen (map scope_key rs)), index) \<and>
     indexes (first_seen (map scope_key rs)) index"
  using assms
proof (induction rs rule: rev_induct)
  case Nil
  show ?case by (simp add: first_seen_def indexes_def)
next
  case (snoc r rs)
  let ?ks = "first_seen (map scope_key rs)" and ?k = "scope_key r"
  from snoc obtain index where
    eq: "for_each (scope_step checks) rs ([], []) = Some (map (\<lambda>k. (k, scope_status rs k)) ?ks, index)"
    and ix: "indexes ?ks index" using fits_snoc by blast
  note own = scope_status_snoc [OF refl snoc.prems]
  show ?case
  proof (cases "?k \<in> set ?ks")
    case True
    then obtain i where i: "map_of index ?k = Some i" "i < length ?ks" "?ks ! i = ?k"
      using ix indexes_None [OF ix, of ?k] unfolding indexes_def by blast
    have "(map (\<lambda>k. (k, scope_status rs k)) ?ks)[i := (?k, scope_status (rs @ [r]) ?k)] =
        map (\<lambda>k. (k, scope_status (rs @ [r]) k)) ?ks"
      using map_update_at [of ?ks i "\<lambda>k. (k, scope_status (rs @ [r]) k)" "\<lambda>k. (k, scope_status rs k)"] i
      by (simp add: scope_status_other)
    then show ?thesis
      using True eq ix i own by (simp add: for_each_append scope_step_Some)
  next
    case False
    then have none: "map_of index ?k = None" and new: "scope_status rs ?k = empty_status r"
      using indexes_None [OF ix] scope_status_new [of r rs] by simp_all
    have "scope_status (rs @ [r]) k = scope_status rs k" if "k \<in> set ?ks" for k
      by (rule scope_status_other) (use that False in blast)
    then have "map (\<lambda>k. (k, scope_status (rs @ [r]) k)) ?ks = map (\<lambda>k. (k, scope_status rs k)) ?ks" by simp
    then show ?thesis
      using False eq none new own indexes_snoc [OF ix False]
      by (simp add: for_each_append scope_step_None)
  qed
qed

section \<open>Totals\<close>

text \<open>A sum that leaves the range at the end has done so at some step, and none before it.\<close>

lemma totals_loop:
  "for_each (totals_step checks) rs (InventoryTotals_default, Absent) =
     (if checks \<and> \<not> fits rs then None
      else Some (\<lparr>active_backlog_bytes = lane_sum Freshness outstanding_bytes rs mod 2 ^ 64,
       active_backlog_events = lane_sum Freshness outstanding_events rs mod 2 ^ 64,
       historical_backlog_bytes = lane_sum Backfill outstanding_bytes rs mod 2 ^ 64,
       historical_backlog_events = lane_sum Backfill outstanding_events rs mod 2 ^ 64,
       total_sources = fold (\<lambda>s c. CoverageCounts_record c s) (map coverage rs) CoverageCounts_default\<rparr>,
      most Absent (map coverage rs)))"
proof (induction rs rule: rev_induct)
  case Nil
  show ?case by (simp add: InventoryTotals_default_def fits_def)
next
  case (snoc r rs)
  have p: "u64_plus checks (lane_sum (lane r) f rs mod 2 ^ 64) (f r) =
      (if checks \<and> lane_sum (lane r) f rs + f r > U64_MAX then None else Some ((lane_sum (lane r) f rs + f r) mod 2 ^ 64))"
    if "checks \<longrightarrow> lane_sum (lane r) f rs \<le> U64_MAX" for f
    using that by (auto simp: u64_plus_def u64_mod mod_add_left_eq)
  show ?case
  proof (cases "checks \<and> \<not> fits rs")
    case True
    then show ?thesis using snoc fits_snoc by (auto simp: for_each_append)
  next
    case False
    then show ?thesis
      using snoc p [of outstanding_bytes] p [of outstanding_events]
      by (cases "lane r") (auto simp: for_each_append totals_step_def fits_def combine_max Let_def not_le)
  qed
qed

text \<open>Splitting a sum by key loses nothing.\<close>

lemma sum_by_key:
  assumes "distinct ks" "key ` set rs \<subseteq> set ks"
  shows "sum_list (map (\<lambda>k. lane_sum l f (filter (\<lambda>r. key r = k) rs)) ks) = lane_sum l f rs"
  using assms(2)
proof (induction rs)
  case (Cons r rs)
  have "sum_list (map (\<lambda>k. lane_sum l f (filter (\<lambda>x. key x = k) (r # rs))) ks) =
      sum_list (map (\<lambda>k. (if k = key r then lane_sum l f [r] else 0) + lane_sum l f (filter (\<lambda>x. key x = k) rs)) ks)"
    by (rule arg_cong [where f = sum_list]) (auto simp: lane_sum_def)
  also have "\<dots> = sum_list (map (\<lambda>k. if k = key r then lane_sum l f [r] else 0) ks) + lane_sum l f rs"
    using Cons by (simp add: sum_list_addf)
  also have "sum_list (map (\<lambda>k. if k = key r then lane_sum l f [r] else 0) ks) = lane_sum l f [r]"
    using Cons.prems assms(1) by (simp add: sum_list_distinct_conv_sum_set)
  finally show ?case by (simp add: lane_sum_def)
qed (simp add: lane_sum_def)


text \<open>In range, the statuses hold their scopes' sums, which add up to the totals.\<close>

lemma scope_sums:
  assumes "fits rs"
  defines "ks \<equiv> first_seen (map scope_key rs)"
  shows "sum_list (map (\<lambda>k. st_active_backlog_bytes (scope_status rs k)) ks) = lane_sum Freshness outstanding_bytes rs"
    "sum_list (map (\<lambda>k. st_active_backlog_events (scope_status rs k)) ks) = lane_sum Freshness outstanding_events rs"
    "sum_list (map (\<lambda>k. st_historical_backlog_bytes (scope_status rs k)) ks) = lane_sum Backfill outstanding_bytes rs"
    "sum_list (map (\<lambda>k. st_historical_backlog_events (scope_status rs k)) ks) = lane_sum Backfill outstanding_events rs"
proof -
  have keys: "distinct ks" "scope_key ` set rs \<subseteq> set ks" by (simp_all add: ks_def)
  have "fits (filter (\<lambda>r. scope_key r = k) rs)" for k by (rule fits_filter [OF assms(1)])
  then show "sum_list (map (\<lambda>k. st_active_backlog_bytes (scope_status rs k)) ks) = lane_sum Freshness outstanding_bytes rs"
    "sum_list (map (\<lambda>k. st_active_backlog_events (scope_status rs k)) ks) = lane_sum Freshness outstanding_events rs"
    "sum_list (map (\<lambda>k. st_historical_backlog_bytes (scope_status rs k)) ks) = lane_sum Backfill outstanding_bytes rs"
    "sum_list (map (\<lambda>k. st_historical_backlog_events (scope_status rs k)) ks) = lane_sum Backfill outstanding_events rs"
    by (simp_all add: scope_status_def Let_def fits_def u64_mod sum_by_key [OF keys])
qed

section \<open>The current generation\<close>

lemma for_rows_append:
  "for_rows f (xs @ ys) acc = and_then (for_rows f xs acc) (for_rows f ys)"
proof (induction xs arbitrary: acc)
  case (Cons x xs)
  then show ?case by (cases x) (auto simp: and_then_def split: sum.splits)
qed simp

text \<open>
  The generation a source's scan is compared with: the last open one, and without an open one
  the last one, in the order of the rows (ascending ordinals).
\<close>

definition last_preferred :: "('a \<Rightarrow> bool) \<Rightarrow> 'a list \<Rightarrow> 'a option" where
  "last_preferred P xs =
     (if xs = [] then None else if filter P xs = [] then Some (last xs) else Some (last (filter P xs)))"

lemma last_preferred_P: "last_preferred P xs = Some x \<Longrightarrow> P x \<longleftrightarrow> filter P xs \<noteq> []"
  using last_in_set [of xs] last_in_set [of "filter P xs"]
  by (auto simp: last_preferred_def filter_empty_conv split: if_splits)

lemma last_preferred_snoc:
  "last_preferred P (xs @ [y]) =
     (case last_preferred P xs of
        None \<Rightarrow> Some y
      | Some x \<Rightarrow> if P x \<and> \<not> P y then Some x else Some y)"
proof (cases "last_preferred P xs")
  case None
  then have "xs = []" by (simp add: last_preferred_def split: if_splits)
  then show ?thesis by (simp add: last_preferred_def)
next
  case (Some x)
  from last_preferred_P [OF Some] Some show ?thesis
    by (auto simp: last_preferred_def split: if_splits)
qed

definition row_open :: "str \<times> str \<times> str \<times> int \<Rightarrow> bool" where
  "row_open row \<longleftrightarrow> fst (snd (snd row)) = lit ''open''"

definition row_entry :: "str \<times> str \<times> str \<times> int \<Rightarrow> str \<times> bool \<times> int" where
  "row_entry row = (fst (snd row), row_open row, snd (snd (snd row)))"

definition chosen_generation :: "(str \<times> str \<times> str \<times> int) list \<Rightarrow> str \<Rightarrow> (str \<times> str \<times> str \<times> int) option" where
  "chosen_generation rows s = last_preferred row_open (filter (\<lambda>row. fst row = s) rows)"

lemma current_generation_step_map:
  assumes "current_generation_step row current = Inr current'"
    and "\<forall>s. map_of current s = map_option row_entry (chosen_generation rows s)"
  shows "map_of current' s = map_option row_entry (chosen_generation (rows @ [row]) s)"
proof -
  obtain s' g state n where row: "row = (s', g, state, n)" by (cases row)
  have "state = lit ''open'' \<or> state = lit ''closed''"
    using assms(1) by (auto simp: current_generation_step_def row split: if_splits)
  then show ?thesis
    using assms
    by (auto simp: current_generation_step_def row chosen_generation_def last_preferred_snoc
        update_conv' row_entry_def row_open_def split: if_splits option.splits)
qed

lemma current_generation_rows:
  "for_rows current_generation_step (map Some rows) [] = Inr current \<Longrightarrow>
   map_of current s = map_option row_entry (chosen_generation rows s)"
proof (induction rows arbitrary: current s rule: rev_induct)
  case Nil
  then show ?case by (simp add: chosen_generation_def last_preferred_def)
next
  case (snoc row rows)
  then obtain x where x: "for_rows current_generation_step (map Some rows) [] = Inr x"
    "current_generation_step row x = Inr current"
    by (auto simp: for_rows_append result_simps)
  show ?case
    using current_generation_step_map [OF x(2)] snoc.IH [OF x(1)] by blast
qed

section \<open>The civil calendar\<close>

lemma sdiv_nonneg: "0 \<le> k \<Longrightarrow> 0 < l \<Longrightarrow> k sdiv l = k div (l :: int)"
  by (cases "k = 0") (simp_all add: signed_divide_int_def)

definition leap_year :: "int \<Rightarrow> bool" where
  "leap_year y \<longleftrightarrow> 4 dvd y \<and> (\<not> 100 dvd y \<or> 400 dvd y)"

definition month_days :: "int \<Rightarrow> int \<Rightarrow> int" where
  "month_days y m =
     (if m \<in> {4, 6, 9, 11} then 30 else if m = 2 then (if leap_year y then 29 else 28) else 31)"

definition next_day :: "int \<times> int \<times> int \<Rightarrow> int \<times> int \<times> int" where
  "next_day = (\<lambda>(y, m, d). if d < month_days y m then (y, m, d + 1)
     else if m < 12 then (y, m + 1, 1) else (y + 1, 1, 1))"

text \<open>Days from 1 March of year 0 to 1 March of year \<open>y\<close>.\<close>

definition march_days :: "int \<Rightarrow> int" where
  "march_days y = 365 * y + y div 4 - y div 100 + y div 400"

lemma div_succ:
  fixes y n :: int
  assumes "n > 0"
  shows "(y + 1) div n = y div n + (if n dvd y + 1 then 1 else 0)"
proof (cases "n dvd y + 1")
  case True
  then obtain k where k: "y + 1 = n * k" by (elim dvdE)
  have "y = n * (k - 1) + (n - 1)" using k by (simp add: algebra_simps)
  then have "y div n = k - 1" by (rule int_div_pos_eq) (use assms in auto)
  moreover have "(y + 1) div n = k" using k assms by simp
  ultimately show ?thesis using True by simp
next
  case False
  define q r where "q = (y + 1) div n" and "r = (y + 1) mod n"
  have r: "r \<noteq> 0" "0 \<le> r" "r < n" using False assms by (simp_all add: r_def dvd_eq_mod_eq_0)
  have "y + 1 = n * q + r" by (simp add: q_def r_def)
  then have "y = n * q + (r - 1)" by simp
  then have "y div n = q" by (rule int_div_pos_eq) (use r in auto)
  then show ?thesis using False by (simp add: q_def)
qed

lemma march_days_Suc: "march_days (y + 1) = march_days y + (if leap_year (y + 1) then 366 else 365)"
proof -
  define a b c where "a \<longleftrightarrow> 4 dvd y + 1" and "b \<longleftrightarrow> 100 dvd y + 1" and "c \<longleftrightarrow> 400 dvd y + 1"
  have c: "c \<Longrightarrow> b" unfolding b_def c_def by (erule dvd_trans [rotated]) simp
  have b: "b \<Longrightarrow> a" unfolding a_def b_def by (erule dvd_trans [rotated]) simp
  have d: "(y + 1) div 4 = y div 4 + (if a then 1 else 0)"
    "(y + 1) div 100 = y div 100 + (if b then 1 else 0)"
    "(y + 1) div 400 = y div 400 + (if c then 1 else 0)"
    unfolding a_def b_def c_def by (rule div_succ, simp)+
  have leap: "leap_year (y + 1) \<longleftrightarrow> a \<and> (\<not> b \<or> c)" unfolding leap_year_def a_def b_def c_def ..
  show ?thesis
    unfolding march_days_def leap d using b c by (cases a; cases b; cases c) simp_all
qed

lemma era_days:
  assumes "y \<ge> -1"
  shows "(let era = (if y \<ge> 0 then y else y - 399) sdiv 400; yoe = y - era * 400
          in era * 146097 + (yoe * 365 + yoe sdiv 4 - yoe sdiv 100)) = march_days y"
proof -
  have era: "(if y \<ge> 0 then y else y - 399) sdiv 400 = y div 400"
  proof (cases "y \<ge> 0")
    case True
    then show ?thesis by (simp add: sdiv_nonneg)
  next
    case False
    then have "y = -1" using assms by simp
    then show ?thesis by (simp add: signed_divide_int_def)
  qed
  define e r where "e = y div 400" and "r = y mod 400"
  have y: "y = 400 * e + r" and r: "0 \<le> r" by (simp_all add: e_def r_def)
  have "y div 4 = 100 * e + r div 4" using y by simp
  moreover have "y div 100 = 4 * e + r div 100" using y by simp
  moreover have "r sdiv 4 = r div 4" "r sdiv 100 = r div 100" using r by (simp_all add: sdiv_nonneg)
  moreover have "y - e * 400 = r" using y by simp
  ultimately show ?thesis
    unfolding era e_def [symmetric] march_days_def Let_def using y by simp
qed

lemma days_from_civil_eq:
  assumes "y \<ge> 0" "1 \<le> m" "m \<le> 12"
  shows "days_from_civil y m d =
    march_days (if m \<le> 2 then y - 1 else y) +
    (153 * (if m > 2 then m - 3 else m + 9) + 2) div 5 + d - 1 - 719468"
proof -
  have "(if m \<le> 2 then y - 1 else y) \<ge> -1" using assms by simp
  from era_days [OF this] show ?thesis
    using assms by (simp add: days_from_civil_def Let_def sdiv_nonneg)
qed

lemma month_cases: "1 \<le> m \<Longrightarrow> m \<le> (12 :: int) \<Longrightarrow>
  m = 1 \<or> m = 2 \<or> m = 3 \<or> m = 4 \<or> m = 5 \<or> m = 6 \<or> m = 7 \<or> m = 8 \<or> m = 9 \<or> m = 10 \<or> m = 11 \<or> m = 12"
  by arith

lemma days_from_civil_next_day:
  assumes "y \<ge> 0" "1 \<le> m" "m \<le> 12" "1 \<le> d" "d \<le> month_days y m" "next_day (y, m, d) = (y', m', d')"
  shows "days_from_civil y' m' d' = days_from_civil y m d + 1"
proof (cases "d < month_days y m")
  case True
  then show ?thesis using assms by (auto simp: next_day_def days_from_civil_eq)
next
  case False
  then have d: "d = month_days y m" using assms by simp
  show ?thesis
  proof (cases "m = 2")
    case True
    then have "y' = y" "m' = 3" "d' = 1" using False assms(6) by (simp_all add: next_day_def)
    then show ?thesis
      using True d assms(1) march_days_Suc [of "y - 1"]
      by (simp add: days_from_civil_eq month_days_def split: if_splits)
  next
    case other: False
    show ?thesis
      using month_cases [OF assms(2,3)] other assms(1,6) False d
      by (elim disjE) (auto simp: next_day_def month_days_def days_from_civil_eq)
  qed
qed

section \<open>Properties\<close>

text \<open>
  C7. Measuring a source accounts for every complete byte and event and never loses or skips
  data: without an anomaly the acknowledged and the outstanding extent add up to the complete
  boundary; the cursor is only moved when capture is not degraded and something is
  outstanding, never backwards, and without an anomaly exactly to the complete boundary
  (never into the incomplete tail); and a source is reported as caught up only when it has
  no anomaly and nothing outstanding.
\<close>

theorem measure_accounts_for_everything:
  "let r = measure_source scan st acked lc now d in
     (anomaly r = None \<longleftrightarrow> fst acked \<le> scan_complete_bytes scan \<and> snd acked \<le> scan_complete_events scan) \<and>
     (anomaly r = None \<longrightarrow> fst acked + outstanding_bytes r = scan_complete_bytes scan \<and>
                           snd acked + outstanding_events r = scan_complete_events scan) \<and>
     (case decision r of
        Hold \<Rightarrow> d \<or> outstanding_bytes r = 0 \<and> outstanding_events r = 0
      | Advance b e \<Rightarrow> \<not> d \<and> fst acked \<le> b \<and> snd acked \<le> e \<and>
          (outstanding_bytes r > 0 \<or> outstanding_events r > 0) \<and>
          (anomaly r = None \<longrightarrow> b = scan_complete_bytes scan \<and> e = scan_complete_events scan)) \<and>
     (coverage r = Current \<or> coverage r = FullyBackfilled \<longrightarrow>
        anomaly r = None \<and> outstanding_bytes r = 0 \<and> outstanding_events r = 0)"
proof -
  have "forced_coverage (scan_classification scan) \<noteq> Some Current"
    "forced_coverage (scan_classification scan) \<noteq> Some FullyBackfilled"
    by (cases "scan_classification scan"; simp)+
  then show ?thesis
    by (auto simp: measure_source_def Let_def cursor_retention_def split: option.splits if_splits)
qed

definition sample_scan :: SourceScan where
  "sample_scan = \<lparr>scan_source = lit ''s'', scan_adapter = lit ''a'', scan_account = lit ''acct'',
     scan_complete_bytes = 100, scan_complete_events = 4, scan_incomplete_tail_bytes = 7,
     scan_last_activity = None, scan_active_in_window = True, scan_classification = Ok\<rparr>"

theorem measure_accounts_for_everything_witness:
  "anomaly (measure_source sample_scan None (60, 3) None None False) = None \<and>
   60 + outstanding_bytes (measure_source sample_scan None (60, 3) None None False) = 100"
  using measure_accounts_for_everything [of sample_scan None "(60, 3)" None None False]
  by (simp add: sample_scan_def Let_def)

text \<open>
  C6. The report is the grouping of the measured sources by scope. If one of the four sums over all
  records leaves the \<^verbatim>\<open>u64\<close> range, a build with overflow checks panics. Otherwise there is a report: one
  status per \<open>(adapter, account)\<close> pair in first-seen order, each with the sums, the most severe state,
  the largest lag and the counts of exactly that scope's records; fleet totals that are the sums over all
  records, lane by lane; and as overall state the most severe source state, at least partial when a
  known source was not scanned. All sums are taken modulo \<open>2 ^ 64\<close>; where they fit, the totals are
  exact and equal the sums over the statuses, so nothing is counted twice or dropped between the levels.
\<close>

theorem inventory_report_exact:
  assumes "PassContext_load conn = Inr ctx"
    and rs: "rs = PassContext_measure ctx scans now (degraded options)"
  shows "if checks \<and> \<not> fits rs then inventory checks conn scans now options = None
    else \<exists>rep. inventory checks conn scans now options = Some (Inr rep) \<and>
      statuses rep = map (scope_status rs) (first_seen (map scope_key rs)) \<and>
      active_backlog_bytes (totals rep) = lane_sum Freshness outstanding_bytes rs mod 2 ^ 64 \<and>
      active_backlog_events (totals rep) = lane_sum Freshness outstanding_events rs mod 2 ^ 64 \<and>
      historical_backlog_bytes (totals rep) = lane_sum Backfill outstanding_bytes rs mod 2 ^ 64 \<and>
      historical_backlog_events (totals rep) = lane_sum Backfill outstanding_events rs mod 2 ^ 64 \<and>
      (fits rs \<longrightarrow>
        sum_list (map st_active_backlog_bytes (statuses rep)) = lane_sum Freshness outstanding_bytes rs \<and>
        active_backlog_bytes (totals rep) = lane_sum Freshness outstanding_bytes rs \<and>
        sum_list (map st_active_backlog_events (statuses rep)) = lane_sum Freshness outstanding_events rs \<and>
        active_backlog_events (totals rep) = lane_sum Freshness outstanding_events rs \<and>
        sum_list (map st_historical_backlog_bytes (statuses rep)) = lane_sum Backfill outstanding_bytes rs \<and>
        historical_backlog_bytes (totals rep) = lane_sum Backfill outstanding_bytes rs \<and>
        sum_list (map st_historical_backlog_events (statuses rep)) = lane_sum Backfill outstanding_events rs \<and>
        historical_backlog_events (totals rep) = lane_sum Backfill outstanding_events rs) \<and>
      CoverageCounts_total (total_sources (totals rep)) = length scans \<and>
      overall rep = Max ({Absent} \<union> coverage ` set rs \<union> (if sources_without_scan rep > 0 then {Partial} else {}))"
proof (cases "checks \<and> \<not> fits rs")
  case True
  then show ?thesis
    unfolding inventory_def assms(1) sum.case Let_def rs [symmetric] totals_loop by (auto split: Option.bind_split)
next
  case False
  then obtain index where loop: "for_each (scope_step checks) rs ([], []) =
      Some (map (\<lambda>k. (k, scope_status rs k)) (first_seen (map scope_key rs)), index)"
    using scope_loop by blast
  have len: "length rs = length scans" by (simp add: rs PassContext_measure_def Let_def)
  note sums = scope_sums [of rs]
  have max: "Max (insert Absent (insert Partial (coverage ` set rs))) = combine (most Absent (map coverage rs)) Partial"
    using most_simps(2) [of Absent "map coverage rs" Partial] by (simp add: most_def combine_max insert_commute)
  show ?thesis
    using False unfolding inventory_def assms(1) sum.case Let_def rs [symmetric] loop totals_loop
    using max by (auto simp: sums most_def comp_def CoverageCounts_total_fold len fits_def u64_mod)
qed

definition sample_conn :: Connection where
  "sample_conn = \<lparr>q_sources = Some [], q_generations = Some [], q_ranges = Some [], q_captured = Some []\<rparr>"

theorem inventory_report_exact_witness:
  "\<exists>rep. inventory True sample_conn [sample_scan] (lit ''2026-09-11T16:44:10Z'') \<lparr>degraded = False\<rparr> = Some (Inr rep) \<and>
     CoverageCounts_total (total_sources (totals rep)) = 1 \<and> active_backlog_bytes (totals rep) = 100"
proof -
  let ?now = "lit ''2026-09-11T16:44:10Z''"
  have load: "PassContext_load sample_conn = Inr \<lparr>ctx_sources = [], ctx_current_generation = [],
      ctx_acknowledged = [], ctx_last_captured = []\<rparr>"
    by (simp add: sample_conn_def PassContext_load_def load_sources_def current_generation_by_source_def
        acknowledged_by_generation_def last_captured_by_source_def)
  define rs where "rs = PassContext_measure \<lparr>ctx_sources = [], ctx_current_generation = [],
      ctx_acknowledged = [], ctx_last_captured = []\<rparr> [sample_scan] ?now False"
  have sum: "lane_sum Freshness outstanding_bytes rs = 100" "fits rs"
    by (simp_all add: rs_def PassContext_measure_def Let_def measure_source_def sample_scan_def lane_sum_def fits_def U64_MAX_def)
  have "rs = PassContext_measure \<lparr>ctx_sources = [], ctx_current_generation = [],
      ctx_acknowledged = [], ctx_last_captured = []\<rparr> [sample_scan] ?now (degraded \<lparr>degraded = False\<rparr>)" by (simp add: rs_def)
  from inventory_report_exact [OF load this, of True] sum show ?thesis by auto
qed

text \<open>
  C39. A source is compared with its open generation: whatever rows the generations query
  returns, the generation chosen for a source is its last open one, and only without an open
  generation its last one. With rows ordered by ordinal this is the highest open ordinal.
\<close>

theorem current_generation_prefers_open:
  assumes "current_generation_by_source (Some (map Some rows)) = Inr m"
  shows "map_of m s = map_option (\<lambda>row. fst (snd row)) (chosen_generation rows s)"
proof -
  from assms obtain current where c: "for_rows current_generation_step (map Some rows) [] = Inr current"
    and m: "m = map (\<lambda>(s, (generation, _, _)). (s, generation)) current"
    by (auto simp: current_generation_by_source_def result_simps)
  have "map_of m s = map_option fst (map_of current s)"
    unfolding m by (induction current) auto
  then show ?thesis
    using current_generation_rows [OF c, of s]
    by (cases "chosen_generation rows s") (auto simp: row_entry_def)
qed

theorem current_generation_prefers_open_witness:
  "\<exists>m. current_generation_by_source (Some (map Some
        [(lit ''s'', lit ''g1'', lit ''open'', 1), (lit ''s'', lit ''g2'', lit ''closed'', 2)])) = Inr m \<and>
      map_of m (lit ''s'') = Some (lit ''g1'')"
proof -
  let ?rows = "[(lit ''s'', lit ''g1'', lit ''open'', 1 :: int), (lit ''s'', lit ''g2'', lit ''closed'', 2)]"
  have "current_generation_by_source (Some (map Some ?rows)) = Inr [(lit ''s'', lit ''g1'')]"
    by (simp add: current_generation_by_source_def current_generation_step_def)
  from current_generation_prefers_open [OF this, of "lit ''s''"] this show ?thesis
    by (auto simp: chosen_generation_def last_preferred_def row_open_def)
qed

text \<open>
  C38. Civil dates count days: 1 January 1970 is day 0, and from any valid date of year 0 or
  later the day after it, by the Gregorian month lengths and leap years, has the next number.
  The branch-free conversion of \<open>days_from_civil\<close> is therefore the calendar's day count.
\<close>

theorem days_from_civil_counts_days:
  assumes "y \<ge> 0" "1 \<le> m" "m \<le> 12" "1 \<le> d" "d \<le> month_days y m"
  shows "days_from_civil 1970 1 1 = 0 \<and>
    (\<lambda>(y', m', d'). days_from_civil y' m' d') (next_day (y, m, d)) = days_from_civil y m d + 1"
proof -
  obtain y' m' d' where n: "next_day (y, m, d) = (y', m', d')" by (cases "next_day (y, m, d)")
  have "days_from_civil 1970 1 1 = 0" by (simp add: days_from_civil_eq march_days_def)
  then show ?thesis using days_from_civil_next_day [OF assms n] n by simp
qed

theorem days_from_civil_counts_days_witness:
  "days_from_civil 2024 3 1 = days_from_civil 2024 2 29 + 1"
  using days_from_civil_counts_days [of 2024 2 29]
  by (simp add: month_days_def leap_year_def next_day_def)

end
