(* ===== verification/Scheduler.thy ===== *)
theory Scheduler
  imports Inventory Checked_Arith "HOL-Library.List_Lexorder" "HOL-Library.Sublist" "HOL-Library.Multiset"
begin

text \<open>
  The two-lane scheduler of \<^verbatim>\<open>crates/archivist-client-core/src/scheduler.rs\<close>: the freshness
  reservation pass, the largest-first backfill pass and the planning of one cycle.

  \<^verbatim>\<open>u64\<close> figures are \<open>nat\<close> with checked arithmetic, so that every subtraction and sum of the
  code that could leave the range is an option; \<open>plan\<close> is shown not to. Indices into the
  eligible slice are \<open>nat\<close>, \<^verbatim>\<open>sort_unstable_by\<close> is \<open>sort_key\<close> (on distinct source ids the two
  orders are total, so the unstable sort has one result).
\<close>

section \<open>Limits, grants and plans\<close>

definition TARGET_CHUNK_BYTES :: nat where
  "TARGET_CHUNK_BYTES = 16 * 1024 * 1024"

definition DEFAULT_BACKFILL_QUANTUM_BYTES :: nat where
  "DEFAULT_BACKFILL_QUANTUM_BYTES = 256 * 1024 * 1024"

record SchedulerLimits =
  chunk_bytes :: nat
  backfill_quantum_bytes :: nat

definition plan_defaults :: SchedulerLimits where
  "plan_defaults =
     \<lparr>chunk_bytes = TARGET_CHUNK_BYTES, backfill_quantum_bytes = DEFAULT_BACKFILL_QUANTUM_BYTES\<rparr>"

record DrainLoad =
  drain_load_entries :: nat
  drain_load_bytes :: nat

record ChunkGrant =
  grant_source :: SourceId
  grant_lane :: FreshnessLane
  granted_bytes :: nat
  chunk_count :: nat

record CycleTotals =
  capacity_bytes :: nat
  drain_entries :: nat
  drain_bytes :: nat
  eligible_sources :: nat
  reserved_sources :: nat
  reserved_bytes :: nat
  reserved_chunks :: nat
  backfilled_sources :: nat
  backfill_bytes :: nat
  backfill_chunks :: nat
  planned_bytes :: nat
  short_reservations :: nat
  deferred_sources :: nat

record CyclePlan =
  plan_drain :: DrainLoad
  plan_reservations :: "ChunkGrant list"
  plan_backfill_grants :: "ChunkGrant list"
  plan_totals :: CycleTotals

definition backlog_chunks :: "nat \<Rightarrow> nat \<Rightarrow> nat \<Rightarrow> nat" where
  "backlog_chunks out_bytes out_events chunk =
     (if out_bytes > 0 then div_ceil out_bytes chunk else if out_events > 0 then 1 else 0)"

section \<open>The freshness reservation\<close>

record Reservations =
  res_grants :: "ChunkGrant list"
  res_covered :: "nat list"
  res_bytes :: nat
  res_short :: nat
  res_any_short :: bool

fun reserve_loop :: "SourceInventory list \<Rightarrow> nat \<Rightarrow> nat \<Rightarrow> nat list \<Rightarrow> Reservations \<Rightarrow> Reservations option" where
  "reserve_loop eligible chunk capacity [] r = Some r"
| "reserve_loop eligible chunk capacity (i # is) r =
     (let rec = eligible ! i in
      if res_any_short r then
        Option.bind (u64_add (res_short r) 1) (\<lambda>short.
          reserve_loop eligible chunk capacity is (r\<lparr>res_short := short\<rparr>))
      else
        let grant_bytes = min chunk (outstanding_bytes rec) in
        Option.bind (u64_sub capacity (res_bytes r)) (\<lambda>left.
          if grant_bytes \<le> left then
            Option.bind (u64_add (res_bytes r) grant_bytes) (\<lambda>reserved.
              reserve_loop eligible chunk capacity is
                (r\<lparr>res_bytes := reserved, res_covered := (res_covered r)[i := 1],
                   res_grants := res_grants r @
                     [\<lparr>grant_source = source rec, grant_lane = lane rec,
                       granted_bytes = grant_bytes, chunk_count = 1\<rparr>]\<rparr>))
          else
            Option.bind (u64_add (res_short r) 1) (\<lambda>short.
              reserve_loop eligible chunk capacity is
                (r\<lparr>res_any_short := True, res_short := short\<rparr>))))"

definition freshness_order :: "SourceInventory list \<Rightarrow> nat list" where
  "freshness_order eligible =
     sort_key (\<lambda>i. source (eligible ! i)) (filter (\<lambda>i. lane (eligible ! i) = Freshness) [0..<length eligible])"

definition reserve_freshness :: "SourceInventory list \<Rightarrow> nat \<Rightarrow> nat \<Rightarrow> Reservations option" where
  "reserve_freshness eligible chunk capacity =
     reserve_loop eligible chunk capacity (freshness_order eligible)
       \<lparr>res_grants = [], res_covered = replicate (length eligible) 0, res_bytes = 0, res_short = 0,
        res_any_short = False\<rparr>"

section \<open>The backfill pass\<close>

text \<open>
  The ranking of the backfill comparator: more outstanding bytes first, then more events, then
  the smaller source id.
\<close>

datatype backlog_rank = Rank (rank_bytes: nat) (rank_events: nat) (rank_source: SourceId)

instantiation backlog_rank :: linorder
begin

definition less_eq_backlog_rank :: "backlog_rank \<Rightarrow> backlog_rank \<Rightarrow> bool" where
  "a \<le> b \<longleftrightarrow> rank_bytes a > rank_bytes b \<or> (rank_bytes a = rank_bytes b \<and>
     (rank_events a > rank_events b \<or> (rank_events a = rank_events b \<and> rank_source a \<le> rank_source b)))"

definition less_backlog_rank :: "backlog_rank \<Rightarrow> backlog_rank \<Rightarrow> bool" where
  "a < b \<longleftrightarrow> rank_bytes a > rank_bytes b \<or> (rank_bytes a = rank_bytes b \<and>
     (rank_events a > rank_events b \<or> (rank_events a = rank_events b \<and> rank_source a < rank_source b)))"

instance
  by standard (auto simp: less_eq_backlog_rank_def less_backlog_rank_def backlog_rank.expand)

end

definition rank_of :: "SourceInventory \<Rightarrow> backlog_rank" where
  "rank_of r = Rank (outstanding_bytes r) (outstanding_events r) (source r)"

definition backfill_order :: "SourceInventory list \<Rightarrow> nat list" where
  "backfill_order eligible = sort_key (\<lambda>i. rank_of (eligible ! i)) [0..<length eligible]"

record BackfillState =
  bf_grants :: "ChunkGrant list"
  bf_deferred :: nat
  bf_spent :: nat

fun backfill_loop ::
  "SourceInventory list \<Rightarrow> nat list \<Rightarrow> nat \<Rightarrow> nat \<Rightarrow> nat \<Rightarrow> bool \<Rightarrow> nat list \<Rightarrow> BackfillState \<Rightarrow> BackfillState option" where
  "backfill_loop eligible covered chunk budget_chunks capacity is_open [] st = Some st"
| "backfill_loop eligible covered chunk budget_chunks capacity is_open (i # is) st =
     (let rec = eligible ! i;
          continue = backfill_loop eligible covered chunk budget_chunks capacity is_open is;
          total_chunks = backlog_chunks (outstanding_bytes rec) (outstanding_events rec) chunk;
          residual_chunks = saturating_sub total_chunks (covered ! i)
      in if residual_chunks = 0 then continue st
         else if \<not> is_open then
           Option.bind (u64_add (bf_deferred st) 1) (\<lambda>d. continue (st\<lparr>bf_deferred := d\<rparr>))
         else
           let reserved_here = (if covered ! i > 0 then min chunk (outstanding_bytes rec) else 0) in
           Option.bind (u64_sub (outstanding_bytes rec) reserved_here) (\<lambda>residual_bytes.
             let g0 = min (min residual_chunks budget_chunks)
                        (saturating_sub capacity (bf_spent st) div chunk);
                 g = (if g0 = 0 \<and> residual_bytes = 0 \<and> budget_chunks > 0
                      then min residual_chunks budget_chunks else g0)
             in if g = 0 then
                  Option.bind (u64_add (bf_deferred st) 1) (\<lambda>d. continue (st\<lparr>bf_deferred := d\<rparr>))
                else
                  let grant_bytes = min residual_bytes (saturating_mul g chunk) in
                  Option.bind (u64_add (bf_spent st) grant_bytes) (\<lambda>spent.
                    continue (st\<lparr>bf_spent := spent,
                                 bf_grants := bf_grants st @
                                   [\<lparr>grant_source = source rec, grant_lane = lane rec,
                                     granted_bytes = grant_bytes, chunk_count = g\<rparr>]\<rparr>))))"

definition plan_backfill ::
  "SourceInventory list \<Rightarrow> nat list \<Rightarrow> nat \<Rightarrow> nat \<Rightarrow> nat \<Rightarrow> bool \<Rightarrow> (ChunkGrant list \<times> nat) option" where
  "plan_backfill eligible covered chunk quantum capacity is_open =
     map_option (\<lambda>st. (bf_grants st, bf_deferred st))
       (backfill_loop eligible covered chunk (quantum div chunk) capacity is_open (backfill_order eligible)
         \<lparr>bf_grants = [], bf_deferred = 0, bf_spent = 0\<rparr>)"

section \<open>One cycle\<close>

definition eligible_of :: "SourceInventory list \<Rightarrow> SourceInventory list" where
  "eligible_of srcs =
     filter (\<lambda>r. outstanding_bytes r > 0 \<or> outstanding_events r > 0)
       (filter (\<lambda>r. anomaly r = None) (filter (\<lambda>r. classification r = Ok) srcs))"

definition count_of :: "nat \<Rightarrow> nat" where
  "count_of n = (if n \<le> U64_MAX then n else U64_MAX)"

definition plan :: "SourceInventory list \<Rightarrow> DrainLoad \<Rightarrow> nat \<Rightarrow> SchedulerLimits \<Rightarrow> CyclePlan option" where
  "plan srcs pending_spool capacity limits =
     (let chunk = max (chunk_bytes limits) 1;
          quantum = backfill_quantum_bytes limits;
          eligible = eligible_of srcs
      in Option.bind (reserve_freshness eligible chunk capacity) (\<lambda>fresh.
         Option.bind (u64_sub capacity (res_bytes fresh)) (\<lambda>left.
         Option.bind (plan_backfill eligible (res_covered fresh) chunk quantum left (\<not> res_any_short fresh))
           (\<lambda>(backfill, deferred).
         Option.bind (u64_sum (map chunk_count (res_grants fresh))) (\<lambda>r_chunks.
         Option.bind (u64_sum (map granted_bytes backfill)) (\<lambda>b_bytes.
         Option.bind (u64_sum (map chunk_count backfill)) (\<lambda>b_chunks.
         Option.bind (u64_add (res_bytes fresh) b_bytes) (\<lambda>planned.
           Some \<lparr>plan_drain = pending_spool, plan_reservations = res_grants fresh,
                 plan_backfill_grants = backfill,
                 plan_totals =
                   \<lparr>capacity_bytes = capacity, drain_entries = drain_load_entries pending_spool,
                    drain_bytes = drain_load_bytes pending_spool,
                    eligible_sources = count_of (length eligible),
                    reserved_sources = count_of (length (res_grants fresh)),
                    reserved_bytes = res_bytes fresh, reserved_chunks = r_chunks,
                    backfilled_sources = count_of (length backfill), backfill_bytes = b_bytes,
                    backfill_chunks = b_chunks, planned_bytes = planned,
                    short_reservations = res_short fresh, deferred_sources = deferred\<rparr>\<rparr>))))))))"

section \<open>The reservation pass grants the longest prefix that fits\<close>

fun admitted :: "nat \<Rightarrow> ('a \<Rightarrow> nat) \<Rightarrow> 'a list \<Rightarrow> 'a list" where
  "admitted left g [] = []"
| "admitted left g (i # is) = (if g i \<le> left then i # admitted (left - g i) g is else [])"

lemma sum_admitted: "sum_list (map g (admitted left g is)) \<le> left"
  by (induction left g "is" rule: admitted.induct) auto

lemma admitted_prefix: "\<exists>rest. is = admitted left g is @ rest"
  by (induction left g "is" rule: admitted.induct) auto

lemma length_admitted: "length (admitted left g is) \<le> length is"
  using admitted_prefix [of "is" left g] by (metis le_add1 length_append)

definition reserve_bytes :: "SourceInventory list \<Rightarrow> nat \<Rightarrow> nat \<Rightarrow> nat" where
  "reserve_bytes eligible chunk i = min chunk (outstanding_bytes (eligible ! i))"

definition reserve_grant :: "SourceInventory list \<Rightarrow> nat \<Rightarrow> nat \<Rightarrow> ChunkGrant" where
  "reserve_grant eligible chunk i =
     \<lparr>grant_source = source (eligible ! i), grant_lane = lane (eligible ! i),
      granted_bytes = reserve_bytes eligible chunk i, chunk_count = 1\<rparr>"

lemma reserve_loop_short:
  "res_any_short r \<Longrightarrow> res_short r + length is \<le> U64_MAX \<Longrightarrow>
   reserve_loop eligible chunk capacity is r = Some (r\<lparr>res_short := res_short r + length is\<rparr>)"
  by (induction "is" arbitrary: r) simp_all

lemma reserve_loop_eq:
  assumes "\<not> res_any_short r" "res_bytes r \<le> capacity" "capacity \<le> U64_MAX"
    "res_short r + length is \<le> U64_MAX"
  shows "reserve_loop eligible chunk capacity is r =
    (let adm = admitted (capacity - res_bytes r) (reserve_bytes eligible chunk) is in
     Some (r\<lparr>res_bytes := res_bytes r + sum_list (map (reserve_bytes eligible chunk) adm),
             res_covered := fold (\<lambda>i c. c[i := 1]) adm (res_covered r),
             res_grants := res_grants r @ map (reserve_grant eligible chunk) adm,
             res_short := res_short r + (length is - length adm),
             res_any_short := (length adm < length is)\<rparr>))"
  using assms
proof (induction "is" arbitrary: r)
  case (Cons i "is")
  let ?g = "reserve_bytes eligible chunk i"
  show ?case
  proof (cases "?g \<le> capacity - res_bytes r")
    case True
    let ?r = "r\<lparr>res_bytes := res_bytes r + ?g, res_covered := (res_covered r)[i := 1],
      res_grants := res_grants r @ [reserve_grant eligible chunk i]\<rparr>"
    have "reserve_loop eligible chunk capacity (i # is) r = reserve_loop eligible chunk capacity is ?r"
      using Cons.prems True by (simp add: reserve_grant_def reserve_bytes_def Let_def)
    also have "\<dots> = (let adm = admitted (capacity - res_bytes ?r) (reserve_bytes eligible chunk) is in
       Some (?r\<lparr>res_bytes := res_bytes ?r + sum_list (map (reserve_bytes eligible chunk) adm),
             res_covered := fold (\<lambda>i c. c[i := 1]) adm (res_covered ?r),
             res_grants := res_grants ?r @ map (reserve_grant eligible chunk) adm,
             res_short := res_short ?r + (length is - length adm),
             res_any_short := (length adm < length is)\<rparr>))"
      by (rule Cons.IH) (use Cons.prems True in auto)
    finally show ?thesis using True by (simp add: Let_def)
  next
    case False
    have "reserve_loop eligible chunk capacity (i # is) r =
        reserve_loop eligible chunk capacity is (r\<lparr>res_any_short := True, res_short := res_short r + 1\<rparr>)"
      using Cons.prems False by (simp add: reserve_bytes_def Let_def)
    also have "\<dots> = Some (r\<lparr>res_any_short := True, res_short := res_short r + 1 + length is\<rparr>)"
      using Cons.prems by (subst reserve_loop_short) simp_all
    finally show ?thesis using False by (simp add: Let_def)
  qed
qed (simp add: Let_def)

definition reserved_order :: "SourceInventory list \<Rightarrow> nat \<Rightarrow> nat \<Rightarrow> nat list" where
  "reserved_order eligible chunk capacity =
     admitted capacity (reserve_bytes eligible chunk) (freshness_order eligible)"

lemma freshness_order_facts:
  "distinct (freshness_order eligible)"
  "set (freshness_order eligible) = {i. i < length eligible \<and> lane (eligible ! i) = Freshness}"
  "length (freshness_order eligible) \<le> length eligible"
proof -
  show "distinct (freshness_order eligible)" by (simp add: freshness_order_def)
  show s: "set (freshness_order eligible) = {i. i < length eligible \<and> lane (eligible ! i) = Freshness}"
    by (auto simp: freshness_order_def)
  have "length (filter (\<lambda>i. lane (eligible ! i) = Freshness) [0..<length eligible]) \<le> length [0..<length eligible]"
    by (rule length_filter_le)
  then show "length (freshness_order eligible) \<le> length eligible" by (simp add: freshness_order_def)
qed

lemma reserved_order_subset:
  "set (reserved_order eligible chunk capacity) \<subseteq> {i. i < length eligible \<and> lane (eligible ! i) = Freshness}"
proof -
  obtain rest where "freshness_order eligible = reserved_order eligible chunk capacity @ rest"
    using admitted_prefix unfolding reserved_order_def by blast
  then show ?thesis using freshness_order_facts(2) [of eligible] by auto
qed

lemma reserve_freshness_eq:
  assumes "capacity + length eligible \<le> U64_MAX"
  shows "reserve_freshness eligible chunk capacity =
    (let adm = reserved_order eligible chunk capacity in
     Some \<lparr>res_grants = map (reserve_grant eligible chunk) adm,
           res_covered = map (\<lambda>i. if i \<in> set adm then 1 else 0) [0..<length eligible],
           res_bytes = sum_list (map (reserve_bytes eligible chunk) adm),
           res_short = length (freshness_order eligible) - length adm,
           res_any_short = (length adm < length (freshness_order eligible))\<rparr>)"
proof -
  let ?adm = "reserved_order eligible chunk capacity"
  have upd: "fold (\<lambda>i c. c[i := 1]) is c = map (\<lambda>i. if i \<in> set is then 1 else c ! i) [0..<length c]"
    for "is" :: "nat list" and c :: "nat list"
    by (induction "is" arbitrary: c) (auto simp: map_nth intro!: nth_equalityI simp: nth_list_update)
  have "fold (\<lambda>i c. c[i := 1]) ?adm (replicate (length eligible) (0 :: nat)) =
      map (\<lambda>i. if i \<in> set ?adm then 1 else 0) [0..<length eligible]"
    using upd [of ?adm "replicate (length eligible) 0"] by (auto cong: map_cong)
  then show ?thesis
    using assms freshness_order_facts(3) [of eligible]
    unfolding reserve_freshness_def by (subst reserve_loop_eq) (simp_all add: Let_def reserved_order_def)
qed

section \<open>What the backfill pass spends\<close>

definition residual_chunks_of :: "SourceInventory list \<Rightarrow> nat list \<Rightarrow> nat \<Rightarrow> nat \<Rightarrow> nat" where
  "residual_chunks_of eligible covered chunk i =
     backlog_chunks (outstanding_bytes (eligible ! i)) (outstanding_events (eligible ! i)) chunk - covered ! i"

definition residual_bytes_of :: "SourceInventory list \<Rightarrow> nat list \<Rightarrow> nat \<Rightarrow> nat \<Rightarrow> nat" where
  "residual_bytes_of eligible covered chunk i =
     outstanding_bytes (eligible ! i) - (if covered ! i > 0 then reserve_bytes eligible chunk i else 0)"

definition backfill_ok ::
  "SourceInventory list \<Rightarrow> nat list \<Rightarrow> nat \<Rightarrow> nat \<Rightarrow> nat \<Rightarrow> ChunkGrant \<Rightarrow> bool" where
  "backfill_ok eligible covered chunk budget i g \<longleftrightarrow>
     grant_source g = source (eligible ! i) \<and> grant_lane g = lane (eligible ! i) \<and>
     0 < chunk_count g \<and> chunk_count g \<le> budget \<and>
     chunk_count g \<le> residual_chunks_of eligible covered chunk i \<and>
     granted_bytes g = min (residual_bytes_of eligible covered chunk i) (chunk_count g * chunk)"

definition spends :: "SourceInventory list \<Rightarrow> nat list \<Rightarrow> nat \<Rightarrow> nat \<Rightarrow> nat \<Rightarrow> nat list \<Rightarrow>
    BackfillState \<Rightarrow> BackfillState \<Rightarrow> bool" where
  "spends eligible covered chunk budget capacity is st st' \<longleftrightarrow>
     (\<exists>js gs. bf_grants st' = bf_grants st @ gs \<and> subseq js is \<and>
        list_all2 (backfill_ok eligible covered chunk budget) js gs \<and>
        bf_spent st' = bf_spent st + sum_list (map granted_bytes gs) \<and> bf_spent st' \<le> capacity \<and>
        bf_deferred st' + length gs =
          bf_deferred st + length (filter (\<lambda>i. residual_chunks_of eligible covered chunk i > 0) is))"

definition grant_chunks_of ::
  "SourceInventory list \<Rightarrow> nat list \<Rightarrow> nat \<Rightarrow> nat \<Rightarrow> nat \<Rightarrow> nat \<Rightarrow> nat" where
  "grant_chunks_of eligible covered chunk budget left i =
     (let rc = residual_chunks_of eligible covered chunk i; g0 = min (min rc budget) (left div chunk)
      in if g0 = 0 \<and> residual_bytes_of eligible covered chunk i = 0 \<and> budget > 0 then min rc budget else g0)"

definition backfill_grant :: "SourceInventory list \<Rightarrow> nat list \<Rightarrow> nat \<Rightarrow> nat \<Rightarrow> nat \<Rightarrow> ChunkGrant" where
  "backfill_grant eligible covered chunk i g =
     \<lparr>grant_source = source (eligible ! i), grant_lane = lane (eligible ! i),
      granted_bytes = min (residual_bytes_of eligible covered chunk i) (saturating_mul g chunk),
      chunk_count = g\<rparr>"

declare backfill_loop.simps(2) [simp del]

lemma backfill_loop_Cons:
  "backfill_loop eligible covered chunk budget capacity True (i # is) st =
     (let g = grant_chunks_of eligible covered chunk budget (capacity - bf_spent st) i;
          gr = backfill_grant eligible covered chunk i g;
          continue = backfill_loop eligible covered chunk budget capacity True is
      in if residual_chunks_of eligible covered chunk i = 0 then continue st
         else if g = 0 then
           Option.bind (u64_add (bf_deferred st) 1) (\<lambda>d. continue (st\<lparr>bf_deferred := d\<rparr>))
         else
           Option.bind (u64_add (bf_spent st) (granted_bytes gr)) (\<lambda>spent.
             continue (st\<lparr>bf_spent := spent, bf_grants := bf_grants st @ [gr]\<rparr>)))"
proof -
  have "u64_sub (outstanding_bytes (eligible ! i))
      (if covered ! i > 0 then min chunk (outstanding_bytes (eligible ! i)) else 0) =
      Some (residual_bytes_of eligible covered chunk i)"
    by (auto simp: residual_bytes_of_def reserve_bytes_def)
  then show ?thesis
    by (simp only: backfill_loop.simps Let_def saturating_sub_def residual_chunks_of_def grant_chunks_of_def
        backfill_grant_def Option.bind.bind_lunit simp_thms if_False ChunkGrant.simps)
qed

lemma grant_fits:
  assumes "chunk > 0" "g = grant_chunks_of eligible covered chunk budget left i"
  shows "granted_bytes (backfill_grant eligible covered chunk i g) \<le> left"
proof (cases "residual_bytes_of eligible covered chunk i = 0")
  case False
  then have "g \<le> left div chunk" by (simp add: assms(2) grant_chunks_of_def Let_def)
  then have "g * chunk \<le> left div chunk * chunk" by simp
  also have "\<dots> \<le> left" by simp
  finally show ?thesis by (simp add: backfill_grant_def saturating_mul_def)
qed (simp add: backfill_grant_def)

lemma grant_ok:
  assumes "g = grant_chunks_of eligible covered chunk budget left i" "g > 0"
    "outstanding_bytes (eligible ! i) \<le> U64_MAX"
  shows "backfill_ok eligible covered chunk budget i (backfill_grant eligible covered chunk i g)"
proof -
  have "residual_bytes_of eligible covered chunk i \<le> U64_MAX"
    using assms(3) by (auto simp: residual_bytes_of_def)
  moreover have "g \<le> budget" "g \<le> residual_chunks_of eligible covered chunk i"
    by (auto simp: assms(1) grant_chunks_of_def Let_def)
  ultimately show ?thesis
    using assms(2) by (simp add: backfill_ok_def backfill_grant_def saturating_mul_def)
qed

lemma spends_skip:
  "spends eligible covered chunk budget capacity is st st' \<Longrightarrow> residual_chunks_of eligible covered chunk i = 0 \<Longrightarrow>
   spends eligible covered chunk budget capacity (i # is) st st'"
  unfolding spends_def by (auto intro: list_emb_Cons)

lemma spends_wait:
  "spends eligible covered chunk budget capacity is (st\<lparr>bf_deferred := bf_deferred st + 1\<rparr>) st' \<Longrightarrow>
   residual_chunks_of eligible covered chunk i > 0 \<Longrightarrow>
   spends eligible covered chunk budget capacity (i # is) st st'"
  unfolding spends_def by (auto intro: list_emb_Cons)

lemma spends_grant:
  assumes "spends eligible covered chunk budget capacity is
      (st\<lparr>bf_spent := bf_spent st + granted_bytes gr, bf_grants := bf_grants st @ [gr]\<rparr>) st'"
    and "residual_chunks_of eligible covered chunk i > 0" "backfill_ok eligible covered chunk budget i gr"
  shows "spends eligible covered chunk budget capacity (i # is) st st'"
proof -
  from assms(1) obtain js gs where "bf_grants st' = bf_grants st @ gr # gs" "subseq js is"
    "list_all2 (backfill_ok eligible covered chunk budget) js gs"
    "bf_spent st' = bf_spent st + granted_bytes gr + sum_list (map granted_bytes gs)" "bf_spent st' \<le> capacity"
    "bf_deferred st' + length gs =
       bf_deferred st + length (filter (\<lambda>i. residual_chunks_of eligible covered chunk i > 0) is)"
    by (auto simp: spends_def)
  then show ?thesis
    using assms(2,3) unfolding spends_def
    by (intro exI [of _ "i # js"] exI [of _ "gr # gs"]) simp
qed

lemma backfill_loop_spends:
  assumes "chunk > 0" "bf_spent st \<le> capacity" "capacity \<le> U64_MAX" "bf_deferred st + length is \<le> U64_MAX"
    "\<forall>i\<in>set is. outstanding_bytes (eligible ! i) \<le> U64_MAX"
  shows "\<exists>st'. backfill_loop eligible covered chunk budget capacity True is st = Some st' \<and>
    spends eligible covered chunk budget capacity is st st'"
  using assms(2-)
proof (induction "is" arbitrary: st)
  case Nil
  then show ?case by (auto simp: spends_def intro: exI [of _ "[]"])
next
  case (Cons i "is")
  define g where "g = grant_chunks_of eligible covered chunk budget (capacity - bf_spent st) i"
  let ?gr = "backfill_grant eligible covered chunk i g"
  note step = backfill_loop_Cons [of eligible covered chunk budget capacity i "is" st, folded g_def]
  show ?case
  proof (cases "residual_chunks_of eligible covered chunk i = 0")
    case True
    obtain st' where "backfill_loop eligible covered chunk budget capacity True is st = Some st'"
      "spends eligible covered chunk budget capacity is st st'"
      using Cons.IH [of st] Cons.prems by auto
    then show ?thesis using spends_skip True step by (simp add: Let_def)
  next
    case rc: False
    show ?thesis
    proof (cases "g = 0")
      case True
      obtain st' where "backfill_loop eligible covered chunk budget capacity True is
          (st\<lparr>bf_deferred := bf_deferred st + 1\<rparr>) = Some st'"
        and "spends eligible covered chunk budget capacity is (st\<lparr>bf_deferred := bf_deferred st + 1\<rparr>) st'"
        using Cons.IH [of "st\<lparr>bf_deferred := bf_deferred st + 1\<rparr>"] Cons.prems by auto
      then show ?thesis
        using spends_wait [of eligible covered chunk budget capacity "is" st st' i] rc True step Cons.prems(3)
        by (simp add: Let_def)
    next
      case False
      let ?st = "st\<lparr>bf_spent := bf_spent st + granted_bytes ?gr, bf_grants := bf_grants st @ [?gr]\<rparr>"
      have fit: "bf_spent st + granted_bytes ?gr \<le> capacity"
        using grant_fits [OF assms(1) g_def] Cons.prems(1) by simp
      have ok: "backfill_ok eligible covered chunk budget i ?gr"
        using grant_ok [OF g_def] False Cons.prems by simp
      obtain st' where "backfill_loop eligible covered chunk budget capacity True is ?st = Some st'"
        and "spends eligible covered chunk budget capacity is ?st st'"
        using Cons.IH [of ?st] Cons.prems fit by auto
      then show ?thesis
        using spends_grant [OF _ _ ok, of capacity "is" st st'] rc False step Cons.prems fit
        by (simp add: Let_def)
    qed
  qed
qed

lemma backfill_loop_closed:
  assumes "bf_deferred st + length is \<le> U64_MAX"
  shows "\<exists>d. backfill_loop eligible covered chunk budget capacity False is st = Some (st\<lparr>bf_deferred := d\<rparr>) \<and>
    d = bf_deferred st + length (filter (\<lambda>i. residual_chunks_of eligible covered chunk i > 0) is)"
  using assms
proof (induction "is" arbitrary: st)
  case (Cons i "is")
  show ?case
  proof (cases "residual_chunks_of eligible covered chunk i = 0")
    case True
    then show ?thesis
      using Cons.IH [of st] Cons.prems
      by (simp add: backfill_loop.simps Let_def saturating_sub_def residual_chunks_of_def)
  next
    case False
    then show ?thesis
      using Cons.IH [of "st\<lparr>bf_deferred := bf_deferred st + 1\<rparr>"] Cons.prems
      by (simp add: backfill_loop.simps Let_def saturating_sub_def residual_chunks_of_def)
  qed
qed simp

section \<open>The plan\<close>

lemma backfill_order_facts:
  "distinct (backfill_order eligible)" "set (backfill_order eligible) = {..<length eligible}"
  "length (backfill_order eligible) = length eligible"
  by (auto simp: backfill_order_def)

lemma residual_chunks_le:
  assumes "chunk > 0" "covered ! i \<le> 1" "0 < n" "n \<le> residual_chunks_of eligible covered chunk i"
  shows "n \<le> residual_bytes_of eligible covered chunk i + 1"
    and "residual_bytes_of eligible covered chunk i > 0 \<Longrightarrow> n \<le> residual_bytes_of eligible covered chunk i"
proof -
  let ?ob = "outstanding_bytes (eligible ! i)"
  have pos: "m \<le> m * chunk" for m using assms(1) by (cases chunk) simp_all
  have "n \<le> residual_bytes_of eligible covered chunk i" if ob: "?ob > 0"
  proof -
    have "n - 1 + covered ! i < div_ceil ?ob chunk"
      using assms(3,4) ob by (simp add: residual_chunks_of_def backlog_chunks_def)
    then have *: "(n - 1 + covered ! i) * chunk < ?ob" by (rule div_ceil_less [OF assms(1)])
    show ?thesis
    proof (cases "covered ! i = 0")
      case True
      have "n - 1 < ?ob" using order.strict_trans1 [OF pos [of "n - 1"]] * True by simp
      then show ?thesis using True by (simp add: residual_bytes_of_def)
    next
      case False
      then have c: "covered ! i = 1" using assms(2) by simp
      have "(n - 1) * chunk + chunk < ?ob" using * c by (simp add: algebra_simps)
      then have "n - 1 < ?ob - chunk" "chunk < ?ob" using pos [of "n - 1"] by linarith+
      then show ?thesis using c assms(3) by (simp add: residual_bytes_of_def reserve_bytes_def)
    qed
  qed
  moreover have "n \<le> 1" if "?ob = 0"
    using assms(4) that by (simp add: residual_chunks_of_def backlog_chunks_def split: if_splits)
  ultimately show "n \<le> residual_bytes_of eligible covered chunk i + 1"
    "residual_bytes_of eligible covered chunk i > 0 \<Longrightarrow> n \<le> residual_bytes_of eligible covered chunk i"
    by (cases "?ob = 0"; force simp: residual_bytes_of_def)+
qed

lemma backfill_ok_chunks:
  assumes "backfill_ok eligible covered chunk budget i g" "chunk > 0" "covered ! i \<le> 1"
  shows "chunk_count g \<le> granted_bytes g + 1"
proof -
  have "chunk_count g \<le> chunk_count g * chunk" using assms(2) by (cases chunk) simp_all
  then have "chunk_count g \<le> chunk_count g * chunk + 1" by (rule trans_le_add1)
  then show ?thesis
    using residual_chunks_le [OF assms(2,3), of "chunk_count g" eligible] assms(1)
    by (auto simp: backfill_ok_def min_def)
qed

lemma backfill_ok_quantum:
  assumes "backfill_ok eligible covered chunk (quantum div chunk) i g"
  shows "granted_bytes g \<le> quantum"
proof -
  have "chunk_count g * chunk \<le> quantum div chunk * chunk" using assms by (simp add: backfill_ok_def)
  also have "\<dots> \<le> quantum" by simp
  finally show ?thesis using assms by (simp add: backfill_ok_def)
qed

lemma sum_chunk_counts:
  assumes "list_all2 P js gs" "\<And>i g. i \<in> set js \<Longrightarrow> P i g \<Longrightarrow> chunk_count g \<le> granted_bytes g + 1"
  shows "sum_list (map chunk_count gs) \<le> sum_list (map granted_bytes gs) + length gs"
  using assms by (induction rule: list_all2_induct) fastforce+

definition covered_of :: "SourceInventory list \<Rightarrow> nat list \<Rightarrow> nat list" where
  "covered_of eligible adm = map (\<lambda>i. if i \<in> set adm then 1 else 0) [0..<length eligible]"

text \<open>What a plan consists of, over the indices of the eligible sources.\<close>

definition plan_shape ::
  "SourceInventory list \<Rightarrow> nat \<Rightarrow> nat \<Rightarrow> nat \<Rightarrow> CyclePlan \<Rightarrow> nat list \<Rightarrow> bool" where
  "plan_shape eligible chunk quantum capacity p js \<longleftrightarrow>
     (let adm = reserved_order eligible chunk capacity; fresh = freshness_order eligible;
          short = length fresh - length adm in
      plan_reservations p = map (reserve_grant eligible chunk) adm \<and>
      short_reservations (plan_totals p) = short \<and>
      reserved_bytes (plan_totals p) = sum_list (map granted_bytes (plan_reservations p)) \<and>
      backfill_bytes (plan_totals p) = sum_list (map granted_bytes (plan_backfill_grants p)) \<and>
      planned_bytes (plan_totals p) = reserved_bytes (plan_totals p) + backfill_bytes (plan_totals p) \<and>
      planned_bytes (plan_totals p) \<le> capacity \<and>
      (short > 0 \<longrightarrow> plan_backfill_grants p = []) \<and>
      subseq js (backfill_order eligible) \<and>
      list_all2 (backfill_ok eligible (covered_of eligible adm) chunk (quantum div chunk)) js (plan_backfill_grants p))"

lemma plan_by_parts:
  fixes limits :: SchedulerLimits and srcs :: "SourceInventory list"
  defines "chunk \<equiv> max (chunk_bytes limits) 1" and "quantum \<equiv> backfill_quantum_bytes limits" and "el \<equiv> eligible_of srcs"
  assumes fresh: "reserve_freshness el chunk capacity =
      Some \<lparr>res_grants = map (reserve_grant el chunk) adm, res_covered = cov, res_bytes = rb, res_short = short, res_any_short = any\<rparr>"
    and loop: "backfill_loop el cov chunk (quantum div chunk) (capacity - rb) (\<not> any) (backfill_order el)
        \<lparr>bf_grants = [], bf_deferred = 0, bf_spent = 0\<rparr> = Some st'"
    and le: "rb \<le> capacity" "length adm \<le> U64_MAX" "sum_list (map granted_bytes (bf_grants st')) \<le> U64_MAX"
      "sum_list (map chunk_count (bf_grants st')) \<le> U64_MAX" "rb + sum_list (map granted_bytes (bf_grants st')) \<le> U64_MAX"
  shows "\<exists>t. plan srcs dl capacity limits = Some \<lparr>plan_drain = dl,
      plan_reservations = map (reserve_grant el chunk) adm, plan_backfill_grants = bf_grants st', plan_totals = t\<rparr> \<and>
    reserved_bytes t = rb \<and> backfill_bytes t = sum_list (map granted_bytes (bf_grants st')) \<and>
    planned_bytes t = rb + sum_list (map granted_bytes (bf_grants st')) \<and> short_reservations t = short"
proof -
  have "map chunk_count (map (reserve_grant el chunk) adm) = replicate (length adm) 1"
    by (simp add: reserve_grant_def map_replicate_const comp_def)
  then have "u64_sum (map chunk_count (map (reserve_grant el chunk) adm)) = Some (length adm)"
    using le(2) by (simp add: sum_list_replicate)
  then show ?thesis
    unfolding plan_def Let_def chunk_def [symmetric] quantum_def [symmetric] el_def [symmetric] fresh
    using le loop by (simp add: plan_backfill_def)
qed

lemma backfill_total:
  fixes eligible :: "SourceInventory list" and chunk budget left :: nat
  assumes len: "left + length eligible \<le> U64_MAX" and u64: "\<forall>r\<in>set eligible. outstanding_bytes r \<le> U64_MAX"
    and chunk: "chunk > 0" and cov: "\<And>i. i < length eligible \<Longrightarrow> covered ! i \<le> 1"
  shows "\<exists>st' js. backfill_loop eligible covered chunk budget left is_open (backfill_order eligible)
        \<lparr>bf_grants = [], bf_deferred = 0, bf_spent = 0\<rparr> = Some st' \<and>
      subseq js (backfill_order eligible) \<and>
      list_all2 (backfill_ok eligible covered chunk budget) js (bf_grants st') \<and>
      sum_list (map granted_bytes (bf_grants st')) \<le> left \<and>
      sum_list (map chunk_count (bf_grants st')) \<le> U64_MAX \<and> (\<not> is_open \<longrightarrow> bf_grants st' = [])"
    (is "\<exists>st' js. ?loop is_open = Some st' \<and> ?Q st' js")
proof (cases is_open)
  case False
  then show ?thesis
    using backfill_loop_closed [of "\<lparr>bf_grants = [], bf_deferred = 0, bf_spent = 0\<rparr>" "backfill_order eligible"
        eligible covered chunk budget left] len by (auto simp: backfill_order_facts)
next
  case True
  have "\<forall>i\<in>set (backfill_order eligible). outstanding_bytes (eligible ! i) \<le> U64_MAX"
    using u64 by (simp add: backfill_order_facts)
  then obtain st' js where *: "?loop True = Some st'" "subseq js (backfill_order eligible)"
      "list_all2 (backfill_ok eligible covered chunk budget) js (bf_grants st')"
      "sum_list (map granted_bytes (bf_grants st')) \<le> left"
    using backfill_loop_spends [of chunk "\<lparr>bf_grants = [], bf_deferred = 0, bf_spent = 0\<rparr>" left
        "backfill_order eligible" eligible covered budget] chunk len
    by (auto simp: spends_def backfill_order_facts)
  have "length (bf_grants st') \<le> length eligible"
    using list_all2_lengthD [OF *(3)] list_emb_length [OF *(2)] by (simp add: backfill_order_facts)
  moreover have "covered ! i \<le> 1" if "i \<in> set js" for i
    using that list_emb_set [OF *(2), of i] cov by (auto simp: backfill_order_facts)
  then have "sum_list (map chunk_count (bf_grants st')) \<le> sum_list (map granted_bytes (bf_grants st')) + length (bf_grants st')"
    using chunk by (intro sum_chunk_counts [OF *(3)]) (rule backfill_ok_chunks)
  ultimately show ?thesis
    using * len True by (intro exI [of _ st'] exI [of _ js]) simp
qed

lemma length_eligible: "length (eligible_of srcs) \<le> length srcs"
  unfolding eligible_of_def by (rule order_trans [OF length_filter_le])+ simp

lemma set_eligible: "set (eligible_of srcs) \<subseteq> set srcs"
  by (auto simp: eligible_of_def)

lemma plan_has_shape:
  assumes room: "capacity + length srcs \<le> U64_MAX" and u64: "\<forall>r\<in>set srcs. outstanding_bytes r \<le> U64_MAX"
  shows "\<exists>p js. plan srcs dl capacity limits = Some p \<and> plan_drain p = dl \<and>
    plan_shape (eligible_of srcs) (max (chunk_bytes limits) 1) (backfill_quantum_bytes limits) capacity p js"
proof -
  define el where "el = eligible_of srcs"
  define chunk where "chunk = max (chunk_bytes limits) 1"
  define quantum where "quantum = backfill_quantum_bytes limits"
  define adm where "adm = reserved_order el chunk capacity"
  define rb where "rb = sum_list (map (reserve_bytes el chunk) adm)"
  define short where "short = length (freshness_order el) - length adm"
  define any where "any \<longleftrightarrow> length adm < length (freshness_order el)"
  have room': "capacity + length el \<le> U64_MAX" using room length_eligible [of srcs] by (simp add: el_def)
  have rb: "rb \<le> capacity" unfolding rb_def adm_def reserved_order_def by (rule sum_admitted)
  have "length adm \<le> length (freshness_order el)" "length (freshness_order el) \<le> length el"
    unfolding adm_def reserved_order_def by (rule length_admitted) (rule freshness_order_facts(3))
  then have len: "length adm \<le> U64_MAX" using room' by simp
  have fresh: "reserve_freshness el chunk capacity = Some \<lparr>res_grants = map (reserve_grant el chunk) adm,
      res_covered = covered_of el adm, res_bytes = rb, res_short = short, res_any_short = any\<rparr>"
    by (simp only: reserve_freshness_eq [OF room'] Let_def adm_def covered_of_def rb_def short_def any_def)
  have "\<exists>st' js. backfill_loop el (covered_of el adm) chunk (quantum div chunk) (capacity - rb) (\<not> any) (backfill_order el)
        \<lparr>bf_grants = [], bf_deferred = 0, bf_spent = 0\<rparr> = Some st' \<and>
      subseq js (backfill_order el) \<and>
      list_all2 (backfill_ok el (covered_of el adm) chunk (quantum div chunk)) js (bf_grants st') \<and>
      sum_list (map granted_bytes (bf_grants st')) \<le> capacity - rb \<and>
      sum_list (map chunk_count (bf_grants st')) \<le> U64_MAX \<and> (\<not> \<not> any \<longrightarrow> bf_grants st' = [])"
    by (rule backfill_total) (use room' u64 set_eligible [of srcs] in \<open>auto simp: chunk_def el_def covered_of_def\<close>)
  then obtain st' js where st': "backfill_loop el (covered_of el adm) chunk (quantum div chunk) (capacity - rb) (\<not> any)
        (backfill_order el) \<lparr>bf_grants = [], bf_deferred = 0, bf_spent = 0\<rparr> = Some st'"
      "subseq js (backfill_order el)" "list_all2 (backfill_ok el (covered_of el adm) chunk (quantum div chunk)) js (bf_grants st')"
    and sums: "sum_list (map granted_bytes (bf_grants st')) \<le> capacity - rb"
      "sum_list (map chunk_count (bf_grants st')) \<le> U64_MAX" "any \<longrightarrow> bf_grants st' = []"
    by blast
  have le: "rb + sum_list (map granted_bytes (bf_grants st')) \<le> capacity" "capacity \<le> U64_MAX"
    using sums(1) rb room' by linarith+
  then obtain t where t: "plan srcs dl capacity limits = Some \<lparr>plan_drain = dl,
      plan_reservations = map (reserve_grant el chunk) adm, plan_backfill_grants = bf_grants st', plan_totals = t\<rparr>"
    "reserved_bytes t = rb" "backfill_bytes t = sum_list (map granted_bytes (bf_grants st'))"
    "planned_bytes t = rb + sum_list (map granted_bytes (bf_grants st'))" "short_reservations t = short"
    using plan_by_parts [OF fresh [unfolded el_def chunk_def] st'(1) [unfolded el_def chunk_def quantum_def] rb len, of dl]
      sums(2) by (auto simp: el_def chunk_def)
  have "rb = sum_list (map granted_bytes (map (reserve_grant el chunk) adm))"
    by (simp add: rb_def comp_def reserve_grant_def)
  then have "plan_shape el chunk quantum capacity \<lparr>plan_drain = dl, plan_reservations = map (reserve_grant el chunk) adm,
      plan_backfill_grants = bf_grants st', plan_totals = t\<rparr> js"
    using t(2-) st'(2,3) sums(3) le(1)
    by (simp add: plan_shape_def Let_def adm_def [symmetric] short_def any_def)
  then show ?thesis
    unfolding el_def chunk_def quantum_def using t(1) [unfolded el_def chunk_def] by (intro exI conjI) (assumption, simp_all)
qed

section \<open>What one source receives\<close>

definition granted_to :: "str \<Rightarrow> ChunkGrant list \<Rightarrow> nat" where
  "granted_to s gs = sum_list (map granted_bytes (filter (\<lambda>g. grant_source g = s) gs))"

lemma granted_to_simps [simp]:
  "granted_to s [] = 0"
  "granted_to s (g # gs) = (if grant_source g = s then granted_bytes g else 0) + granted_to s gs"
  "granted_to s (gs @ hs) = granted_to s gs + granted_to s hs"
  by (simp_all add: granted_to_def)

lemma granted_to_none: "(\<And>g. g \<in> set gs \<Longrightarrow> grant_source g \<noteq> s) \<Longrightarrow> granted_to s gs = 0"
  by (simp add: granted_to_def filter_empty_conv)

lemma list_all2_partner: "list_all2 P xs ys \<Longrightarrow> y \<in> set ys \<Longrightarrow> \<exists>x\<in>set xs. P x y"
  by (induction rule: list_all2_induct) auto

lemma distinct_subseq: "subseq xs ys \<Longrightarrow> distinct ys \<Longrightarrow> distinct xs"
  by (auto simp: subseq_conv_nths distinct_nthsI)

lemma granted_to_indexed:
  assumes "list_all2 P js gs" "distinct js" "\<forall>j\<in>set js. j < length el" "distinct (map source el)" "i < length el"
    and P: "\<And>j g. P j g \<Longrightarrow> grant_source g = source (el ! j) \<and> granted_bytes g \<le> cap j"
  shows "granted_to (source (el ! i)) gs \<le> (if i \<in> set js then cap i else 0)"
  using assms(1-3)
proof (induction rule: list_all2_induct)
  case (Cons j js g gs)
  have "source (el ! j) = source (el ! i) \<longleftrightarrow> j = i"
    using assms(4,5) Cons.prems by (auto simp: distinct_conv_nth)
  then show ?case using Cons P [OF Cons.hyps(1)] by (auto split: if_splits)
qed simp

lemma plan_shape_sources:
  assumes "plan_shape el chunk quantum capacity p js" "g \<in> set (plan_reservations p @ plan_backfill_grants p)"
  shows "grant_source g \<in> source ` set el"
proof -
  have *: "i \<in> set (reserved_order el chunk capacity) \<Longrightarrow> i < length el" for i
    using reserved_order_subset [of el chunk capacity] by auto
  have **: "i \<in> set js \<Longrightarrow> i < length el" for i
    using assms(1) list_emb_set [of "(=)" js "backfill_order el" i] by (auto simp: plan_shape_def Let_def backfill_order_facts)
  show ?thesis
  proof (cases "g \<in> set (plan_reservations p)")
    case True
    then show ?thesis using assms(1) * by (auto simp: plan_shape_def Let_def reserve_grant_def)
  next
    case False
    then have "g \<in> set (plan_backfill_grants p)" using assms(2) by simp
    then obtain i where "i \<in> set js" "grant_source g = source (el ! i)"
      using assms(1) list_all2_partner [of _ js "plan_backfill_grants p" g]
      by (fastforce simp: plan_shape_def Let_def backfill_ok_def)
    then show ?thesis using ** by auto
  qed
qed

lemma plan_shape_granted:
  assumes shape: "plan_shape el chunk quantum capacity p js" and d: "distinct (map source el)" and i: "i < length el"
  shows "granted_to (source (el ! i)) (plan_reservations p @ plan_backfill_grants p) \<le> outstanding_bytes (el ! i)"
proof -
  let ?adm = "reserved_order el chunk capacity" and ?cov = "covered_of el (reserved_order el chunk capacity)"
  obtain rest where pre: "freshness_order el = ?adm @ rest"
    using admitted_prefix unfolding reserved_order_def by blast
  have adm: "distinct ?adm" "\<forall>j\<in>set ?adm. j < length el"
    using freshness_order_facts(1,2) [of el] unfolding pre by auto
  have js: "distinct js" "\<forall>j\<in>set js. j < length el"
    using shape backfill_order_facts [of el] list_emb_set [of "(=)" js "backfill_order el"]
      distinct_subseq [of js "backfill_order el"] by (auto simp: plan_shape_def Let_def)
  have "list_all2 (\<lambda>j g. g = reserve_grant el chunk j) ?adm (plan_reservations p)"
    using shape by (simp add: plan_shape_def Let_def list_all2_conv_all_nth)
  then have "granted_to (source (el ! i)) (plan_reservations p) \<le> (if i \<in> set ?adm then reserve_bytes el chunk i else 0)"
    by (rule granted_to_indexed [OF _ adm d i]) (simp add: reserve_grant_def)
  moreover have "list_all2 (backfill_ok el ?cov chunk (quantum div chunk)) js (plan_backfill_grants p)"
    using shape by (simp add: plan_shape_def Let_def)
  then have "granted_to (source (el ! i)) (plan_backfill_grants p) \<le> (if i \<in> set js then residual_bytes_of el ?cov chunk i else 0)"
    by (rule granted_to_indexed [OF _ js d i]) (simp add: backfill_ok_def)
  moreover have "?cov ! i = (if i \<in> set ?adm then 1 else 0)" using i by (simp add: covered_of_def)
  ultimately show ?thesis by (auto simp: residual_bytes_of_def reserve_bytes_def split: if_splits)
qed

section \<open>Progress of the backfill pass\<close>

lemma backfill_loop_starved:
  assumes "backfill_loop eligible covered chunk budget capacity True is st = Some st'" "capacity < chunk"
    "\<forall>g\<in>set (bf_grants st). granted_bytes g = 0"
  shows "\<forall>g\<in>set (bf_grants st'). granted_bytes g = 0"
  using assms
proof (induction "is" arbitrary: st budget)
  case (Cons i "is")
  have z: "(capacity - n) div chunk = 0" for n using assms(2) by simp
  show ?case
    using Cons.prems
    by (auto simp: backfill_loop.simps Let_def saturating_sub_def z bind_eq_Some_conv split: if_splits dest!: Cons.IH)
qed simp

section \<open>Independence of the order of the sources\<close>

lemma insort_key_map: "insort_key f (g x) (map g xs) = map g (insort_key (\<lambda>y. f (g y)) x xs)"
  by (induction xs) auto

lemma sort_key_map: "sort_key f (map g xs) = map g (sort_key (\<lambda>y. f (g y)) xs)"
  by (induction xs) (simp_all add: insort_key_map)

lemma nth_backfill_order: "map (nth el) (backfill_order el) = sort_key rank_of el"
  by (simp add: backfill_order_def sort_key_map [symmetric] map_nth)

lemma nth_freshness_order:
  "map (nth el) (freshness_order el) = sort_key source (filter (\<lambda>r. lane r = Freshness) el)"
proof -
  have "map (nth el) (filter (\<lambda>i. lane (el ! i) = Freshness) [0..<length el]) =
      filter (\<lambda>r. lane r = Freshness) (map (nth el) [0..<length el])"
    by (simp add: filter_map comp_def)
  then show ?thesis by (simp add: freshness_order_def sort_key_map [symmetric] map_nth)
qed

lemma admitted_map: "admitted left g (map f is) = map f (admitted left (\<lambda>i. g (f i)) is)"
  by (induction left "\<lambda>i. g (f i)" "is" rule: admitted.induct) auto

definition reserved_records :: "SourceInventory list \<Rightarrow> nat \<Rightarrow> nat \<Rightarrow> SourceInventory list" where
  "reserved_records el chunk capacity =
     admitted capacity (\<lambda>r. min chunk (outstanding_bytes r)) (sort_key source (filter (\<lambda>r. lane r = Freshness) el))"

lemma nth_reserved_order: "map (nth el) (reserved_order el chunk capacity) = reserved_records el chunk capacity"
  by (simp add: reserved_order_def reserved_records_def nth_freshness_order [symmetric] admitted_map reserve_bytes_def [abs_def])

lemma covered_of_record:
  assumes "distinct el" "i < length el"
  shows "covered_of el (reserved_order el chunk capacity) ! i =
    (if el ! i \<in> set (reserved_records el chunk capacity) then 1 else 0)"
proof -
  have "i \<in> set (reserved_order el chunk capacity) \<longleftrightarrow> el ! i \<in> set (reserved_records el chunk capacity)"
    using assms reserved_order_subset [of el chunk capacity]
    unfolding nth_reserved_order [symmetric] by (auto simp: nth_eq_iff_index_eq)
  then show ?thesis using assms(2) by (simp add: covered_of_def)
qed

lemma backfill_loop_cong:
  assumes "list_all2 (\<lambda>i j. el ! i = el' ! j \<and> cov ! i = cov' ! j) is js"
  shows "backfill_loop el cov chunk budget left is_open is = backfill_loop el' cov' chunk budget left is_open js"
  using assms by (induction rule: list_all2_induct) (rule ext, simp only: backfill_loop.simps)+

lemma sort_key_perm:
  "mset xs = mset ys \<Longrightarrow> inj_on f (set xs) \<Longrightarrow> sort_key f xs = sort_key f ys"
  by (rule sort_key_inj_key_eq) simp_all

lemma plan_parts_perm:
  assumes d: "distinct (map source el)" and m: "mset el = mset el'"
  shows "sort_key rank_of el = sort_key rank_of el'"
    and "sort_key source (filter (\<lambda>r. lane r = Freshness) el) = sort_key source (filter (\<lambda>r. lane r = Freshness) el')"
    and "reserved_records el chunk capacity = reserved_records el' chunk capacity"
proof -
  have inj: "inj_on source (set el)" using d by (simp add: distinct_map)
  then show "sort_key rank_of el = sort_key rank_of el'"
    by (intro sort_key_perm m) (auto simp: inj_on_def rank_of_def)
  show *: "sort_key source (filter (\<lambda>r. lane r = Freshness) el) = sort_key source (filter (\<lambda>r. lane r = Freshness) el')"
    by (intro sort_key_perm) (use m inj in \<open>auto simp: inj_on_def\<close>)
  show "reserved_records el chunk capacity = reserved_records el' chunk capacity"
    by (simp add: reserved_records_def *)
qed

lemma backfill_pass_perm:
  assumes d: "distinct (map source el)" and m: "mset el = mset el'"
  shows "plan_backfill el (covered_of el (reserved_order el chunk capacity)) chunk quantum left is_open =
    plan_backfill el' (covered_of el' (reserved_order el' chunk capacity)) chunk quantum left is_open"
proof -
  have del: "distinct el" "distinct el'" using d m mset_eq_imp_distinct_iff [of el el'] by (auto simp: distinct_map)
  have "map (nth el) (backfill_order el) = map (nth el') (backfill_order el')"
    by (simp add: nth_backfill_order plan_parts_perm(1) [OF d m])
  then have "list_all2 (\<lambda>i j. el ! i = el' ! j) (backfill_order el) (backfill_order el')"
    by (simp add: list_eq_iff_nth_eq list_all2_conv_all_nth)
  then have "list_all2 (\<lambda>i j. el ! i = el' ! j \<and> covered_of el (reserved_order el chunk capacity) ! i =
      covered_of el' (reserved_order el' chunk capacity) ! j) (backfill_order el) (backfill_order el')"
    by (rule list.rel_mono_strong)
      (simp add: backfill_order_facts covered_of_record del plan_parts_perm(3) [OF d m])
  then show ?thesis unfolding plan_backfill_def by (simp only: backfill_loop_cong)
qed

lemma reserve_pass_perm:
  assumes d: "distinct (map source el)" and m: "mset el = mset el'" and room: "capacity + length el \<le> U64_MAX"
  obtains r where "reserve_freshness el chunk capacity = Some (r\<lparr>res_covered := covered_of el (reserved_order el chunk capacity)\<rparr>)"
    and "reserve_freshness el' chunk capacity = Some (r\<lparr>res_covered := covered_of el' (reserved_order el' chunk capacity)\<rparr>)"
proof -
  have len: "length el = length el'" by (rule mset_eq_length [OF m])
  have adm: "map (nth el) (reserved_order el chunk capacity) = map (nth el') (reserved_order el' chunk capacity)"
    unfolding nth_reserved_order by (rule plan_parts_perm [OF d m])
  have rg: "reserve_grant x chunk = (\<lambda>r. \<lparr>grant_source = source r, grant_lane = lane r,
      granted_bytes = min chunk (outstanding_bytes r), chunk_count = 1\<rparr>) \<circ> nth x"
    "reserve_bytes x chunk = (\<lambda>r. min chunk (outstanding_bytes r)) \<circ> nth x" for x
    by (simp_all add: fun_eq_iff reserve_grant_def reserve_bytes_def)
  have eqs: "map (reserve_grant el chunk) (reserved_order el chunk capacity) = map (reserve_grant el' chunk) (reserved_order el' chunk capacity)"
    "map (reserve_bytes el chunk) (reserved_order el chunk capacity) = map (reserve_bytes el' chunk) (reserved_order el' chunk capacity)"
    unfolding rg by (simp_all only: map_map [symmetric] adm)
  have lens: "length (reserved_order el chunk capacity) = length (reserved_order el' chunk capacity)"
    "length (freshness_order el) = length (freshness_order el')"
    using arg_cong [OF adm, of length] arg_cong [OF plan_parts_perm(2) [OF d m], of length]
    unfolding nth_freshness_order [symmetric] by simp_all
  show thesis
  proof (rule that)
    let ?r = "\<lparr>res_grants = map (reserve_grant el chunk) (reserved_order el chunk capacity), res_covered = [],
        res_bytes = sum_list (map (reserve_bytes el chunk) (reserved_order el chunk capacity)),
        res_short = length (freshness_order el) - length (reserved_order el chunk capacity),
        res_any_short = (length (reserved_order el chunk capacity) < length (freshness_order el))\<rparr>"
    show "reserve_freshness el chunk capacity = Some (?r\<lparr>res_covered := covered_of el (reserved_order el chunk capacity)\<rparr>)"
      by (simp add: reserve_freshness_eq [OF room] covered_of_def Let_def)
    have "reserve_freshness el' chunk capacity =
        (let adm = reserved_order el' chunk capacity in
         Some \<lparr>res_grants = map (reserve_grant el' chunk) adm, res_covered = covered_of el' adm,
           res_bytes = sum_list (map (reserve_bytes el' chunk) adm),
           res_short = length (freshness_order el') - length adm,
           res_any_short = (length adm < length (freshness_order el'))\<rparr>)"
      unfolding covered_of_def using room len by (intro reserve_freshness_eq) simp
    then show "reserve_freshness el' chunk capacity = Some (?r\<lparr>res_covered := covered_of el' (reserved_order el' chunk capacity)\<rparr>)"
      by (simp only: Let_def eqs lens Reservations.update_convs)
  qed
qed

lemma plan_perm:
  assumes room: "capacity + length srcs \<le> U64_MAX" and d: "distinct (map source srcs)" and perm: "mset srcs = mset srcs'"
  shows "plan srcs dl capacity limits = plan srcs' dl capacity limits"
proof -
  have m: "mset (eligible_of srcs) = mset (eligible_of srcs')" using perm by (simp add: eligible_of_def)
  have d': "distinct (map source (eligible_of srcs))"
    using d unfolding eligible_of_def by (intro distinct_map_filter)
  have room': "capacity + length (eligible_of srcs) \<le> U64_MAX" using room length_eligible [of srcs] by simp
  have len: "length (eligible_of srcs) = length (eligible_of srcs')" by (rule mset_eq_length [OF m])
  obtain r where r: "reserve_freshness (eligible_of srcs) (max (chunk_bytes limits) 1) capacity =
      Some (r\<lparr>res_covered := covered_of (eligible_of srcs) (reserved_order (eligible_of srcs) (max (chunk_bytes limits) 1) capacity)\<rparr>)"
    "reserve_freshness (eligible_of srcs') (max (chunk_bytes limits) 1) capacity =
      Some (r\<lparr>res_covered := covered_of (eligible_of srcs') (reserved_order (eligible_of srcs') (max (chunk_bytes limits) 1) capacity)\<rparr>)"
    by (rule reserve_pass_perm [OF d' m room'])
  show ?thesis
    unfolding plan_def Let_def r len by (simp add: backfill_pass_perm [OF d' m])
qed

section \<open>Progress of the pass\<close>

lemma backfill_loop_step_cases:
  assumes "backfill_loop eligible covered chunk budget capacity True (i # is) st = Some st'"
  obtains (skip) "residual_chunks_of eligible covered chunk i = 0"
      "backfill_loop eligible covered chunk budget capacity True is st = Some st'"
    | (wait) d where "residual_chunks_of eligible covered chunk i > 0"
      "grant_chunks_of eligible covered chunk budget (capacity - bf_spent st) i = 0"
      "backfill_loop eligible covered chunk budget capacity True is (st\<lparr>bf_deferred := d\<rparr>) = Some st'"
    | (grant) spent gr where "residual_chunks_of eligible covered chunk i > 0"
      "gr = backfill_grant eligible covered chunk i (grant_chunks_of eligible covered chunk budget (capacity - bf_spent st) i)"
      "grant_chunks_of eligible covered chunk budget (capacity - bf_spent st) i > 0"
      "backfill_loop eligible covered chunk budget capacity True is
         (st\<lparr>bf_spent := spent, bf_grants := bf_grants st @ [gr]\<rparr>) = Some st'"
  using assms unfolding backfill_loop_Cons Let_def
  by (simp only: if_split_asm [of "\<lambda>x. x = Some st'"] bind_eq_Some_conv) blast

lemma backfill_loop_grows:
  "backfill_loop eligible covered chunk budget capacity True is st = Some st' \<Longrightarrow>
     length (bf_grants st) \<le> length (bf_grants st')"
proof (induction "is" arbitrary: st)
  case (Cons i "is")
  from Cons.prems show ?case by (cases rule: backfill_loop_step_cases) (drule Cons.IH; simp)+
qed simp

lemma backfill_loop_progress:
  assumes "backfill_loop eligible covered chunk budget capacity True is st = Some st'" "0 < chunk" "0 < budget"
    "bf_spent st + chunk \<le> capacity" "i \<in> set is" "residual_chunks_of eligible covered chunk i > 0"
  shows "length (bf_grants st) < length (bf_grants st')"
  using assms
proof (induction "is" arbitrary: st)
  case (Cons j "is")
  from Cons.prems(1) show ?case
  proof (cases rule: backfill_loop_step_cases)
    case skip
    then show ?thesis using Cons.prems(2-) by (intro Cons.IH) auto
  next
    case (wait d)
    have "chunk \<le> capacity - bf_spent st" using Cons.prems(4) by simp
    then have "0 < (capacity - bf_spent st) div chunk" using Cons.prems(2) by (simp add: div_greater_zero_iff)
    then show ?thesis using wait(1,2) Cons.prems(3) by (auto simp: grant_chunks_of_def Let_def split: if_splits)
  next
    case (grant spent gr)
    then show ?thesis using backfill_loop_grows [OF grant(4)] by simp
  qed
qed simp

lemma plan_shapeD:
  assumes "plan_shape el chunk quantum capacity p js"
  shows "plan_reservations p = map (reserve_grant el chunk) (reserved_order el chunk capacity)"
    and "planned_bytes (plan_totals p) = reserved_bytes (plan_totals p) + backfill_bytes (plan_totals p)"
    and "reserved_bytes (plan_totals p) = sum_list (map granted_bytes (plan_reservations p))"
    and "backfill_bytes (plan_totals p) = sum_list (map granted_bytes (plan_backfill_grants p))"
    and "planned_bytes (plan_totals p) \<le> capacity"
    and "short_reservations (plan_totals p) = length (freshness_order el) - length (reserved_order el chunk capacity)"
    and "short_reservations (plan_totals p) > 0 \<longrightarrow> plan_backfill_grants p = []"
    and "list_all2 (backfill_ok el (covered_of el (reserved_order el chunk capacity)) chunk (quantum div chunk)) js (plan_backfill_grants p)"
  using assms unfolding plan_shape_def Let_def by argo+

lemma max_chunk_pos: "0 < max n (1 :: nat)"
  by simp

lemma residual_backlog:
  assumes "r \<in> set (eligible_of srcs)" "lane r \<noteq> Freshness \<or> outstanding_bytes r > chunk" "chunk > 0"
  shows "\<exists>i < length (eligible_of srcs). residual_chunks_of (eligible_of srcs)
    (covered_of (eligible_of srcs) (reserved_order (eligible_of srcs) chunk capacity)) chunk i > 0"
proof -
  let ?el = "eligible_of srcs"
  obtain i where i: "i < length ?el" "r = ?el ! i" using assms(1) by (auto simp: in_set_conv_nth)
  have some: "outstanding_bytes r > 0 \<or> outstanding_events r > 0" using assms(1) by (simp add: eligible_of_def)
  have "i \<notin> set (reserved_order ?el chunk capacity)" if "lane r \<noteq> Freshness"
    using reserved_order_subset [of ?el chunk capacity] that i(2) by auto
  moreover have "1 < div_ceil (outstanding_bytes r) chunk" if "outstanding_bytes r > chunk"
    by (rule less_div_ceil) (use that assms(3) in simp_all)
  moreover have "0 < div_ceil (outstanding_bytes r) chunk" if "outstanding_bytes r > 0"
    by (rule less_div_ceil) (use that assms(3) in simp_all)
  ultimately have "residual_chunks_of ?el (covered_of ?el (reserved_order ?el chunk capacity)) chunk i > 0"
    using i(1) some assms(2) unfolding residual_chunks_of_def i(2) [symmetric]
    by (auto simp: covered_of_def backlog_chunks_def)
  then show ?thesis using i(1) by blast
qed

lemma plan_SomeD:
  assumes "plan srcs dl capacity limits = Some p"
  obtains fresh st' where "reserve_freshness (eligible_of srcs) (max (chunk_bytes limits) 1) capacity = Some fresh"
    "backfill_loop (eligible_of srcs) (res_covered fresh) (max (chunk_bytes limits) 1)
       (backfill_quantum_bytes limits div max (chunk_bytes limits) 1) (capacity - res_bytes fresh) (\<not> res_any_short fresh)
       (backfill_order (eligible_of srcs)) \<lparr>bf_grants = [], bf_deferred = 0, bf_spent = 0\<rparr> = Some st'"
    "plan_reservations p = res_grants fresh" "plan_backfill_grants p = bf_grants st'"
    "reserved_bytes (plan_totals p) = res_bytes fresh" "short_reservations (plan_totals p) = res_short fresh"
  using assms unfolding plan_def Let_def plan_backfill_def
  by (auto simp: bind_eq_Some_conv u64_sub_def split: if_splits)

lemma reserve_freshness_short:
  assumes "capacity + length eligible \<le> U64_MAX" "reserve_freshness eligible chunk capacity = Some fresh"
  shows "res_any_short fresh \<longleftrightarrow> res_short fresh > 0"
    and "res_covered fresh = covered_of eligible (reserved_order eligible chunk capacity)"
  using assms by (auto simp: reserve_freshness_eq Let_def covered_of_def)

lemma admitted_all: "sum_list (map g is) \<le> left \<Longrightarrow> admitted left g is = is"
  by (induction left g "is" rule: admitted.induct) auto

definition sample_source :: "str \<Rightarrow> FreshnessLane \<Rightarrow> nat \<Rightarrow> SourceInventory" where
  "sample_source s l bytes =
     \<lparr>source = s, adapter = lit ''files'', account = lit ''main'', lane = l, coverage = Partial, classification = Ok,
      complete_bytes = bytes, complete_events = 1, acknowledged_bytes = 0, acknowledged_events = 0,
      outstanding_bytes = bytes, outstanding_events = 1, incomplete_tail_bytes = 0, freshness_lag_seconds = 0,
      cursor = \<lparr>retained_bytes = 0, retained_events = 0, uncaptured_bytes = bytes, uncaptured_events = 1\<rparr>, decision = Hold, anomaly = None, enrolled = True\<rparr>"

section \<open>Properties of the scheduler\<close>

text \<open>
  C19. One round never panics and never overspends: with a capacity and a source count that fit
  a \<^verbatim>\<open>u64\<close> together, the plan exists, keeps the drain load it was given, plans at most the capacity,
  accounts for every planned byte as a reservation or a backfill grant, grants no source more
  than the quantum in the backfill pass, and grants no source more over both lanes than its
  measured outstanding bytes.
\<close>

theorem plan_spends_within_bounds:
  assumes room: "capacity + length srcs \<le> U64_MAX" and u64: "\<forall>r\<in>set srcs. outstanding_bytes r \<le> U64_MAX"
    and ids: "distinct (map source srcs)"
  shows "\<exists>p. plan srcs dl capacity limits = Some p \<and> plan_drain p = dl \<and>
    planned_bytes (plan_totals p) \<le> capacity \<and>
    planned_bytes (plan_totals p) =
      sum_list (map granted_bytes (plan_reservations p)) + sum_list (map granted_bytes (plan_backfill_grants p)) \<and>
    (\<forall>g\<in>set (plan_backfill_grants p). granted_bytes g \<le> backfill_quantum_bytes limits \<and> 0 < chunk_count g) \<and>
    (\<forall>r\<in>set srcs. granted_to (source r) (plan_reservations p @ plan_backfill_grants p) \<le> outstanding_bytes r)"
proof -
  let ?el = "eligible_of srcs" and ?chunk = "max (chunk_bytes limits) 1"
  obtain p js where p: "plan srcs dl capacity limits = Some p" "plan_drain p = dl"
    and shape: "plan_shape ?el ?chunk (backfill_quantum_bytes limits) capacity p js"
    using plan_has_shape [OF room u64] by blast
  have ids': "distinct (map source ?el)" using ids unfolding eligible_of_def by (intro distinct_map_filter)
  have each: "granted_to (source r) (plan_reservations p @ plan_backfill_grants p) \<le> outstanding_bytes r" if "r \<in> set srcs" for r
  proof (cases "r \<in> set ?el")
    case True
    then show ?thesis using plan_shape_granted [OF shape ids'] by (auto simp: in_set_conv_nth)
  next
    case False
    have "source r \<notin> source ` set ?el"
      using False that ids set_eligible [of srcs] by (auto simp: distinct_map inj_on_def)
    then have "granted_to (source r) (plan_reservations p @ plan_backfill_grants p) = 0"
      using plan_shape_sources [OF shape] by (intro granted_to_none) metis
    then show ?thesis by simp
  qed
  have "granted_bytes g \<le> backfill_quantum_bytes limits \<and> 0 < chunk_count g" if "g \<in> set (plan_backfill_grants p)" for g
    using list_all2_partner [OF plan_shapeD(8) [OF shape] that] backfill_ok_quantum by (auto simp: backfill_ok_def)
  then show ?thesis using p each plan_shapeD(2-5) [OF shape] by (intro exI [of _ p]) simp
qed

theorem plan_spends_within_bounds_witness:
  "\<exists>p. plan [sample_source (lit ''a'') Freshness 30, sample_source (lit ''b'') Backfill 100]
     \<lparr>drain_load_entries = 2, drain_load_bytes = 7\<rparr> 50 \<lparr>chunk_bytes = 10, backfill_quantum_bytes = 20\<rparr> = Some p \<and>
     planned_bytes (plan_totals p) \<le> 50"
  using plan_spends_within_bounds [of 50 "[sample_source (lit ''a'') Freshness 30, sample_source (lit ''b'') Backfill 100]"
      "\<lparr>drain_load_entries = 2, drain_load_bytes = 7\<rparr>" "\<lparr>chunk_bytes = 10, backfill_quantum_bytes = 20\<rparr>"]
  by (auto simp: sample_source_def U64_MAX_def)

text \<open>
  C21. Freshness before backfill: the reservations are exactly the longest prefix, in source-id
  order, of the active eligible sources whose one-chunk grants fit the capacity; every active
  eligible source is either reserved or counted as short; when the capacity covers one chunk
  of each, none is short; and a round with a short reservation grants no backfill at all.
\<close>

theorem reservations_precede_backfill:
  assumes room: "capacity + length srcs \<le> U64_MAX" and u64: "\<forall>r\<in>set srcs. outstanding_bytes r \<le> U64_MAX"
  shows "\<exists>p. plan srcs dl capacity limits = Some p \<and>
    (let chunk = max (chunk_bytes limits) 1;
         active = sort_key source (filter (\<lambda>r. lane r = Freshness) (eligible_of srcs));
         fits = admitted capacity (\<lambda>r. min chunk (outstanding_bytes r)) active
     in plan_reservations p = map (\<lambda>r. \<lparr>grant_source = source r, grant_lane = Freshness,
          granted_bytes = min chunk (outstanding_bytes r), chunk_count = 1\<rparr>) fits \<and>
        length (plan_reservations p) + short_reservations (plan_totals p) = length active \<and>
        (sum_list (map (\<lambda>r. min chunk (outstanding_bytes r)) active) \<le> capacity \<longrightarrow> fits = active) \<and>
        (short_reservations (plan_totals p) > 0 \<longrightarrow> plan_backfill_grants p = []))"
proof -
  let ?el = "eligible_of srcs" and ?chunk = "max (chunk_bytes limits) 1"
  let ?active = "sort_key source (filter (\<lambda>r. lane r = Freshness) ?el)"
  let ?fits = "reserved_records ?el ?chunk capacity"
  obtain p js where p: "plan srcs dl capacity limits = Some p"
    and shape: "plan_shape ?el ?chunk (backfill_quantum_bytes limits) capacity p js"
    using plan_has_shape [OF room u64] by blast
  obtain rest where act: "?active = ?fits @ rest"
    using admitted_prefix unfolding reserved_records_def by blast
  have fresh: "\<forall>r\<in>set ?fits. lane r = Freshness"
    unfolding nth_reserved_order [symmetric] using reserved_order_subset [of ?el ?chunk capacity] by auto
  have "plan_reservations p = map (\<lambda>r. \<lparr>grant_source = source r, grant_lane = lane r,
      granted_bytes = min ?chunk (outstanding_bytes r), chunk_count = 1\<rparr>) (map (nth ?el) (reserved_order ?el ?chunk capacity))"
    unfolding plan_shapeD(1) [OF shape] by (simp add: reserve_grant_def reserve_bytes_def)
  then have grants: "plan_reservations p = map (\<lambda>r. \<lparr>grant_source = source r, grant_lane = Freshness,
      granted_bytes = min ?chunk (outstanding_bytes r), chunk_count = 1\<rparr>) ?fits"
    unfolding nth_reserved_order using fresh by (simp cong: map_cong)
  have "length (freshness_order ?el) = length ?active" "length (reserved_order ?el ?chunk capacity) = length ?fits"
    using arg_cong [OF nth_freshness_order [of ?el], of length] arg_cong [OF nth_reserved_order [of ?el ?chunk capacity], of length]
    by simp_all
  then have "length ?fits + short_reservations (plan_totals p) = length ?active"
    using plan_shapeD(6) [OF shape] act by simp
  then show ?thesis
    using p grants plan_shapeD(7) [OF shape] admitted_all [of "\<lambda>r. min ?chunk (outstanding_bytes r)" ?active capacity]
    by (intro exI [of _ p]) (simp add: Let_def reserved_records_def)
qed

theorem reservations_precede_backfill_witness:
  "\<exists>p. plan [sample_source (lit ''a'') Freshness 30, sample_source (lit ''b'') Freshness 100]
     \<lparr>drain_load_entries = 2, drain_load_bytes = 7\<rparr> 15 \<lparr>chunk_bytes = 10, backfill_quantum_bytes = 20\<rparr> = Some p"
  using reservations_precede_backfill [of 15 "[sample_source (lit ''a'') Freshness 30, sample_source (lit ''b'') Freshness 100]"
      "\<lparr>drain_load_entries = 2, drain_load_bytes = 7\<rparr>" "\<lparr>chunk_bytes = 10, backfill_quantum_bytes = 20\<rparr>"]
  by (auto simp: sample_source_def U64_MAX_def)

text \<open>
  C31. The plan does not depend on the order in which the inventory lists the sources: a
  permutation of the records (source ids being distinct) gives the same plan, grant for grant.
\<close>

theorem plan_ignores_input_order:
  assumes "capacity + length srcs \<le> U64_MAX" and "distinct (map source srcs)" and "mset srcs = mset srcs'"
  shows "plan srcs dl capacity limits = plan srcs' dl capacity limits"
  using assms by (rule plan_perm)

theorem plan_ignores_input_order_witness:
  "plan [sample_source (lit ''a'') Freshness 30, sample_source (lit ''b'') Backfill 100]
     \<lparr>drain_load_entries = 2, drain_load_bytes = 7\<rparr> 50 \<lparr>chunk_bytes = 10, backfill_quantum_bytes = 20\<rparr> =
   plan [sample_source (lit ''b'') Backfill 100, sample_source (lit ''a'') Freshness 30]
     \<lparr>drain_load_entries = 2, drain_load_bytes = 7\<rparr> 50 \<lparr>chunk_bytes = 10, backfill_quantum_bytes = 20\<rparr>"
  by (rule plan_ignores_input_order) (auto simp: sample_source_def U64_MAX_def)

text \<open>
  C32. The backfill pass advances exactly in whole chunks. When no reservation is short and both
  the capacity the reservations left and the quantum hold a chunk, some source is granted as
  long as one has backlog beyond its reservation. When the remaining capacity is smaller than
  one chunk, the pass grants no byte to any source, whatever its backlog: no number of such
  rounds serves a source outside the freshness lane.
\<close>

theorem backfill_progress_needs_a_chunk:
  assumes room: "capacity + length srcs \<le> U64_MAX" and p: "plan srcs dl capacity limits = Some p"
    and short: "short_reservations (plan_totals p) = 0"
  shows "(let chunk = max (chunk_bytes limits) 1; left = capacity - reserved_bytes (plan_totals p) in
    (chunk \<le> left \<and> chunk \<le> backfill_quantum_bytes limits \<and>
       (\<exists>r\<in>set (eligible_of srcs). lane r \<noteq> Freshness \<or> outstanding_bytes r > chunk) \<longrightarrow>
     plan_backfill_grants p \<noteq> []) \<and>
    (left < chunk \<longrightarrow> (\<forall>g\<in>set (plan_backfill_grants p). granted_bytes g = 0)))"
proof -
  let ?el = "eligible_of srcs" and ?chunk = "max (chunk_bytes limits) 1"
  let ?st0 = "\<lparr>bf_grants = [], bf_deferred = 0, bf_spent = 0\<rparr>"
  let ?b = "backfill_quantum_bytes limits div ?chunk"
  obtain fresh st' where f: "reserve_freshness ?el ?chunk capacity = Some fresh"
    "backfill_loop ?el (res_covered fresh) ?chunk ?b (capacity - res_bytes fresh) (\<not> res_any_short fresh)
       (backfill_order ?el) ?st0 = Some st'" "plan_backfill_grants p = bf_grants st'"
    "reserved_bytes (plan_totals p) = res_bytes fresh" "short_reservations (plan_totals p) = res_short fresh"
    using p by (rule plan_SomeD)
  have room': "capacity + length ?el \<le> U64_MAX" using room length_eligible [of srcs] by simp
  note cov = reserve_freshness_short [OF room' f(1)]
  have loop: "backfill_loop ?el (res_covered fresh) ?chunk ?b (capacity - res_bytes fresh) True (backfill_order ?el) ?st0 = Some st'"
    using f(2,5) short cov(1) by simp
  have "\<forall>g\<in>set (bf_grants st'). granted_bytes g = 0" if "capacity - res_bytes fresh < ?chunk"
    by (rule backfill_loop_starved [OF loop that]) simp
  moreover have "bf_grants st' \<noteq> []" if room1: "?chunk \<le> capacity - res_bytes fresh" "?chunk \<le> backfill_quantum_bytes limits"
    and r: "r \<in> set ?el" "lane r \<noteq> Freshness \<or> outstanding_bytes r > ?chunk" for r
  proof -
    obtain i where "i < length ?el" "residual_chunks_of ?el (res_covered fresh) ?chunk i > 0"
      using residual_backlog [OF r max_chunk_pos, of capacity] unfolding cov(2) by blast
    then have "length (bf_grants ?st0) < length (bf_grants st')"
      using room1 by (intro backfill_loop_progress [OF loop]) (simp_all add: backfill_order_facts div_greater_zero_iff)
    then show ?thesis by auto
  qed
  ultimately show ?thesis using f(3,4) by (auto simp: Let_def)
qed

theorem backfill_progress_needs_a_chunk_witness:
  "\<exists>p. plan [sample_source (lit ''b'') Backfill 100] \<lparr>drain_load_entries = 0, drain_load_bytes = 0\<rparr> 9
     \<lparr>chunk_bytes = 10, backfill_quantum_bytes = 20\<rparr> = Some p \<and>
     (\<forall>g\<in>set (plan_backfill_grants p). granted_bytes g = 0)"
proof -
  have el: "eligible_of [sample_source (lit ''b'') Backfill 100] = [sample_source (lit ''b'') Backfill 100]"
    by (simp add: eligible_of_def sample_source_def)
  obtain p js where "plan [sample_source (lit ''b'') Backfill 100] \<lparr>drain_load_entries = 0, drain_load_bytes = 0\<rparr> 9
      \<lparr>chunk_bytes = 10, backfill_quantum_bytes = 20\<rparr> = Some p"
    and shape: "plan_shape [sample_source (lit ''b'') Backfill 100] 10 20 9 p js"
    using plan_has_shape [of 9 "[sample_source (lit ''b'') Backfill 100]" "\<lparr>drain_load_entries = 0, drain_load_bytes = 0\<rparr>"
        "\<lparr>chunk_bytes = 10, backfill_quantum_bytes = 20\<rparr>"]
    by (auto simp: el) (auto simp: sample_source_def U64_MAX_def)
  moreover have "freshness_order [sample_source (lit ''b'') Backfill 100] = []"
    by (simp add: freshness_order_def sample_source_def)
  then have "short_reservations (plan_totals p) = 0" "reserved_bytes (plan_totals p) = 0"
    using plan_shapeD(1,3,6) [OF shape] by (simp_all add: reserved_order_def)
  ultimately show ?thesis
    using backfill_progress_needs_a_chunk [of 9 "[sample_source (lit ''b'') Backfill 100]"
        "\<lparr>drain_load_entries = 0, drain_load_bytes = 0\<rparr>" "\<lparr>chunk_bytes = 10, backfill_quantum_bytes = 20\<rparr>" p]
    by (simp add: U64_MAX_def Let_def)
qed

end
