(* ===== verification/Utf8.thy ===== *)
theory Utf8
  imports Prelude
begin

text \<open>
  Unicode text as the standard library handles it: a \<^verbatim>\<open>char\<close> is a scalar value (a \<open>nat\<close>),
  \<open>encode_utf8\<close> is \<^verbatim>\<open>char::encode_utf8\<close>, \<open>utf8_chars\<close> is \<^verbatim>\<open>str::from_utf8\<close> followed by
  \<^verbatim>\<open>str::chars\<close>, and \<open>encode_utf16\<close> is \<^verbatim>\<open>str::encode_utf16\<close>. The main fact is that the decoder
  accepts exactly the encodings of lists of scalar values, so both directions are inverse, and
  that the UTF-16 form of a text determines it.
\<close>

section \<open>Scalar values and UTF-8\<close>

definition is_scalar :: "nat \<Rightarrow> bool" where
  "is_scalar c \<longleftrightarrow> c < 0xD800 \<or> (0xE000 \<le> c \<and> c < 0x110000)"

definition char_from_u32 :: "nat \<Rightarrow> nat option" where
  "char_from_u32 c = (if is_scalar c then Some c else None)"

definition encode_utf8 :: "nat \<Rightarrow> u8 list" where
  "encode_utf8 c =
     (if c < 0x80 then [of_nat c]
      else if c < 0x800 then [of_nat (0xC0 + c div 0x40), of_nat (0x80 + c mod 0x40)]
      else if c < 0x10000 then
        [of_nat (0xE0 + c div 0x1000), of_nat (0x80 + c div 0x40 mod 0x40), of_nat (0x80 + c mod 0x40)]
      else
        [of_nat (0xF0 + c div 0x40000), of_nat (0x80 + c div 0x1000 mod 0x40),
         of_nat (0x80 + c div 0x40 mod 0x40), of_nat (0x80 + c mod 0x40)])"

definition continuation :: "nat \<Rightarrow> bool" where
  "continuation b \<longleftrightarrow> 0x80 \<le> b \<and> b < 0xC0"

text \<open>The first character of a byte string; the second byte has the ranges of the well-formed
  sequences, which exclude overlong forms, surrogates and values beyond \<open>0x10FFFF\<close>.\<close>

fun utf8_next :: "u8 list \<Rightarrow> (nat \<times> u8 list) option" where
  "utf8_next [] = None"
| "utf8_next (a # s) =
     (let x = unat a in
      if x < 0x80 then Some (x, s)
      else case s of [] \<Rightarrow> None
      | b # s1 \<Rightarrow> let y = unat b in
        if \<not> continuation y then None
        else if x < 0xC2 then None
        else if x < 0xE0 then Some ((x - 0xC0) * 0x40 + (y - 0x80), s1)
        else case s1 of [] \<Rightarrow> None
        | c # s2 \<Rightarrow> let z = unat c in
          if \<not> continuation z then None
          else if x < 0xF0 then
            (if (x = 0xE0 \<and> y < 0xA0) \<or> (x = 0xED \<and> 0xA0 \<le> y) then None
             else Some ((x - 0xE0) * 0x1000 + (y - 0x80) * 0x40 + (z - 0x80), s2))
          else case s2 of [] \<Rightarrow> None
          | d # s3 \<Rightarrow> let w = unat d in
            if \<not> continuation w then None
            else if 0xF4 < x \<or> (x = 0xF0 \<and> y < 0x90) \<or> (x = 0xF4 \<and> 0x90 \<le> y) then None
            else Some ((x - 0xF0) * 0x40000 + (y - 0x80) * 0x1000 + (z - 0x80) * 0x40 + (w - 0x80), s3))"

definition utf8_encode :: "nat list \<Rightarrow> u8 list" where
  "utf8_encode cs = concat (map encode_utf8 cs)"

lemma unat_lt_256: "unat (b :: u8) < 256"
  using unsigned_less [of b] by simp

lemma unat_of_nat_u8 [simp]: "n < 256 \<Longrightarrow> unat (of_nat n :: u8) = n"
  by (simp add: unat_of_nat)

lemma encode_utf8_nonempty [simp]: "encode_utf8 c \<noteq> []" "length (encode_utf8 c) > 0"
  by (auto simp: encode_utf8_def)

lemma utf8_next_encode:
  assumes "is_scalar c"
  shows "utf8_next (encode_utf8 c @ s) = Some (c, s)"
proof -
  have m: "(c div 0x40) div 0x40 = c div 0x1000" "(c div 0x1000) div 0x40 = c div 0x40000"
    by (simp_all add: div_mult2_eq [symmetric])
  have d: "c = c div 0x40 * 0x40 + c mod 0x40" "c div 0x40 = c div 0x1000 * 0x40 + c div 0x40 mod 0x40"
    "c div 0x1000 = c div 0x40000 * 0x40 + c div 0x1000 mod 0x40"
    using div_mult_mod_eq [of c "0x40"] div_mult_mod_eq [of "c div 0x40" "0x40"] div_mult_mod_eq [of "c div 0x1000" "0x40"]
    unfolding m by simp_all
  define q1 q2 q3 r0 r1 r2 where "q1 = c div 0x40" and "q2 = c div 0x1000" and "q3 = c div 0x40000"
    and "r0 = c mod 0x40" and "r1 = c div 0x40 mod 0x40" and "r2 = c div 0x1000 mod 0x40"
  have r: "r0 < 0x40" "r1 < 0x40" "r2 < 0x40" by (simp_all add: r0_def r1_def r2_def)
  have e: "c = q1 * 0x40 + r0" "q1 = q2 * 0x40 + r1" "q2 = q3 * 0x40 + r2"
    using d by (simp_all add: q1_def q2_def q3_def r0_def r1_def r2_def)
  consider "c < 0x80" | "0x80 \<le> c" "c < 0x800" | "0x800 \<le> c" "c < 0x10000" | "0x10000 \<le> c" "c < 0x110000"
    using assms unfolding is_scalar_def by linarith
  then show ?thesis
  proof cases
    case 1
    then show ?thesis by (simp add: encode_utf8_def)
  next
    case 2
    then have q: "2 \<le> q1" "q1 < 0x20" using e r by linarith+
    have "encode_utf8 c = [of_nat (0xC0 + q1), of_nat (0x80 + r0)]"
      using 2 by (simp only: encode_utf8_def q1_def r0_def) simp
    moreover have "unat (of_nat (0xC0 + q1) :: u8) = 0xC0 + q1" "unat (of_nat (0x80 + r0) :: u8) = 0x80 + r0"
      by (rule unat_of_nat_u8, use q r in simp)+
    ultimately show ?thesis
      using q r e(1) by (simp add: continuation_def del: of_nat_add)
  next
    case 3
    then have q: "q2 < 0x10" "q2 = 0 \<longrightarrow> 0x20 \<le> r1" "q2 = 0xD \<longrightarrow> r1 < 0x20"
      using e r assms unfolding is_scalar_def by linarith+
    have "encode_utf8 c = [of_nat (0xE0 + q2), of_nat (0x80 + r1), of_nat (0x80 + r0)]"
      using 3 by (simp only: encode_utf8_def q2_def r0_def r1_def) simp
    moreover have "unat (of_nat (0xE0 + q2) :: u8) = 0xE0 + q2" "unat (of_nat (0x80 + r1) :: u8) = 0x80 + r1"
      "unat (of_nat (0x80 + r0) :: u8) = 0x80 + r0"
      by (rule unat_of_nat_u8, use q r in simp)+
    moreover have "c = q2 * 0x1000 + r1 * 0x40 + r0" using e by linarith
    ultimately show ?thesis
      using q r by (auto simp add: continuation_def simp del: of_nat_add)
  next
    case 4
    then have q: "q3 < 5" "q3 = 0 \<longrightarrow> 0x10 \<le> r2" "q3 = 4 \<longrightarrow> r2 < 0x10" using e r by linarith+
    have "encode_utf8 c = [of_nat (0xF0 + q3), of_nat (0x80 + r2), of_nat (0x80 + r1), of_nat (0x80 + r0)]"
      using 4 by (simp only: encode_utf8_def q3_def r0_def r1_def r2_def) simp
    moreover have "unat (of_nat (0xF0 + q3) :: u8) = 0xF0 + q3" "unat (of_nat (0x80 + r2) :: u8) = 0x80 + r2"
      "unat (of_nat (0x80 + r1) :: u8) = 0x80 + r1" "unat (of_nat (0x80 + r0) :: u8) = 0x80 + r0"
      by (rule unat_of_nat_u8, use q r in simp)+
    moreover have "c = q3 * 0x40000 + r2 * 0x1000 + r1 * 0x40 + r0" using e by linarith
    ultimately show ?thesis
      using q r by (auto simp add: continuation_def simp del: of_nat_add)
  qed
qed

lemma of_nat_unat_diff: "k \<le> unat b \<Longrightarrow> of_nat (k + (unat b - k)) = (b :: u8)"
  by simp

lemma base64_digit: "z < 0x40 \<Longrightarrow> (u * 0x40 + z) div 0x40 = u \<and> (u * 0x40 + z) mod 0x40 = (z :: nat)"
  by simp

lemma encode_utf8_2:
  assumes "2 \<le> q" "q < 0x20" "y < 0x40"
  shows "encode_utf8 (q * 0x40 + y) = [of_nat (0xC0 + q), of_nat (0x80 + y)]" "is_scalar (q * 0x40 + y)"
proof -
  have "(q * 0x40 + y) div 0x40 = q" "(q * 0x40 + y) mod 0x40 = y" using assms by auto
  then show "encode_utf8 (q * 0x40 + y) = [of_nat (0xC0 + q), of_nat (0x80 + y)]" "is_scalar (q * 0x40 + y)"
    using assms by (simp_all add: encode_utf8_def is_scalar_def del: of_nat_add)
qed

lemma encode_utf8_3:
  assumes "q < 0x10" "y < 0x40" "z < 0x40" "q = 0 \<longrightarrow> 0x20 \<le> y" "q = 0xD \<longrightarrow> y < 0x20"
  shows "encode_utf8 (q * 0x1000 + y * 0x40 + z) = [of_nat (0xE0 + q), of_nat (0x80 + y), of_nat (0x80 + z)]"
    "is_scalar (q * 0x1000 + y * 0x40 + z)"
proof -
  define c where "c = q * 0x1000 + y * 0x40 + z"
  have c: "c = (q * 0x40 + y) * 0x40 + z" by (simp add: c_def)
  have 1: "c div 0x40 = q * 0x40 + y" "c mod 0x40 = z" unfolding c by (simp_all only: base64_digit [OF assms(3)])
  then have "c div 0x40 mod 0x40 = y" "c div 0x40 div 0x40 = q" by (simp_all only: base64_digit [OF assms(2)])
  moreover from this have "c div 0x1000 = q" by (simp add: div_mult2_eq [symmetric])
  moreover have "0x800 \<le> c" "c < 0x10000" using assms unfolding c_def by auto
  moreover consider "q \<le> 0xC" | "q = 0xD" | "0xE \<le> q" by linarith
  then have "is_scalar c" using assms unfolding c_def is_scalar_def by cases auto
  ultimately show "encode_utf8 (q * 0x1000 + y * 0x40 + z) = [of_nat (0xE0 + q), of_nat (0x80 + y), of_nat (0x80 + z)]"
    "is_scalar (q * 0x1000 + y * 0x40 + z)"
    unfolding c_def [symmetric] using 1 by (simp_all add: encode_utf8_def del: of_nat_add)
qed

lemma encode_utf8_4:
  assumes "q < 5" "x < 0x40" "y < 0x40" "z < 0x40" "q = 0 \<longrightarrow> 0x10 \<le> x" "q = 4 \<longrightarrow> x < 0x10"
  shows "encode_utf8 (q * 0x40000 + x * 0x1000 + y * 0x40 + z) =
      [of_nat (0xF0 + q), of_nat (0x80 + x), of_nat (0x80 + y), of_nat (0x80 + z)]"
    "is_scalar (q * 0x40000 + x * 0x1000 + y * 0x40 + z)"
proof -
  define c where "c = q * 0x40000 + x * 0x1000 + y * 0x40 + z"
  have c: "c = ((q * 0x40 + x) * 0x40 + y) * 0x40 + z" by (simp add: c_def)
  have 1: "c div 0x40 = (q * 0x40 + x) * 0x40 + y" "c mod 0x40 = z" unfolding c by (simp_all only: base64_digit [OF assms(4)])
  then have 2: "c div 0x40 mod 0x40 = y" "c div 0x40 div 0x40 = q * 0x40 + x" by (simp_all only: base64_digit [OF assms(3)])
  then have 3: "c div 0x1000 = q * 0x40 + x" by (simp add: div_mult2_eq [symmetric])
  then have "c div 0x1000 mod 0x40 = x" "c div 0x1000 div 0x40 = q" by (simp_all only: base64_digit [OF assms(2)])
  moreover from this have "c div 0x40000 = q" by (simp add: div_mult2_eq [symmetric])
  moreover have "0x10000 \<le> c" "c < 0x110000" using assms unfolding c_def by auto
  ultimately show "encode_utf8 (q * 0x40000 + x * 0x1000 + y * 0x40 + z) =
      [of_nat (0xF0 + q), of_nat (0x80 + x), of_nat (0x80 + y), of_nat (0x80 + z)]"
    "is_scalar (q * 0x40000 + x * 0x1000 + y * 0x40 + z)"
    unfolding c_def [symmetric] using 1 2 by (simp_all add: encode_utf8_def is_scalar_def del: of_nat_add)
qed

lemma utf8_next_cases:
  assumes "utf8_next s = Some (c, s')"
  obtains (one) a where "s = a # s'" "c = unat a" "unat a < 0x80"
  | (two) a b where "s = a # b # s'" "c = (unat a - 0xC0) * 0x40 + (unat b - 0x80)"
      "0xC2 \<le> unat a" "unat a < 0xE0" "continuation (unat b)"
  | (three) a b d where "s = a # b # d # s'" "c = (unat a - 0xE0) * 0x1000 + (unat b - 0x80) * 0x40 + (unat d - 0x80)"
      "0xE0 \<le> unat a" "unat a < 0xF0" "continuation (unat b)" "continuation (unat d)"
      "\<not> (unat a = 0xE0 \<and> unat b < 0xA0)" "\<not> (unat a = 0xED \<and> 0xA0 \<le> unat b)"
  | (four) a b d e where "s = a # b # d # e # s'"
      "c = (unat a - 0xF0) * 0x40000 + (unat b - 0x80) * 0x1000 + (unat d - 0x80) * 0x40 + (unat e - 0x80)"
      "0xF0 \<le> unat a" "unat a \<le> 0xF4" "continuation (unat b)" "continuation (unat d)" "continuation (unat e)"
      "\<not> (unat a = 0xF0 \<and> unat b < 0x90)" "\<not> (unat a = 0xF4 \<and> 0x90 \<le> unat b)"
  using assms
  by (cases s rule: utf8_next.cases) (auto simp: Let_def not_less split: if_splits list.splits)

lemma utf8_next_exact:
  assumes "utf8_next s = Some (c, s')"
  shows "is_scalar c \<and> s = encode_utf8 c @ s'"
  using assms
proof (cases rule: utf8_next_cases)
  case (one a)
  then show ?thesis by (simp add: is_scalar_def encode_utf8_def)
next
  case (two a b)
  have "is_scalar c \<and> encode_utf8 c = [of_nat (0xC0 + (unat a - 0xC0)), of_nat (0x80 + (unat b - 0x80))]"
    unfolding two(2) by (intro conjI encode_utf8_2) (use two in \<open>auto simp: continuation_def\<close>)
  then show ?thesis using two by (simp add: continuation_def of_nat_unat_diff del: of_nat_add)
next
  case (three a b d)
  have "is_scalar c \<and> encode_utf8 c =
      [of_nat (0xE0 + (unat a - 0xE0)), of_nat (0x80 + (unat b - 0x80)), of_nat (0x80 + (unat d - 0x80))]"
    unfolding three(2) by (intro conjI encode_utf8_3) (use three in \<open>auto simp: continuation_def\<close>)
  then show ?thesis using three by (simp add: continuation_def of_nat_unat_diff del: of_nat_add)
next
  case (four a b d e)
  have "is_scalar c \<and> encode_utf8 c = [of_nat (0xF0 + (unat a - 0xF0)), of_nat (0x80 + (unat b - 0x80)),
      of_nat (0x80 + (unat d - 0x80)), of_nat (0x80 + (unat e - 0x80))]"
    unfolding four(2) by (intro conjI encode_utf8_4) (use four in \<open>auto simp: continuation_def\<close>)
  then show ?thesis using four by (simp add: continuation_def of_nat_unat_diff del: of_nat_add)
qed

section \<open>Texts\<close>

lemma utf8_next_shorter: "utf8_next s = Some (c, s') \<Longrightarrow> length s' < length s"
  using utf8_next_exact [of s c s'] by auto

function utf8_chars :: "u8 list \<Rightarrow> nat list option" where
  "utf8_chars s =
     (if s = [] then Some []
      else case utf8_next s of None \<Rightarrow> None
      | Some (c, s') \<Rightarrow> map_option ((#) c) (utf8_chars s'))"
  by auto
termination
  by (relation "measure length") (auto dest: utf8_next_shorter)

declare utf8_chars.simps [simp del]

lemma utf8_chars_Nil [simp]: "utf8_chars [] = Some []"
  by (simp add: utf8_chars.simps)

lemma utf8_encode_simps [simp]:
  "utf8_encode [] = []" "utf8_encode (c # cs) = encode_utf8 c @ utf8_encode cs"
  "utf8_encode (cs @ ds) = utf8_encode cs @ utf8_encode ds"
  by (simp_all add: utf8_encode_def)

lemma utf8_chars_encode: "list_all is_scalar cs \<Longrightarrow> utf8_chars (utf8_encode cs) = Some cs"
proof (induction cs)
  case (Cons c cs)
  then show ?case by (subst utf8_chars.simps) (simp add: utf8_next_encode)
qed simp

lemma utf8_chars_exact: "utf8_chars s = Some cs \<longleftrightarrow> list_all is_scalar cs \<and> s = utf8_encode cs"
proof
  show "utf8_chars s = Some cs \<Longrightarrow> list_all is_scalar cs \<and> s = utf8_encode cs"
  proof (induction s arbitrary: cs rule: utf8_chars.induct)
    case (1 s)
    from "1.prems" have "(if s = [] then Some [] else case utf8_next s of None \<Rightarrow> None
        | Some (c, s') \<Rightarrow> map_option ((#) c) (utf8_chars s')) = Some cs"
      by (simp only: utf8_chars.simps [of s])
    then show ?case
      using "1.IH" by (auto split: if_splits option.splits dest: utf8_next_exact)
  qed
qed (auto simp: utf8_chars_encode)

definition utf8_valid :: "u8 list \<Rightarrow> bool" where
  "utf8_valid s \<longleftrightarrow> utf8_chars s \<noteq> None"

definition chars :: "str \<Rightarrow> nat list" where
  "chars s = (case utf8_chars s of None \<Rightarrow> [] | Some cs \<Rightarrow> cs)"

lemma utf8_validE:
  assumes "utf8_valid s"
  obtains cs where "list_all is_scalar cs" "s = utf8_encode cs" "chars s = cs"
proof -
  obtain cs where "utf8_chars s = Some cs" using assms by (auto simp: utf8_valid_def)
  moreover from this have "chars s = cs" by (simp add: chars_def)
  ultimately show thesis using that [of cs] unfolding utf8_chars_exact by blast
qed

lemma utf8_valid_encode: "list_all is_scalar cs \<Longrightarrow> utf8_valid (utf8_encode cs)"
  by (simp add: utf8_valid_def utf8_chars_encode)

lemma chars_encode [simp]: "list_all is_scalar cs \<Longrightarrow> chars (utf8_encode cs) = cs"
  by (simp add: chars_def utf8_chars_encode)

lemma utf8_valid_Nil [simp]: "utf8_valid []"
  by (simp add: utf8_valid_def)

lemma utf8_valid_append: "utf8_valid s \<Longrightarrow> utf8_valid t \<Longrightarrow> utf8_valid (s @ t)"
proof -
  assume "utf8_valid s" "utf8_valid t"
  then obtain cs ds where "list_all is_scalar cs" "s = utf8_encode cs" "list_all is_scalar ds" "t = utf8_encode ds"
    by (metis utf8_validE)
  then show ?thesis using utf8_valid_encode [of "cs @ ds"] by simp
qed

lemma utf8_valid_ascii: "list_all (\<lambda>b. b < 0x80) s \<Longrightarrow> utf8_valid s"
proof (induction s)
  case (Cons b s)
  have "unat b < 0x80" using Cons.prems by (simp add: word_less_nat_alt)
  then have "utf8_encode [unat b] = [b]" "list_all is_scalar [unat b]" by (simp_all add: encode_utf8_def is_scalar_def)
  then have "utf8_valid [b]" using utf8_valid_encode [of "[unat b]"] by simp
  then show ?case using utf8_valid_append [of "[b]" s] Cons by simp
qed simp

section \<open>UTF-16\<close>

definition utf16_units :: "nat \<Rightarrow> nat list" where
  "utf16_units c =
     (if c < 0x10000 then [c] else [0xD800 + (c - 0x10000) div 0x400, 0xDC00 + (c - 0x10000) mod 0x400])"

definition encode_utf16 :: "str \<Rightarrow> nat list" where
  "encode_utf16 s = concat (map utf16_units (chars s))"

lemma utf16_units_inject:
  assumes "is_scalar c" "is_scalar d" "utf16_units c @ us = utf16_units d @ vs"
  shows "c = d \<and> us = vs"
proof -
  define h l where "h = (\<lambda>e :: nat. (e - 0x10000) div 0x400)" and "l = (\<lambda>e :: nat. (e - 0x10000) mod 0x400)"
  have split: "e = h e * 0x400 + l e + 0x10000" if "0x10000 \<le> e" for e
    using that div_mult_mod_eq [of "e - 0x10000" "0x400"] by (simp add: h_def l_def)
  have u: "utf16_units e = (if e < 0x10000 then [e] else [0xD800 + h e, 0xDC00 + l e])" for e
    by (simp add: utf16_units_def h_def l_def)
  have high: "h e < 0x400" if "is_scalar e" "0x10000 \<le> e" for e
    using that split [of e] unfolding is_scalar_def by linarith
  consider "c < 0x10000" "d < 0x10000" | "0x10000 \<le> c" "0x10000 \<le> d" | "c < 0x10000" "0x10000 \<le> d"
    | "0x10000 \<le> c" "d < 0x10000" by linarith
  then show ?thesis
  proof cases
    case 2
    then show ?thesis using assms(3) split [of c] split [of d] by (simp add: u)
  next
    case 3
    then show ?thesis using assms high [of d] by (simp add: u is_scalar_def)
  next
    case 4
    then show ?thesis using assms high [of c] by (simp add: u is_scalar_def)
  qed (use assms(3) in \<open>simp add: u\<close>)
qed

lemma encode_utf16_inject:
  assumes "utf8_valid s" "utf8_valid t"
  shows "encode_utf16 s = encode_utf16 t \<longleftrightarrow> s = t"
proof -
  have "concat (map utf16_units cs) = concat (map utf16_units ds) \<Longrightarrow> cs = ds"
    if "list_all is_scalar cs" "list_all is_scalar ds" for cs ds
    using that
  proof (induction cs arbitrary: ds)
    case Nil
    then show ?case by (cases ds) (auto simp: utf16_units_def split: if_splits)
  next
    case (Cons c cs)
    then obtain d ds' where ds: "ds = d # ds'" by (cases ds) (auto simp: utf16_units_def split: if_splits)
    have "c = d \<and> concat (map utf16_units cs) = concat (map utf16_units ds')"
      by (rule utf16_units_inject) (use Cons.prems ds in auto)
    then show ?case using Cons ds by auto
  qed
  then show ?thesis using assms by (metis encode_utf16_def utf8_validE)
qed

section \<open>ASCII texts\<close>

definition ascii :: "u8 list \<Rightarrow> bool" where
  "ascii s \<longleftrightarrow> list_all (\<lambda>b. b < 0x80) s"

lemma ascii_encode: "ascii s \<Longrightarrow> s = utf8_encode (map unat s) \<and> list_all is_scalar (map unat s)"
proof (induction s)
  case (Cons b s)
  then have "unat b < 0x80" by (simp add: ascii_def word_less_nat_alt)
  then show ?case using Cons by (simp add: ascii_def encode_utf8_def is_scalar_def)
qed simp

lemma ascii_valid: "ascii s \<Longrightarrow> utf8_valid s"
  by (simp add: ascii_def utf8_valid_ascii)

lemma chars_ascii: "ascii s \<Longrightarrow> chars s = map unat s"
  using ascii_encode [of s] chars_encode [of "map unat s"] by metis

lemma encode_utf16_ascii:
  assumes "ascii s"
  shows "encode_utf16 s = map unat s"
proof -
  have "unat b < 0x10000" for b :: u8 using unat_lt_256 [of b] by simp
  then have "concat (map utf16_units (map unat s)) = map unat s" by (induction s) (simp_all add: utf16_units_def)
  then show ?thesis by (simp add: encode_utf16_def chars_ascii [OF assms])
qed

lemma ascii_lit: "ascii (lit s) \<longleftrightarrow> list_all (\<lambda>c. of_char c < (0x80 :: nat)) s"
  by (induction s) (simp_all add: ascii_def lit_Cons word_less_nat_alt)

end
