(* ===== verification/Json.thy ===== *)
theory Json
  imports Vocabulary Utf8 "HOL-Library.Multiset"
begin

text \<open>
  Canonical JSON of \<^verbatim>\<open>crates/archivist-protocol/src/json.rs\<close>: the value domain without floating
  point, objects as member lists kept in UTF-16 order, the bounded recursive-descent parser and
  the RFC 8785 serializer.

  An \<^verbatim>\<open>i64\<close> is an \<open>int\<close> with its range in the invariant, a \<^verbatim>\<open>String\<close> the list of its UTF-8
  bytes. The parser is the record of the source's fields; a method that takes \<^verbatim>\<open>&mut self\<close>
  returns the parser with its result. The three mutually recursive methods (and the loops of
  two of them) are one \<open>function\<close> whose termination rests on the fact that a value consumes at
  least one byte.
\<close>

section \<open>Values and objects\<close>

definition DEFAULT_MAX_BYTES :: nat where
  "DEFAULT_MAX_BYTES = 8 * 1024 * 1024"

definition DEFAULT_MAX_DEPTH :: nat where
  "DEFAULT_MAX_DEPTH = 64"

datatype Value =
  Null
| Bool bool
| IntV int
| Text str
| Array "Value list"
| Object "(str \<times> Value) list"

type_synonym members = "(str \<times> Value) list"

datatype Ordering = OrdLess | OrdEqual | OrdGreater

datatype ParseError =
  Malformed nat string
| NumberOutsideDomain nat
| LengthExceeded
| DepthExceeded nat
| DuplicateMember

fun cmp_units :: "nat list \<Rightarrow> nat list \<Rightarrow> Ordering" where
  "cmp_units (x # left) (y # right) =
     (if x < y then OrdLess else if y < x then OrdGreater else cmp_units left right)"
| "cmp_units [] [] = OrdEqual"
| "cmp_units [] (y # right) = OrdLess"
| "cmp_units (x # left) [] = OrdGreater"

definition cmp_utf16 :: "str \<Rightarrow> str \<Rightarrow> Ordering" where
  "cmp_utf16 a b = cmp_units (encode_utf16 a) (encode_utf16 b)"

text \<open>\<^verbatim>\<open>slice::binary_search_by\<close>: the halving loop over a base and a size, then one comparison.\<close>

function bisect :: "(nat \<Rightarrow> Ordering) \<Rightarrow> nat \<Rightarrow> nat \<Rightarrow> nat" where
  "bisect f base n =
     (if n \<le> 1 then base
      else let half = n div 2; mid = base + half
           in bisect f (if f mid = OrdGreater then base else mid) (n - half))"
  by auto
termination
  by (relation "measure (\<lambda>(f, base, n). n)") auto

definition binary_search_by :: "('a \<Rightarrow> Ordering) \<Rightarrow> 'a list \<Rightarrow> nat + nat" where
  "binary_search_by f xs =
     (if xs = [] then Inl 0
      else let base = bisect (\<lambda>i. f (xs ! i)) 0 (length xs); cmp = f (xs ! base)
           in if cmp = OrdEqual then Inr base
              else Inl (base + (if cmp = OrdLess then 1 else 0)))"

definition slot :: "members \<Rightarrow> str \<Rightarrow> nat + nat" where
  "slot self name = binary_search_by (\<lambda>(existing, _). cmp_utf16 existing name) self"

definition vec_insert :: "nat \<Rightarrow> 'a \<Rightarrow> 'a list \<Rightarrow> 'a list" where
  "vec_insert at x xs = take at xs @ x # drop at xs"

definition vec_remove :: "nat \<Rightarrow> 'a list \<Rightarrow> 'a list" where
  "vec_remove at xs = take at xs @ drop (at + 1) xs"

definition obj_insert :: "members \<Rightarrow> str \<Rightarrow> Value \<Rightarrow> ParseError + members" where
  "obj_insert self name v =
     (case slot self name of Inr _ \<Rightarrow> Inl DuplicateMember
      | Inl at \<Rightarrow> Inr (vec_insert at (name, v) self))"

definition obj_set :: "members \<Rightarrow> str \<Rightarrow> Value \<Rightarrow> members" where
  "obj_set self name v =
     (case slot self name of Inr at \<Rightarrow> self[at := (fst (self ! at), v)]
      | Inl at \<Rightarrow> vec_insert at (name, v) self)"

definition obj_get :: "members \<Rightarrow> str \<Rightarrow> Value option" where
  "obj_get self name =
     (case slot self name of Inr at \<Rightarrow> Some (snd (self ! at)) | Inl _ \<Rightarrow> None)"

definition obj_remove :: "members \<Rightarrow> str \<Rightarrow> Value option \<times> members" where
  "obj_remove self name =
     (case slot self name of Inr at \<Rightarrow> (Some (snd (self ! at)), vec_remove at self)
      | Inl _ \<Rightarrow> (None, self))"

definition obj_contains :: "members \<Rightarrow> str \<Rightarrow> bool" where
  "obj_contains self name \<longleftrightarrow> obj_get self name \<noteq> None"

section \<open>The parser\<close>

record Parser =
  p_bytes :: "u8 list"
  p_pos :: nat
  p_max_depth :: nat

definition malformed :: "Parser \<Rightarrow> string \<Rightarrow> ParseError" where
  "malformed self reason = Malformed (p_pos self) reason"

definition peek :: "Parser \<Rightarrow> u8 option" where
  "peek self = (if p_pos self < length (p_bytes self) then Some (p_bytes self ! p_pos self) else None)"

definition adv :: "Parser \<Rightarrow> nat \<Rightarrow> Parser" where
  "adv self n = self\<lparr>p_pos := p_pos self + n\<rparr>"

text \<open>A loop that steps over the bytes satisfying a test.\<close>

function skip_while :: "(u8 \<Rightarrow> bool) \<Rightarrow> Parser \<Rightarrow> Parser" where
  "skip_while P self =
     (case peek self of None \<Rightarrow> self
      | Some c \<Rightarrow> if P c then skip_while P (adv self 1) else self)"
  by auto
termination
  by (relation "measure (\<lambda>(P, self). length (p_bytes self) - p_pos self)")
    (auto simp: peek_def adv_def split: if_splits)

definition is_ws :: "u8 \<Rightarrow> bool" where
  "is_ws c \<longleftrightarrow> c = 0x20 \<or> c = 0x09 \<or> c = 0x0a \<or> c = 0x0d"

definition skip_ws :: "Parser \<Rightarrow> Parser" where
  "skip_ws self = skip_while is_ws self"

definition expect :: "Parser \<Rightarrow> u8 \<Rightarrow> ParseError + Parser" where
  "expect self byte =
     (if peek self = Some byte then Inr (adv self 1) else Inl (malformed self ''unexpected byte''))"

definition literal :: "Parser \<Rightarrow> str \<Rightarrow> ParseError + Parser" where
  "literal self word =
     (if take (length word) (drop (p_pos self) (p_bytes self)) = word then Inr (adv self (length word))
      else Inl (malformed self ''unrecognized literal''))"

definition hex_digit :: "u8 \<Rightarrow> nat option" where
  "hex_digit c =
     (if ch CHR ''0'' \<le> c \<and> c \<le> ch CHR ''9'' then Some (unat (c - ch CHR ''0''))
      else if ch CHR ''a'' \<le> c \<and> c \<le> ch CHR ''f'' then Some (unat (c - ch CHR ''a'' + 10))
      else if ch CHR ''A'' \<le> c \<and> c \<le> ch CHR ''F'' then Some (unat (c - ch CHR ''A'' + 10))
      else None)"

fun hex4_loop :: "nat \<Rightarrow> Parser \<Rightarrow> nat \<Rightarrow> ParseError + (nat \<times> Parser)" where
  "hex4_loop 0 self value = Inr (value, self)"
| "hex4_loop (Suc k) self value =
     (case hex_digit (p_bytes self ! p_pos self) of
        None \<Rightarrow> Inl (malformed self (''invalid hex digit in '' @ CHR 0x5C # ''u escape''))
      | Some digit \<Rightarrow> hex4_loop k (adv self 1) (value * 16 + digit))"

definition hex4 :: "Parser \<Rightarrow> ParseError + (nat \<times> Parser)" where
  "hex4 self =
     (if p_pos self + 4 > length (p_bytes self) then Inl (malformed self (''truncated '' @ CHR 0x5C # ''u escape''))
      else hex4_loop 4 self 0)"

text \<open>The character an escape letter stands for; \<open>None\<close> for the letters that are no simple escape.\<close>

definition simple_escape :: "u8 \<Rightarrow> nat option" where
  "simple_escape c =
     (if c = 0x22 then Some 0x22 else if c = 0x5C then Some 0x5C else if c = 0x2F then Some 0x2F
      else if c = ch CHR ''b'' then Some 0x8 else if c = ch CHR ''f'' then Some 0xC
      else if c = ch CHR ''n'' then Some 0xA else if c = ch CHR ''r'' then Some 0xD
      else if c = ch CHR ''t'' then Some 0x9 else None)"

definition unicode_escape :: "Parser \<Rightarrow> str \<Rightarrow> ParseError + (str \<times> Parser)" where
  "unicode_escape self out =
     and_then (hex4 self) (\<lambda>(first, self).
       if 0xD800 \<le> first \<and> first < 0xDC00 then
         (if peek self \<noteq> Some 0x5C then Inl (malformed self ''lone surrogate'')
          else let self = adv self 1 in
            if peek self \<noteq> Some (ch CHR ''u'') then Inl (malformed self ''lone surrogate'')
            else and_then (hex4 (adv self 1)) (\<lambda>(second, self).
              if \<not> (0xDC00 \<le> second \<and> second < 0xE000) then Inl (malformed self ''invalid low surrogate'')
              else let combined = 0x10000 + (first - 0xD800) * 2 ^ 10 + (second - 0xDC00)
                   in case char_from_u32 combined of
                        None \<Rightarrow> Inl (malformed self ''invalid code point'')
                      | Some c \<Rightarrow> Inr (out @ encode_utf8 c, self)))
       else if 0xDC00 \<le> first \<and> first < 0xE000 then Inl (malformed self ''lone surrogate'')
       else case char_from_u32 first of
              None \<Rightarrow> Inl (malformed self ''invalid code point'')
            | Some c \<Rightarrow> Inr (out @ encode_utf8 c, self))"

definition escape :: "Parser \<Rightarrow> str \<Rightarrow> ParseError + (str \<times> Parser)" where
  "escape self out =
     (case peek self of None \<Rightarrow> Inl (malformed self ''unknown escape'')
      | Some b \<Rightarrow>
          (case simple_escape b of
             Some c \<Rightarrow> Inr (out @ encode_utf8 c, adv self 1)
           | None \<Rightarrow>
               if b = ch CHR ''u'' then unicode_escape (adv self 1) out
               else Inl (malformed self ''unknown escape'')))"

definition plain_byte :: "u8 \<Rightarrow> bool" where
  "plain_byte c \<longleftrightarrow> \<not> (c = 0x22 \<or> c = 0x5C \<or> c < 0x20)"

declare bisect.simps [simp del] skip_while.simps [simp del]

section \<open>Positions\<close>

text \<open>The input still to be read; every method is characterised by what it does to it.\<close>

definition remaining :: "Parser \<Rightarrow> u8 list" where
  "remaining self = drop (p_pos self) (p_bytes self)"

text \<open>\<open>ahead p p'\<close>: \<open>p'\<close> reads the same input, \<open>p'\<close> is within it and has consumed at least \<open>k\<close> bytes.\<close>

definition ahead :: "nat \<Rightarrow> Parser \<Rightarrow> Parser \<Rightarrow> bool" where
  "ahead k p p' \<longleftrightarrow> (\<exists>n \<ge> k. p' = adv p n \<and> n \<le> length (remaining p))"

lemma adv_simps [simp]:
  "p_bytes (adv p n) = p_bytes p" "p_pos (adv p n) = p_pos p + n" "p_max_depth (adv p n) = p_max_depth p"
  "adv (adv p n) m = adv p (n + m)" "adv p 0 = p"
  by (simp_all add: adv_def)

lemma remaining_adv [simp]: "remaining (adv p n) = drop n (remaining p)"
  by (simp add: remaining_def add.commute)

lemma peek_remaining: "peek p = (case remaining p of [] \<Rightarrow> None | c # _ \<Rightarrow> Some c)"
  by (auto simp: peek_def remaining_def Cons_nth_drop_Suc [symmetric] split: list.splits)

lemma peek_simps [simp]: "remaining p = c # s \<Longrightarrow> peek p = Some c" "remaining p = [] \<Longrightarrow> peek p = None"
  by (simp_all add: peek_remaining)

lemma peek_Some: "peek p = Some c \<longleftrightarrow> (\<exists>s. remaining p = c # s)"
  by (cases "remaining p") (auto simp: peek_remaining)

lemma ahead_trans: "ahead k p p' \<Longrightarrow> ahead l p' p'' \<Longrightarrow> ahead (k + l) p p''"
  unfolding ahead_def by (elim exE conjE, rule_tac x = "n + na" in exI) auto

lemma ahead_weaken: "ahead k p p' \<Longrightarrow> l \<le> k \<Longrightarrow> ahead l p p'"
  unfolding ahead_def by (metis le_trans)

lemma ahead_refl [simp]: "ahead 0 p p"
  unfolding ahead_def by (rule exI [of _ 0]) simp

lemma ahead_adv: "n \<le> length (remaining p) \<Longrightarrow> ahead n p (adv p n)"
  unfolding ahead_def by (rule exI [of _ n]) simp

lemma skip_while_eq: "skip_while P p = adv p (length (takeWhile P (remaining p)))"
proof (induction P p rule: skip_while.induct)
  case (1 P p)
  show ?case
  proof (cases "remaining p")
    case Nil
    then show ?thesis by (subst skip_while.simps) (simp add: peek_remaining)
  next
    case (Cons c s)
    then have "peek p = Some c" by simp
    then show ?thesis using "1.IH" [of c] Cons by (simp add: skip_while.simps [of P p])
  qed
qed

lemma ahead_skip_while: "ahead 0 p (skip_while P p)"
  unfolding skip_while_eq by (rule ahead_weaken [OF ahead_adv]) (simp_all add: length_takeWhile_le)

lemma ahead_skip_ws: "ahead 0 p (skip_ws p)"
  by (simp add: skip_ws_def ahead_skip_while)

lemma ahead_expect: "expect p b = Inr p' \<Longrightarrow> ahead 1 p p'"
  by (auto simp: expect_def peek_Some split: if_splits intro!: ahead_adv)

lemma ahead_literal: "literal p w = Inr p' \<Longrightarrow> ahead (length w) p p'"
  unfolding literal_def remaining_def [symmetric]
  by (auto split: if_splits intro!: ahead_adv) (metis nat_le_linear take_all)

lemma ahead_hex4_loop:
  "hex4_loop k p v = Inr (v', p') \<Longrightarrow> k \<le> length (remaining p) \<Longrightarrow> ahead k p p'"
proof (induction k arbitrary: p v)
  case (Suc k)
  then have "ahead k (adv p 1) p'" by (auto split: option.splits)
  moreover have "ahead 1 p (adv p 1)" using Suc.prems(2) by (intro ahead_adv) simp
  ultimately show ?case using ahead_trans by fastforce
qed simp

lemma ahead_hex4: "hex4 p = Inr (v, p') \<Longrightarrow> ahead 4 p p'"
  by (auto simp: hex4_def remaining_def split: if_splits intro!: ahead_hex4_loop)

lemma ahead_unicode_escape:
  assumes "unicode_escape p out = Inr (out', p')"
  shows "ahead 1 p p'"
proof -
  obtain first p1 where 1: "hex4 p = Inr (first, p1)"
    using assms by (auto simp: unicode_escape_def result_simps)
  show ?thesis
  proof (cases "0xD800 \<le> first \<and> first < 0xDC00")
    case True
    then obtain second where "hex4 (adv p1 (Suc (Suc 0))) = Inr (second, p')" "Suc (Suc 0) \<le> length (remaining p1)"
      using assms 1
      by (auto simp: unicode_escape_def result_simps Let_def peek_Some split: if_splits option.splits)
    then have "ahead (4 + (Suc (Suc 0) + 4)) p p'"
      using ahead_hex4 [OF 1] by (intro ahead_trans ahead_adv) (auto intro: ahead_hex4 ahead_adv)
    then show ?thesis by (rule ahead_weaken) simp
  next
    case False
    then have "p' = p1" using assms 1 by (auto simp: unicode_escape_def split: if_splits option.splits)
    then show ?thesis using ahead_hex4 [OF 1] ahead_weaken by fastforce
  qed
qed

lemma ahead_escape:
  assumes "escape p out = Inr (out', p')"
  shows "ahead 1 p p'"
proof -
  obtain b s where b: "remaining p = b # s" using assms by (auto simp: escape_def peek_remaining split: list.splits)
  have one: "ahead 1 p (adv p 1)" using b by (intro ahead_adv) simp
  show ?thesis
  proof (cases "simple_escape b")
    case None
    then have "ahead 1 (adv p 1) p'"
      using assms b by (intro ahead_unicode_escape [of _ out out']) (auto simp: escape_def peek_remaining split: if_splits)
    then show ?thesis using ahead_trans [OF one] ahead_weaken by fastforce
  next
    case (Some c)
    then show ?thesis using assms b one by (auto simp: escape_def peek_remaining)
  qed
qed

section \<open>Strings and numbers\<close>

text \<open>One round of the loop: absorb a run of plain bytes, then look at what stopped it.\<close>

definition absorb_run :: "Parser \<Rightarrow> str \<Rightarrow> ParseError + (str \<times> Parser)" where
  "absorb_run self out =
     (let start = p_pos self; self = skip_while plain_byte self in
      if p_pos self > start then
        (let chunk = take (p_pos self - start) (drop start (p_bytes self)) in
         if utf8_valid chunk then Inr (out @ chunk, self)
         else Inl (malformed self ''string is not valid UTF-8''))
      else Inr (out, self))"

lemma absorb_run_eq:
  "absorb_run p out =
     (let chunk = takeWhile plain_byte (remaining p) in
      if utf8_valid chunk then Inr (out @ chunk, adv p (length chunk))
      else Inl (malformed (adv p (length chunk)) ''string is not valid UTF-8''))"
proof -
  have "take (length (takeWhile plain_byte (remaining p))) (drop (p_pos p) (p_bytes p)) = takeWhile plain_byte (remaining p)"
    by (simp add: remaining_def [symmetric] takeWhile_eq_take [symmetric])
  then show ?thesis
    by (cases "takeWhile plain_byte (remaining p) = []") (simp_all add: absorb_run_def skip_while_eq Let_def)
qed

lemma ahead_absorb_run: "absorb_run p out = Inr (out', p') \<Longrightarrow> ahead 0 p p'"
  by (auto simp: absorb_run_eq Let_def split: if_splits intro!: ahead_weaken [OF ahead_adv] length_takeWhile_le)

lemma ahead_measure: "ahead 1 p p' \<Longrightarrow> length (p_bytes p') - p_pos p' < length (p_bytes p) - p_pos p"
  by (auto simp: ahead_def remaining_def)

function string_loop :: "Parser \<Rightarrow> str \<Rightarrow> ParseError + (str \<times> Parser)" where
  "string_loop self out =
     and_then (absorb_run self out) (\<lambda>(out, self).
       case peek self of
         None \<Rightarrow> Inl (malformed self ''unterminated string'')
       | Some c \<Rightarrow>
           if c = 0x22 then Inr (out, adv self 1)
           else if c = 0x5C then and_then (escape (adv self 1) out) (\<lambda>(out, self). string_loop self out)
           else if c < 0x20 then Inl (malformed self ''raw control character in string'')
           else Inl (malformed self ''unterminated string''))"
  by auto
termination
proof (relation "measure (\<lambda>(self, out). length (p_bytes self) - p_pos self)", simp)
  fix p :: Parser and out x out1 p1 c y out2 p2
  assume "absorb_run p out = Inr x" "(out1, p1) = x" "peek p1 = Some c" "escape (adv p1 1) out1 = Inr y" "(out2, p2) = y"
  then have "ahead 0 p p1" "ahead 1 p1 (adv p1 1)" "ahead 1 (adv p1 1) p2"
    using ahead_absorb_run [of p out out1 p1] ahead_escape [of "adv p1 1" out1 out2 p2] ahead_adv [of 1 p1]
    by (auto simp: peek_Some)
  then have "ahead (0 + (1 + 1)) p p2" by (intro ahead_trans)
  then show "((p2, out2), p, out) \<in> measure (\<lambda>(self, out). length (p_bytes self) - p_pos self)"
    using ahead_measure [OF ahead_weaken] by simp
qed

declare string_loop.simps [simp del]

definition parse_string :: "Parser \<Rightarrow> ParseError + (str \<times> Parser)" where
  "parse_string self = and_then (expect self 0x22) (\<lambda>self. string_loop self [])"

text \<open>\<^verbatim>\<open>str::parse::<i64>\<close>: an optional sign and at least one digit, in range.\<close>

definition decimal_value :: "str \<Rightarrow> nat" where
  "decimal_value s = foldl (\<lambda>acc c. acc * 10 + unat (c - ch CHR ''0'')) 0 s"

definition in_i64 :: "int \<Rightarrow> bool" where
  "in_i64 n \<longleftrightarrow> - (2 ^ 63) \<le> n \<and> n < 2 ^ 63"

definition parse_i64 :: "str \<Rightarrow> int option" where
  "parse_i64 s =
     (let negative = (s \<noteq> [] \<and> hd s = ch CHR ''-'');
          ds = (if s \<noteq> [] \<and> (hd s = ch CHR ''-'' \<or> hd s = ch CHR ''+'') then tl s else s);
          n = (if negative then - int (decimal_value ds) else int (decimal_value ds))
      in if ds = [] \<or> \<not> digits ds \<or> \<not> in_i64 n then None else Some n)"

text \<open>The integer part of a number: a single zero, or a run of digits.\<close>

definition scan_integer :: "Parser \<Rightarrow> ParseError + Parser" where
  "scan_integer self =
     (case peek self of
        None \<Rightarrow> Inl (malformed self ''invalid number'')
      | Some c \<Rightarrow>
          if c = ch CHR ''0'' then
            (let self = adv self 1 in
             case peek self of
               Some d \<Rightarrow> if is_ascii_digit d then Inl (malformed self ''leading zero in number'') else Inr self
             | None \<Rightarrow> Inr self)
          else if is_ascii_digit c then Inr (skip_while is_ascii_digit self)
          else Inl (malformed self ''invalid number''))"

definition parse_number :: "Parser \<Rightarrow> ParseError + (Value \<times> Parser)" where
  "parse_number self =
     (let start = p_pos self;
          self = (if peek self = Some (ch CHR ''-'') then adv self 1 else self)
      in and_then (scan_integer self) (\<lambda>self.
           if peek self = Some (ch CHR ''.'') \<or> peek self = Some (ch CHR ''e'') \<or> peek self = Some (ch CHR ''E'')
           then Inl (NumberOutsideDomain start)
           else let t = take (p_pos self - start) (drop start (p_bytes self)) in
             if \<not> utf8_valid t then Inl (malformed self ''invalid number'')
             else case parse_i64 t of
                    None \<Rightarrow> Inl (NumberOutsideDomain start)
                  | Some n \<Rightarrow> Inr (IntV n, self)))"

lemma ahead_string_loop: "string_loop p out = Inr (s, p') \<Longrightarrow> ahead 1 p p'"
proof (induction p out rule: string_loop.induct)
  case (1 p out)
  obtain out1 p1 c s1 where 1: "absorb_run p out = Inr (out1, p1)" "remaining p1 = c # s1"
    using "1.prems" by (subst (asm) string_loop.simps) (auto simp: result_simps peek_Some split: option.splits)
  have one: "ahead 1 p1 (adv p1 1)" "ahead 0 p p1" using 1 by (auto intro: ahead_adv ahead_absorb_run)
  show ?case
  proof (cases "c = 0x5C")
    case True
    then obtain out2 p2 where 2: "escape (adv p1 1) out1 = Inr (out2, p2)" "string_loop p2 out2 = Inr (s, p')"
      using "1.prems" 1 by (subst (asm) string_loop.simps) (auto simp: result_simps)
    then have "ahead 1 p2 p'" using 1 True by (intro "1.IH") auto
    then have "ahead (0 + (1 + (1 + 1))) p p'" using one ahead_escape [OF 2(1)] by (intro ahead_trans)
    then show ?thesis by (rule ahead_weaken) simp
  next
    case False
    then have "p' = adv p1 1" using "1.prems" 1 by (subst (asm) string_loop.simps) (auto split: if_splits)
    then show ?thesis using ahead_trans [OF one(2,1)] by simp
  qed
qed

lemma ahead_parse_string: "parse_string p = Inr (s, p') \<Longrightarrow> ahead 1 p p'"
  unfolding parse_string_def and_then_eq_Inr
  using ahead_trans [OF ahead_expect ahead_string_loop] ahead_weaken by fastforce

lemma ahead_scan_integer:
  assumes "scan_integer p = Inr p'"
  shows "ahead 1 p p'"
proof -
  obtain c s where c: "remaining p = c # s" using assms by (cases "remaining p") (auto simp: scan_integer_def)
  then have one: "ahead 1 p (adv p 1)" by (intro ahead_adv) simp
  show ?thesis
  proof (cases "c = ch CHR ''0''")
    case True
    then have "p' = adv p 1" using assms c by (auto simp: scan_integer_def Let_def split: option.splits if_splits)
    then show ?thesis using one by simp
  next
    case False
    then have "p' = skip_while is_ascii_digit p" "is_ascii_digit c"
      using assms c by (auto simp: scan_integer_def split: if_splits)
    then have "p' = adv p (Suc (length (takeWhile is_ascii_digit s)))" using c by (simp add: skip_while_eq)
    moreover have "ahead (Suc (length (takeWhile is_ascii_digit s))) p (adv p (Suc (length (takeWhile is_ascii_digit s))))"
      using c by (intro ahead_adv) (simp add: length_takeWhile_le)
    ultimately show ?thesis using ahead_weaken [of _ p p' 1] by simp
  qed
qed

lemma parse_number_cases:
  assumes "parse_number p = Inr (v, p')"
  obtains q n where "q = p \<or> (remaining p \<noteq> [] \<and> hd (remaining p) = ch CHR ''-'' \<and> q = adv p 1)" "scan_integer q = Inr p'"
    "parse_i64 (take (p_pos p' - p_pos p) (remaining p)) = Some n" "v = IntV n"
proof -
  let ?q = "if peek p = Some (ch CHR ''-'') then adv p 1 else p"
  have q: "?q = p \<or> (remaining p \<noteq> [] \<and> hd (remaining p) = ch CHR ''-'' \<and> ?q = adv p 1)" by (auto simp: peek_Some)
  obtain p1 where p1: "scan_integer ?q = Inr p1"
    using assms unfolding parse_number_def Let_def and_then_eq_Inr by blast
  have bs: "p_bytes p1 = p_bytes p"
    using ahead_scan_integer [OF p1] by (auto simp: ahead_def)
  have "(case parse_i64 (take (p_pos p1 - p_pos p) (remaining p)) of None \<Rightarrow> Inl (NumberOutsideDomain (p_pos p))
      | Some n \<Rightarrow> Inr (IntV n, p1)) = Inr (v, p')"
    using assms p1 by (simp add: parse_number_def Let_def bs remaining_def [symmetric] split: if_splits)
  then obtain n where "parse_i64 (take (p_pos p1 - p_pos p) (remaining p)) = Some n" "v = IntV n" "p' = p1"
    by (auto split: option.splits)
  then show thesis using that [OF q, of n] p1 by simp
qed

lemma ahead_parse_number:
  assumes "parse_number p = Inr (v, p')"
  shows "ahead 1 p p'"
  using assms
proof (cases rule: parse_number_cases)
  case (1 q n)
  then have "ahead 0 p q" by (auto simp: Suc_le_eq intro!: ahead_weaken [OF ahead_adv])
  then show ?thesis using ahead_trans ahead_scan_integer [OF 1(2)] by fastforce
qed

section \<open>Arrays, objects and values\<close>

function parse_value :: "Parser \<Rightarrow> nat \<Rightarrow> ParseError + (Value \<times> Parser)"
  and parse_object :: "Parser \<Rightarrow> nat \<Rightarrow> ParseError + (Value \<times> Parser)"
  and object_loop :: "Parser \<Rightarrow> nat \<Rightarrow> members \<Rightarrow> ParseError + (Value \<times> Parser)"
  and parse_array :: "Parser \<Rightarrow> nat \<Rightarrow> ParseError + (Value \<times> Parser)"
  and array_loop :: "Parser \<Rightarrow> nat \<Rightarrow> Value list \<Rightarrow> ParseError + (Value \<times> Parser)" where
  "parse_value self depth =
     (if depth > p_max_depth self then Inl (DepthExceeded (p_pos self))
      else case peek self of
        None \<Rightarrow> Inl (malformed self ''expected a value'')
      | Some c \<Rightarrow>
          if c = 0x7B then parse_object self depth
          else if c = 0x5B then parse_array self depth
          else if c = 0x22 then and_then (parse_string self) (\<lambda>(s, self). Inr (Text s, self))
          else if c = ch CHR ''t'' then and_then (literal self (lit ''true'')) (\<lambda>self. Inr (Bool True, self))
          else if c = ch CHR ''f'' then and_then (literal self (lit ''false'')) (\<lambda>self. Inr (Bool False, self))
          else if c = ch CHR ''n'' then and_then (literal self (lit ''null'')) (\<lambda>self. Inr (Null, self))
          else if c = ch CHR ''-'' \<or> is_ascii_digit c then parse_number self
          else Inl (malformed self ''expected a value''))"
| "parse_object self depth =
     and_then (expect self 0x7B) (\<lambda>self.
       let self = skip_ws self in
       if peek self = Some 0x7D then Inr (Object [], adv self 1)
       else object_loop self depth [])"
| "object_loop self depth out =
     and_then (parse_string (skip_ws self)) (\<lambda>(name, self).
     and_then (expect (skip_ws self) 0x3A) (\<lambda>self.
     and_then (parse_value (skip_ws self) (depth + 1)) (\<lambda>(v, self).
     and_then (obj_insert out name v) (\<lambda>out.
       let self = skip_ws self in
       if peek self = Some 0x2C then object_loop (adv self 1) depth out
       else if peek self = Some 0x7D then Inr (Object out, adv self 1)
       else Inl (malformed self ''expected ',' or '}' in object'')))))"
| "parse_array self depth =
     and_then (expect self 0x5B) (\<lambda>self.
       let self = skip_ws self in
       if peek self = Some 0x5D then Inr (Array [], adv self 1)
       else array_loop self depth [])"
| "array_loop self depth out =
     and_then (parse_value (skip_ws self) (depth + 1)) (\<lambda>(v, self).
       let self = skip_ws self; out = out @ [v] in
       if peek self = Some 0x2C then array_loop (adv self 1) depth out
       else if peek self = Some 0x5D then Inr (Array out, adv self 1)
       else Inl (malformed self ''expected ',' or ']' in array''))"
  by pat_completeness auto


lemma ahead_left: "ahead k p p' \<Longrightarrow> length (remaining p') + k \<le> length (remaining p)"
  by (auto simp: ahead_def)

lemmas left_steps = ahead_left [OF ahead_expect] ahead_left [OF ahead_parse_string]

lemma left_skip_ws: "length (remaining (skip_ws p)) \<le> length (remaining p)"
  using ahead_left [OF ahead_skip_ws] by simp

text \<open>Where a method returns, it has consumed a byte; shown on the domain, before termination.\<close>

abbreviation parser_dom :: "(Parser \<times> nat + Parser \<times> nat) + (Parser \<times> nat \<times> members + (Parser \<times> nat + Parser \<times> nat \<times> Value list)) \<Rightarrow> bool" where
  "parser_dom \<equiv> parse_value_parse_object_object_loop_parse_array_array_loop_dom"

lemma ahead_peek: "peek p = Some c \<Longrightarrow> ahead 1 p (adv p 1)"
  by (auto simp: peek_Some intro!: ahead_adv)

lemma ahead_Suc: "ahead (Suc k) p p' \<Longrightarrow> ahead (Suc 0) p p'"
  by (erule ahead_weaken) simp

lemma ahead_parse_dom:
  "parser_dom (Inl (Inl (p, d))) \<Longrightarrow> \<forall>v p'. parse_value p d = Inr (v, p') \<longrightarrow> ahead 1 p p'"
  "parser_dom (Inl (Inr (p, d))) \<Longrightarrow> \<forall>v p'. parse_object p d = Inr (v, p') \<longrightarrow> ahead 1 p p'"
  "parser_dom (Inr (Inl (p, d, out))) \<Longrightarrow> \<forall>v p'. object_loop p d out = Inr (v, p') \<longrightarrow> ahead 1 p p'"
  "parser_dom (Inr (Inr (Inl (p, d)))) \<Longrightarrow> \<forall>v p'. parse_array p d = Inr (v, p') \<longrightarrow> ahead 1 p p'"
  "parser_dom (Inr (Inr (Inr (p, d, vs)))) \<Longrightarrow> \<forall>v p'. array_loop p d vs = Inr (v, p') \<longrightarrow> ahead 1 p p'"
proof (induction rule: parse_value_parse_object_object_loop_parse_array_array_loop.pinduct)
  case (1 p d)
  have lits: "literal p w = Inr p' \<Longrightarrow> w \<noteq> [] \<Longrightarrow> ahead 1 p p'" for w p'
    by (rule ahead_weaken [OF ahead_literal]) (auto simp: Suc_le_eq)
  show ?case
  proof (intro allI impI)
    fix v p' assume "parse_value p d = Inr (v, p')"
    then obtain c where depth: "\<not> p_max_depth p < d" and c: "peek p = Some c" and
      r: "(if c = 0x7B then parse_object p d else if c = 0x5B then parse_array p d
          else if c = 0x22 then and_then (parse_string p) (\<lambda>(s, self). Inr (Text s, self))
          else if c = ch CHR ''t'' then and_then (literal p (lit ''true'')) (\<lambda>self. Inr (Bool True, self))
          else if c = ch CHR ''f'' then and_then (literal p (lit ''false'')) (\<lambda>self. Inr (Bool False, self))
          else if c = ch CHR ''n'' then and_then (literal p (lit ''null'')) (\<lambda>self. Inr (Null, self))
          else if c = ch CHR ''-'' \<or> is_ascii_digit c then parse_number p
          else Inl (malformed p ''expected a value'')) = Inr (v, p')"
      unfolding parse_value.psimps [OF 1(1)] by (cases "p_max_depth p < d"; cases "peek p") simp_all
    show "ahead 1 p p'"
      using r 1(2) [OF depth c] 1(3) [OF depth c] ahead_parse_string [of p] ahead_parse_number [of p v p']
        lits [of "lit ''true''" p'] lits [of "lit ''false''" p'] lits [of "lit ''null''" p']
      by (auto simp: and_then_eq_Inr lit_Cons split: if_split_asm)
  qed
next
  case (2 p d)
  show ?case
  proof (intro allI impI)
    fix v p' assume "parse_object p d = Inr (v, p')"
    then obtain p1 where p1: "expect p 0x7B = Inr p1" and
      r: "(if peek (skip_ws p1) = Some 0x7D then Inr (Object [], adv (skip_ws p1) 1) else object_loop (skip_ws p1) d []) = Inr (v, p')"
      using 2 by (auto simp: parse_object.psimps result_simps Let_def)
    have "ahead 1 (skip_ws p1) p'" using r 2(2) [OF p1 refl] ahead_peek [of "skip_ws p1"] by (simp split: if_split_asm)
    then have "ahead (1 + (0 + 1)) p p'" by (rule ahead_trans [OF ahead_expect [OF p1] ahead_trans [OF ahead_skip_ws]])
    then show "ahead 1 p p'" using ahead_Suc [of 1 p p'] ahead_Suc [of 3 p p'] by (simp add: eval_nat_numeral)
  qed
next
  case (3 p d out)
  show ?case
  proof (intro allI impI)
    fix v p' assume "object_loop p d out = Inr (v, p')"
    then obtain name p1 p2 v1 p3 out1 where s: "parse_string (skip_ws p) = Inr (name, p1)" "expect (skip_ws p1) 0x3A = Inr p2"
      "parse_value (skip_ws p2) (d + 1) = Inr (v1, p3)" "obj_insert out name v1 = Inr out1" and
      r: "(if peek (skip_ws p3) = Some 0x2C then object_loop (adv (skip_ws p3) 1) d out1
        else if peek (skip_ws p3) = Some 0x7D then Inr (Object out1, adv (skip_ws p3) 1)
        else Inl (malformed (skip_ws p3) ''expected ',' or '}' in object'')) = Inr (v, p')"
      using 3 by (auto simp: object_loop.psimps result_simps Let_def)
    have 1: "ahead 1 (skip_ws p2) p3" using 3(2) [OF s(1) refl s(2)] s(3) by simp
    have 2: "ahead 1 (skip_ws p3) p'"
    proof (cases "peek (skip_ws p3) = Some 0x2C")
      case True
      then have "ahead 1 (adv (skip_ws p3) 1) p'" using r 3(3) [OF s(1) refl s(2) s(3) refl s(4) refl] by simp
      then show ?thesis using ahead_Suc [OF ahead_trans [OF ahead_peek [OF True], unfolded One_nat_def add_Suc]] by simp
    next
      case False
      then show ?thesis using r ahead_peek [of "skip_ws p3"] by (simp split: if_split_asm)
    qed
    have "ahead (0 + (1 + (0 + (1 + (0 + (1 + (0 + 1))))))) p p'"
      by (rule ahead_trans [OF ahead_skip_ws ahead_trans [OF ahead_parse_string [OF s(1)]
        ahead_trans [OF ahead_skip_ws ahead_trans [OF ahead_expect [OF s(2)]
        ahead_trans [OF ahead_skip_ws ahead_trans [OF 1 ahead_trans [OF ahead_skip_ws 2]]]]]]])
    then show "ahead 1 p p'" using ahead_Suc [of 1 p p'] ahead_Suc [of 3 p p'] by (simp add: eval_nat_numeral)
  qed
next
  case (4 p d)
  show ?case
  proof (intro allI impI)
    fix v p' assume "parse_array p d = Inr (v, p')"
    then obtain p1 where p1: "expect p 0x5B = Inr p1" and
      r: "(if peek (skip_ws p1) = Some 0x5D then Inr (Array [], adv (skip_ws p1) 1) else array_loop (skip_ws p1) d []) = Inr (v, p')"
      using 4 by (auto simp: parse_array.psimps result_simps Let_def)
    have "ahead 1 (skip_ws p1) p'" using r 4(2) [OF p1 refl] ahead_peek [of "skip_ws p1"] by (simp split: if_split_asm)
    then have "ahead (1 + (0 + 1)) p p'" by (rule ahead_trans [OF ahead_expect [OF p1] ahead_trans [OF ahead_skip_ws]])
    then show "ahead 1 p p'" using ahead_Suc [of 1 p p'] ahead_Suc [of 3 p p'] by (simp add: eval_nat_numeral)
  qed
next
  case (5 p d vs)
  show ?case
  proof (intro allI impI)
    fix v p' assume "array_loop p d vs = Inr (v, p')"
    then obtain v1 p3 where s: "parse_value (skip_ws p) (d + 1) = Inr (v1, p3)" and
      r: "(if peek (skip_ws p3) = Some 0x2C then array_loop (adv (skip_ws p3) 1) d (vs @ [v1])
        else if peek (skip_ws p3) = Some 0x5D then Inr (Array (vs @ [v1]), adv (skip_ws p3) 1)
        else Inl (malformed (skip_ws p3) ''expected ',' or ']' in array'')) = Inr (v, p')"
      using 5 by (auto simp: array_loop.psimps result_simps Let_def)
    have 1: "ahead 1 (skip_ws p) p3" using 5(2) s by simp
    have 2: "ahead 1 (skip_ws p3) p'"
    proof (cases "peek (skip_ws p3) = Some 0x2C")
      case True
      then have "ahead 1 (adv (skip_ws p3) 1) p'" using r 5(3) [OF s refl refl refl] by simp
      then show ?thesis using ahead_Suc [OF ahead_trans [OF ahead_peek [OF True], unfolded One_nat_def add_Suc]] by simp
    next
      case False
      then show ?thesis using r ahead_peek [of "skip_ws p3"] by (simp split: if_split_asm)
    qed
    have "ahead (0 + (1 + (0 + 1))) p p'"
      by (rule ahead_trans [OF ahead_skip_ws ahead_trans [OF 1 ahead_trans [OF ahead_skip_ws 2]]])
    then show "ahead 1 p p'" using ahead_Suc [of 1 p p'] ahead_Suc [of 3 p p'] by (simp add: eval_nat_numeral)
  qed
qed

lemma parser_total: "All parser_dom"
proof (rule "parse_value_parse_object_object_loop_parse_array_array_loop.termination" [where R = "measure (case_sum (case_sum (\<lambda>(p, d). 3 * length (remaining p) + 1) (\<lambda>(p, d). 3 * length (remaining p)))
    (case_sum (\<lambda>(p, d, out). 3 * length (remaining p) + 2)
      (case_sum (\<lambda>(p, d). 3 * length (remaining p)) (\<lambda>(p, d, vs). 3 * length (remaining p) + 2))))"], goal_cases)
  case (4 p d p1 p2)
  have "length (remaining p2) < length (remaining p)"
    using ahead_left [OF ahead_expect [OF 4(1)]] left_skip_ws [of p1] 4(2) by simp
  then show ?case by simp
next
  case (5 p d out x name p1 p2)
  have "length (remaining (skip_ws p2)) < length (remaining p)"
    using ahead_left [OF ahead_parse_string, of "skip_ws p" name p1] ahead_left [OF ahead_expect [OF 5(3)]]
      left_skip_ws [of p] left_skip_ws [of p1] left_skip_ws [of p2] 5(1,2) by simp
  then show ?case by simp
next
  case (6 p d out x name p1 p2 y v p3 out' p4)
  have 1: "parse_string (skip_ws p) = Inr (name, p1)" "parse_value (skip_ws p2) (d + 1) = Inr (v, p3)" "p4 = skip_ws p3"
    using 6 by simp_all
  have "ahead 1 (skip_ws p2) p3" using ahead_parse_dom(1) 1(2) 6 by blast
  then have "length (remaining (adv p4 1)) < length (remaining p)"
    using ahead_left [OF ahead_parse_string [OF 1(1)]] ahead_left [OF ahead_expect [OF 6(3)]] ahead_left [of 1 "skip_ws p2" p3]
      left_skip_ws [of p] left_skip_ws [of p1] left_skip_ws [of p2] left_skip_ws [of p3] 1(3) by simp
  then show ?case by simp
next
  case (7 p d p1 p2)
  have "length (remaining p2) < length (remaining p)"
    using ahead_left [OF ahead_expect [OF 7(1)]] left_skip_ws [of p1] 7(2) by simp
  then show ?case by simp
next
  case (8 p d vs)
  then show ?case using left_skip_ws [of p] by simp
next
  case (9 p d vs x v p3 p4 out')
  have 1: "parse_value (skip_ws p) (d + 1) = Inr (v, p3)" "p4 = skip_ws p3" using 9 by simp_all
  have "ahead 1 (skip_ws p) p3" using ahead_parse_dom(1) 1(1) 9 by blast
  then have "length (remaining (adv p4 1)) < length (remaining p)"
    using ahead_left [of 1 "skip_ws p" p3] left_skip_ws [of p] left_skip_ws [of p3] 1(2) by simp
  then show ?case by simp
qed simp_all

termination parse_value
  by (rule parser_total)

lemma ahead_value: "parse_value p d = Inr (v, p') \<Longrightarrow> ahead 1 p p'"
  using ahead_parse_dom(1) [of p d] parser_total by blast

declare parse_value.simps [simp del] parse_object.simps [simp del] object_loop.simps [simp del]
  parse_array.simps [simp del] array_loop.simps [simp del]

definition parse_with_limits :: "u8 list \<Rightarrow> nat \<Rightarrow> nat \<Rightarrow> ParseError + Value" where
  "parse_with_limits input max_bytes max_depth =
     (if length input > max_bytes then Inl LengthExceeded
      else let parser = skip_ws \<lparr>p_bytes = input, p_pos = 0, p_max_depth = max_depth\<rparr> in
        and_then (parse_value parser 0) (\<lambda>(v, parser).
          let parser = skip_ws parser in
          if p_pos parser \<noteq> length (p_bytes parser)
          then Inl (malformed parser ''trailing content after the value'')
          else Inr v))"

definition parse :: "u8 list \<Rightarrow> ParseError + Value" where
  "parse input = parse_with_limits input DEFAULT_MAX_BYTES DEFAULT_MAX_DEPTH"

section \<open>The serializer\<close>

text \<open>The methods append to a buffer; here they are the bytes appended.\<close>

definition escape_char :: "nat \<Rightarrow> u8 list" where
  "escape_char c =
     (if c = 0x22 then [0x5C, 0x22] else if c = 0x5C then [0x5C, 0x5C]
      else if c = 0x8 then [0x5C, ch CHR ''b''] else if c = 0xC then [0x5C, ch CHR ''f'']
      else if c = 0xA then [0x5C, ch CHR ''n''] else if c = 0xD then [0x5C, ch CHR ''r'']
      else if c = 0x9 then [0x5C, ch CHR ''t'']
      else if c < 0x20 then
        [0x5C, ch CHR ''u'', ch CHR ''0'', ch CHR ''0'', HEX ! (c div 16 mod 16), HEX ! (c mod 16)]
      else encode_utf8 c)"

definition write_string :: "str \<Rightarrow> u8 list" where
  "write_string t = 0x22 # concat (map escape_char (chars t)) @ [0x22]"

fun decimal :: "nat \<Rightarrow> str" where
  "decimal n = (if n < 10 then [of_nat (48 + n)] else decimal (n div 10) @ [of_nat (48 + n mod 10)])"

declare decimal.simps [simp del]

definition i64_to_string :: "int \<Rightarrow> str" where
  "i64_to_string n = (if n < 0 then ch CHR ''-'' # decimal (nat (- n)) else decimal (nat n))"

text \<open>The items of a loop that pushes a comma before every item but the first.\<close>

fun comma_separated :: "u8 list list \<Rightarrow> u8 list" where
  "comma_separated [] = []"
| "comma_separated [x] = x"
| "comma_separated (x # y # xs) = x @ 0x2C # comma_separated (y # xs)"

fun write_canonical :: "Value \<Rightarrow> u8 list" where
  "write_canonical Null = lit ''null''"
| "write_canonical (Bool b) = (if b then lit ''true'' else lit ''false'')"
| "write_canonical (IntV n) = i64_to_string n"
| "write_canonical (Text t) = write_string t"
| "write_canonical (Array items) = 0x5B # comma_separated (map write_canonical items) @ [0x5D]"
| "write_canonical (Object ms) =
     0x7B # comma_separated (map (\<lambda>(name, v). write_string name @ 0x3A # write_canonical v) ms) @ [0x7D]"

definition canonical_bytes :: "Value \<Rightarrow> u8 list" where
  "canonical_bytes v = write_canonical v"

section \<open>Well-formed values\<close>

text \<open>Members in strictly increasing UTF-16 order of their names.\<close>

definition sorted_members :: "members \<Rightarrow> bool" where
  "sorted_members ms \<longleftrightarrow> list_all (\<lambda>(name, _). utf8_valid name) ms \<and>
     sorted_wrt (\<lambda>a b. cmp_utf16 (fst a) (fst b) = OrdLess) ms"

fun wf_value :: "Value \<Rightarrow> bool" where
  "wf_value (IntV n) \<longleftrightarrow> in_i64 n"
| "wf_value (Text t) \<longleftrightarrow> utf8_valid t"
| "wf_value (Array items) \<longleftrightarrow> (\<forall>v \<in> set items. wf_value v)"
| "wf_value (Object ms) \<longleftrightarrow> sorted_members ms \<and> (\<forall>m \<in> set ms. wf_value (snd m))"
| "wf_value _ \<longleftrightarrow> True"

fun value_depth :: "Value \<Rightarrow> nat" where
  "value_depth (Array items) = foldr max (map (\<lambda>v. Suc (value_depth v)) items) 0"
| "value_depth (Object ms) = foldr max (map (\<lambda>m. Suc (value_depth (snd m))) ms) 0"
| "value_depth _ = 0"

section \<open>Comparison and search\<close>

lemma cmp_units_equal: "cmp_units a b = OrdEqual \<longleftrightarrow> a = b"
  by (induction a b rule: cmp_units.induct) auto

lemma cmp_units_flip: "cmp_units a b = OrdLess \<longleftrightarrow> cmp_units b a = OrdGreater"
  by (induction a b rule: cmp_units.induct) auto

lemma cmp_units_less: "cmp_units a b = OrdLess \<longleftrightarrow> (a, b) \<in> lexord {(x, y). x < y}"
proof (induction a b rule: cmp_units.induct)
  case (1 x left y right)
  then show ?case by (cases x y rule: linorder_cases) simp_all
qed simp_all

lemma cmp_units_trans: "cmp_units a b = OrdLess \<Longrightarrow> cmp_units b c = OrdLess \<Longrightarrow> cmp_units a c = OrdLess"
  unfolding cmp_units_less by (rule lexord_trans) (auto intro: transI)

lemma cmp_utf16_equal: "utf8_valid a \<Longrightarrow> utf8_valid b \<Longrightarrow> cmp_utf16 a b = OrdEqual \<longleftrightarrow> a = b"
  by (simp add: cmp_utf16_def cmp_units_equal encode_utf16_inject)

lemma cmp_utf16_refl [simp]: "cmp_utf16 a a = OrdEqual"
  by (simp add: cmp_utf16_def cmp_units_equal)

lemma cmp_utf16_flip: "cmp_utf16 a b = OrdLess \<longleftrightarrow> cmp_utf16 b a = OrdGreater"
  by (simp add: cmp_utf16_def cmp_units_flip)

lemma cmp_utf16_trans: "cmp_utf16 a b = OrdLess \<Longrightarrow> cmp_utf16 b c = OrdLess \<Longrightarrow> cmp_utf16 a c = OrdLess"
  unfolding cmp_utf16_def by (rule cmp_units_trans)

text \<open>On ASCII names the order is that of the bytes.\<close>

lemma cmp_utf16_ascii: "ascii a \<Longrightarrow> ascii b \<Longrightarrow> cmp_utf16 a b = cmp_units (map unat a) (map unat b)"
  by (simp add: cmp_utf16_def encode_utf16_ascii)

lemma bisect_sound:
  assumes "0 < n" "base + n \<le> len" "base = 0 \<or> f base \<noteq> OrdGreater"
    and "\<And>j. base + n \<le> j \<Longrightarrow> j < len \<Longrightarrow> f j = OrdGreater"
    and ordered: "\<And>i j. i < j \<Longrightarrow> j < len \<Longrightarrow> f i \<noteq> OrdLess \<Longrightarrow> f j = OrdGreater"
  shows "bisect f base n < len \<and> (bisect f base n = 0 \<or> f (bisect f base n) \<noteq> OrdGreater) \<and>
    (\<forall>j. bisect f base n < j \<and> j < len \<longrightarrow> f j = OrdGreater)"
  using assms
proof (induction f base n rule: bisect.induct)
  case (1 f base n)
  note ordered = "1.prems"(5)
  show ?case
  proof (cases "n \<le> 1")
    case True
    then have "n = 1" using "1.prems"(1) by simp
    moreover from this have "bisect f base n = base" by (subst bisect.simps) simp
    ultimately show ?thesis using "1.prems"(2-4) by auto
  next
    case False
    define half where "half = n div 2"
    define base' where "base' = (if f (base + half) = OrdGreater then base else base + half)"
    have h: "0 < half" "half < n" "half \<le> n - half" using False by (auto simp: half_def)
    have step: "bisect f base n = bisect f base' (n - half)"
      using False by (simp add: bisect.simps [of f base n] Let_def half_def base'_def)
    have above: "f j = OrdGreater" if "base' + (n - half) \<le> j" "j < len" for j
    proof (cases "f (base + half) = OrdGreater")
      case True
      then show ?thesis using that h ordered [of "base + half" j] by (cases "j = base + half") (auto simp: base'_def)
    next
      case False
      then show ?thesis using that h "1.prems"(4) [of j] by (auto simp: base'_def)
    qed
    have "0 < n - half" "base' + (n - half) \<le> len" "base' = 0 \<or> f base' \<noteq> OrdGreater"
      using h "1.prems"(2,3) by (auto simp: base'_def)
    then show ?thesis
      unfolding step base'_def half_def
      using "1.IH" [OF False refl refl] above ordered unfolding base'_def half_def by blast
  qed
qed

lemma binary_search_by_sound:
  assumes ordered: "\<And>i j. i < j \<Longrightarrow> j < length xs \<Longrightarrow> f (xs ! i) \<noteq> OrdLess \<Longrightarrow> f (xs ! j) = OrdGreater"
  shows "case binary_search_by f xs of
      Inr i \<Rightarrow> i < length xs \<and> f (xs ! i) = OrdEqual
    | Inl k \<Rightarrow> k \<le> length xs \<and> (\<forall>i < k. f (xs ! i) = OrdLess) \<and> (\<forall>i. k \<le> i \<and> i < length xs \<longrightarrow> f (xs ! i) = OrdGreater)"
proof (cases "xs = []")
  case True
  then show ?thesis by (simp add: binary_search_by_def)
next
  case False
  define b where "b = bisect (\<lambda>i. f (xs ! i)) 0 (length xs)"
  have b: "b < length xs" "b = 0 \<or> f (xs ! b) \<noteq> OrdGreater" "\<forall>j. b < j \<and> j < length xs \<longrightarrow> f (xs ! j) = OrdGreater"
    using bisect_sound [of "length xs" 0 "length xs" "\<lambda>i. f (xs ! i)"] False ordered by (auto simp: b_def)
  have below: "f (xs ! i) = OrdLess" if "i < b" "f (xs ! b) \<noteq> OrdGreater" for i
    using ordered [of i b] that b(1) by blast
  show ?thesis
  proof (cases "f (xs ! b)")
    case OrdLess
    have "f (xs ! i) = OrdLess" if "i < b + 1" for i
      using that below [of i] OrdLess by (cases "i = b") auto
    then show ?thesis using False OrdLess b by (auto simp: binary_search_by_def Let_def b_def [symmetric])
  next
    case OrdEqual
    then show ?thesis using False b by (simp add: binary_search_by_def Let_def b_def [symmetric])
  next
    case OrdGreater
    then have "b = 0" using b(2) by simp
    moreover have "f (xs ! i) = OrdGreater" if "i < length xs" for i
      using that b(3) OrdGreater \<open>b = 0\<close> by (cases "i = 0") auto
    ultimately show ?thesis using False OrdGreater by (simp add: binary_search_by_def Let_def b_def [symmetric])
  qed
qed

section \<open>Objects as finite maps\<close>

lemma sorted_members_nth:
  assumes "sorted_members ms" "i < j" "j < length ms"
  shows "cmp_utf16 (fst (ms ! i)) (fst (ms ! j)) = OrdLess"
  using assms sorted_wrt_nth_less by (fastforce simp: sorted_members_def)

lemma sorted_members_valid: "sorted_members ms \<Longrightarrow> m \<in> set ms \<Longrightarrow> utf8_valid (fst m)"
  by (auto simp: sorted_members_def list_all_iff)

lemma sorted_members_distinct:
  assumes "sorted_members ms"
  shows "distinct (map fst ms)"
proof -
  have "fst (ms ! i) \<noteq> fst (ms ! j)" if "i < j" "j < length ms" for i j
    using sorted_members_nth [OF assms that] by auto
  then show ?thesis unfolding distinct_conv_nth by (metis length_map linorder_neq_iff nth_map)
qed

lemma slot_sound:
  assumes "sorted_members ms" "utf8_valid name"
  shows "case slot ms name of
      Inr i \<Rightarrow> i < length ms \<and> fst (ms ! i) = name
    | Inl k \<Rightarrow> k \<le> length ms \<and> (\<forall>m \<in> set (take k ms). cmp_utf16 (fst m) name = OrdLess) \<and>
        (\<forall>m \<in> set (drop k ms). cmp_utf16 name (fst m) = OrdLess)"
proof -
  define f where "f = (\<lambda>m :: str \<times> Value. cmp_utf16 (fst m) name)"
  have slot: "slot ms name = binary_search_by f ms" by (simp add: slot_def f_def case_prod_beta')
  have ordered: "f (ms ! j) = OrdGreater" if ij: "i < j" "j < length ms" and nl: "f (ms ! i) \<noteq> OrdLess" for i j
  proof -
    have less: "cmp_utf16 (fst (ms ! i)) (fst (ms ! j)) = OrdLess" by (rule sorted_members_nth [OF assms(1) ij])
    have "cmp_utf16 name (fst (ms ! i)) = OrdLess \<or> fst (ms ! i) = name"
    proof (cases "cmp_utf16 (fst (ms ! i)) name")
      case OrdEqual
      then show ?thesis using cmp_utf16_equal [OF sorted_members_valid [OF assms(1) nth_mem] assms(2)] ij by simp
    qed (use nl in \<open>simp_all add: f_def cmp_utf16_flip [of name]\<close>)
    then have "cmp_utf16 name (fst (ms ! j)) = OrdLess" using less cmp_utf16_trans by blast
    then show ?thesis unfolding f_def by (simp add: cmp_utf16_flip [of name])
  qed
  have s: "case slot ms name of Inr i \<Rightarrow> i < length ms \<and> f (ms ! i) = OrdEqual
    | Inl k \<Rightarrow> k \<le> length ms \<and> (\<forall>i < k. f (ms ! i) = OrdLess) \<and> (\<forall>i. k \<le> i \<and> i < length ms \<longrightarrow> f (ms ! i) = OrdGreater)"
    unfolding slot by (rule binary_search_by_sound) (rule ordered)
  show ?thesis
  proof (cases "slot ms name")
    case (Inr i)
    then have "i < length ms" "cmp_utf16 (fst (ms ! i)) name = OrdEqual" using s by (simp_all add: f_def)
    then show ?thesis using Inr assms cmp_utf16_equal sorted_members_valid [OF assms(1) nth_mem, of i] by simp
  next
    case (Inl k)
    then have "k \<le> length ms" "\<forall>i < k. f (ms ! i) = OrdLess" "\<forall>i. k \<le> i \<and> i < length ms \<longrightarrow> f (ms ! i) = OrdGreater"
      using s by simp_all
    moreover from this have "f (drop k ms ! i) = OrdGreater" if "i < length (drop k ms)" for i using that by simp
    then have "\<forall>m \<in> set (drop k ms). f m = OrdGreater" unfolding all_set_conv_all_nth by blast
    moreover from calculation have "f (take k ms ! i) = OrdLess" if "i < length (take k ms)" for i using that by simp
    then have "\<forall>m \<in> set (take k ms). f m = OrdLess" unfolding all_set_conv_all_nth by blast
    ultimately show ?thesis
      unfolding Inl sum.case cmp_utf16_flip [of name] f_def by blast
  qed
qed

lemma map_of_sorted:
  assumes "sorted_members ms" "i < length ms"
  shows "map_of ms (fst (ms ! i)) = Some (snd (ms ! i))"
  using assms sorted_members_distinct [OF assms(1)] by (simp add: map_of_eq_Some_iff)

lemma obj_get_map_of:
  assumes "sorted_members ms" "utf8_valid name"
  shows "obj_get ms name = map_of ms name"
proof (cases "slot ms name")
  case (Inr i)
  then show ?thesis using slot_sound [OF assms] map_of_sorted [OF assms(1), of i] by (auto simp: obj_get_def)
next
  case (Inl k)
  have "m \<in> set (take k ms) \<or> m \<in> set (drop k ms)" if "m \<in> set ms" for m
    using that by (metis Un_iff append_take_drop_id set_append)
  then have "name \<notin> fst ` set ms" using slot_sound [OF assms] Inl by force
  then show ?thesis using Inl by (simp add: obj_get_def map_of_eq_None_iff [THEN iffD2])
qed

lemma slot_Inl_iff:
  assumes "sorted_members ms" "utf8_valid name"
  shows "(\<exists>k. slot ms name = Inl k) \<longleftrightarrow> map_of ms name = None"
  using obj_get_map_of [OF assms, symmetric] by (auto simp: obj_get_def split: sum.splits)

lemma map_of_middle:
  "map_of l k = None \<Longrightarrow> map_of (l @ (k, v) # r) = (map_of (l @ r))(k \<mapsto> v)"
  "map_of l k = None \<Longrightarrow> map_of (l @ (k, v) # r) = (map_of (l @ (k, w) # r))(k \<mapsto> v)"
  "map_of l k = None \<Longrightarrow> map_of r k = None \<Longrightarrow> map_of (l @ r) = (map_of (l @ (k, w) # r))(k := None)"
  by (auto simp: fun_eq_iff map_add_def split: option.splits)

lemma slot_split:
  assumes "sorted_members ms" "utf8_valid name" "slot ms name = Inl k"
  obtains l r where "ms = l @ r" "vec_insert k (name, v) ms = l @ (name, v) # r"
    "\<forall>m \<in> set l. cmp_utf16 (fst m) name = OrdLess" "\<forall>m \<in> set r. cmp_utf16 name (fst m) = OrdLess"
  by (rule that [of "take k ms" "drop k ms"]) (use slot_sound [OF assms(1,2)] assms(3) in \<open>auto simp: vec_insert_def\<close>)

text \<open>Inserting at the slot of an absent name keeps the order and adds exactly that member.\<close>

lemma slot_insert:
  assumes "sorted_members ms" "utf8_valid name" "slot ms name = Inl k"
  shows "sorted_members (vec_insert k (name, v) ms)"
    and "map_of (vec_insert k (name, v) ms) = (map_of ms)(name \<mapsto> v)"
    and "mset (vec_insert k (name, v) ms) = add_mset (name, v) (mset ms)"
proof -
  obtain l r where lr: "ms = l @ r" "vec_insert k (name, v) ms = l @ (name, v) # r"
    "\<forall>m \<in> set l. cmp_utf16 (fst m) name = OrdLess" "\<forall>m \<in> set r. cmp_utf16 name (fst m) = OrdLess"
    by (rule slot_split [OF assms])
  then show "sorted_members (vec_insert k (name, v) ms)"
    using assms(1,2) by (auto simp: sorted_members_def sorted_wrt_append)
  have "map_of l name = None" unfolding map_of_eq_None_iff using lr(3) by force
  then show "map_of (vec_insert k (name, v) ms) = (map_of ms)(name \<mapsto> v)"
    unfolding lr(2) unfolding lr(1) by (rule map_of_middle(1))
  show "mset (vec_insert k (name, v) ms) = add_mset (name, v) (mset ms)" unfolding lr(2) by (simp add: lr(1))
qed

lemma obj_insert_sound:
  assumes "sorted_members ms" "utf8_valid name"
  shows "case obj_insert ms name v of
      Inl e \<Rightarrow> e = DuplicateMember \<and> map_of ms name \<noteq> None
    | Inr ms' \<Rightarrow> map_of ms name = None \<and> sorted_members ms' \<and> map_of ms' = (map_of ms)(name \<mapsto> v) \<and>
        mset ms' = add_mset (name, v) (mset ms)"
  using slot_Inl_iff [OF assms] slot_insert [OF assms, where v = v]
  by (auto simp: obj_insert_def split: sum.splits)

lemma slot_found:
  assumes "sorted_members ms" "utf8_valid name" "slot ms name = Inr i"
  obtains l w r where "ms = l @ (name, w) # r" "length l = i" "map_of l name = None" "map_of r name = None"
proof -
  have i: "i < length ms" "fst (ms ! i) = name" using slot_sound [OF assms(1,2)] assms(3) by auto
  then have ms: "ms = take i ms @ (name, snd (ms ! i)) # drop (Suc i) ms" "length (take i ms) = i"
    by (auto simp: id_take_nth_drop [symmetric])
  have "distinct (map fst (take i ms @ (name, snd (ms ! i)) # drop (Suc i) ms))"
    using sorted_members_distinct [OF assms(1)] unfolding ms(1) [symmetric] .
  then have "map_of (take i ms) name = None" "map_of (drop (Suc i) ms) name = None"
    by (auto simp: map_of_eq_None_iff)
  then show thesis using that ms by blast
qed

lemma sorted_members_names:
  "sorted_members ms \<longleftrightarrow> list_all utf8_valid (map fst ms) \<and> sorted_wrt (\<lambda>a b. cmp_utf16 a b = OrdLess) (map fst ms)"
  by (simp add: sorted_members_def sorted_wrt_map list_all_iff case_prod_beta)

lemma obj_set_sound:
  assumes "sorted_members ms" "utf8_valid name"
  shows "sorted_members (obj_set ms name v)" "map_of (obj_set ms name v) = (map_of ms)(name \<mapsto> v)"
proof -
  have "sorted_members (obj_set ms name v) \<and> map_of (obj_set ms name v) = (map_of ms)(name \<mapsto> v)"
  proof (cases "slot ms name")
    case (Inl k)
    then show ?thesis using slot_insert [OF assms Inl, of v] by (simp add: obj_set_def)
  next
    case (Inr i)
    obtain l w r where ms: "ms = l @ (name, w) # r" "length l = i" "map_of l name = None"
      by (rule slot_found [OF assms Inr])
    then have "obj_set ms name v = l @ (name, v) # r" using Inr by (simp add: obj_set_def list_update_append nth_append)
    then show ?thesis using assms(1) map_of_middle(2) [OF ms(3), of v r w] by (simp add: sorted_members_names ms(1))
  qed
  then show "sorted_members (obj_set ms name v)" "map_of (obj_set ms name v) = (map_of ms)(name \<mapsto> v)" by blast+
qed

lemma obj_remove_sound:
  assumes "sorted_members ms" "utf8_valid name"
  shows "fst (obj_remove ms name) = map_of ms name" "sorted_members (snd (obj_remove ms name))"
    "map_of (snd (obj_remove ms name)) = (map_of ms)(name := None)"
proof -
  have "fst (obj_remove ms name) = map_of ms name \<and> sorted_members (snd (obj_remove ms name)) \<and>
    map_of (snd (obj_remove ms name)) = (map_of ms)(name := None)"
  proof (cases "slot ms name")
    case (Inl k)
    then show ?thesis using assms slot_Inl_iff [OF assms] by (auto simp: obj_remove_def)
  next
    case (Inr i)
    obtain l w r where ms: "ms = l @ (name, w) # r" "length l = i" "map_of l name = None" "map_of r name = None"
      by (rule slot_found [OF assms Inr])
    then have "obj_remove ms name = (Some w, l @ r)" using Inr by (simp add: obj_remove_def vec_remove_def nth_append)
    moreover have "map_of ms name = Some w" using ms(3) by (simp add: ms(1) map_add_def)
    moreover have "map_of (l @ r) = (map_of ms)(name := None)" unfolding ms(1) by (rule map_of_middle(3) [OF ms(3,4)])
    moreover have "sorted_members (l @ r)" using assms(1) by (simp add: sorted_members_names ms(1) sorted_wrt_append)
    ultimately show ?thesis by simp
  qed
  then show "fst (obj_remove ms name) = map_of ms name" "sorted_members (snd (obj_remove ms name))"
    "map_of (snd (obj_remove ms name)) = (map_of ms)(name := None)" by blast+
qed

section \<open>The contract of an object\<close>

text \<open>
  What a client that builds, reads or strips an object relies on. A document builder is a
  sequence of \<open>put\<close> operations on an empty object (\<open>built\<close>); the last value put under a name is
  the one that is read back, and the order of puts of distinct names does not matter.
\<close>

locale member_map =
  fixes start :: 'm and lookup :: "'m \<Rightarrow> str \<Rightarrow> 'v option" and put :: "'m \<Rightarrow> str \<Rightarrow> 'v \<Rightarrow> 'm"
    and take_out :: "'m \<Rightarrow> str \<Rightarrow> 'v option \<times> 'm" and inv :: "'m \<Rightarrow> bool" and name_ok :: "str \<Rightarrow> bool"
  assumes inv_start: "inv start" and lookup_start: "lookup start a = None"
    and inv_put: "inv m \<Longrightarrow> name_ok a \<Longrightarrow> inv (put m a v)"
    and lookup_put: "inv m \<Longrightarrow> name_ok a \<Longrightarrow> name_ok b \<Longrightarrow> lookup (put m a v) b = (if a = b then Some v else lookup m b)"
    and inv_take_out: "inv m \<Longrightarrow> name_ok a \<Longrightarrow> inv (snd (take_out m a))"
    and taken: "inv m \<Longrightarrow> name_ok a \<Longrightarrow> fst (take_out m a) = lookup m a"
    and lookup_take_out: "inv m \<Longrightarrow> name_ok a \<Longrightarrow> name_ok b \<Longrightarrow>
      lookup (snd (take_out m a)) b = (if a = b then None else lookup m b)"
begin

definition built :: "(str \<times> 'v) list \<Rightarrow> 'm" where
  "built fs = fold (\<lambda>(a, v) m. put m a v) fs start"

lemma fold_put:
  assumes "inv m" "\<forall>(a, v) \<in> set fs. name_ok a"
  shows "inv (fold (\<lambda>(a, v) m. put m a v) fs m)"
    and "name_ok b \<Longrightarrow> lookup (fold (\<lambda>(a, v) m. put m a v) fs m) b =
      (case map_of (rev fs) b of Some v \<Rightarrow> Some v | None \<Rightarrow> lookup m b)"
proof -
  have "inv (fold (\<lambda>(a, v) m. put m a v) fs m) \<and> (name_ok b \<longrightarrow> lookup (fold (\<lambda>(a, v) m. put m a v) fs m) b =
      (case map_of (rev fs) b of Some v \<Rightarrow> Some v | None \<Rightarrow> lookup m b))"
    using assms
  proof (induction fs arbitrary: m)
    case (Cons f fs)
    then show ?case by (cases f) (auto simp: inv_put lookup_put map_add_def split: option.splits)
  qed simp
  then show "inv (fold (\<lambda>(a, v) m. put m a v) fs m)"
    "name_ok b \<Longrightarrow> lookup (fold (\<lambda>(a, v) m. put m a v) fs m) b =
      (case map_of (rev fs) b of Some v \<Rightarrow> Some v | None \<Rightarrow> lookup m b)" by blast+
qed

lemma lookup_built:
  assumes "\<forall>(a, v) \<in> set fs. name_ok a" "name_ok b"
  shows "inv (built fs) \<and> lookup (built fs) b = map_of (rev fs) b"
  using fold_put(1) [OF inv_start assms(1)] fold_put(2) [OF inv_start assms]
  by (auto simp: built_def lookup_start split: option.splits)

end

interpretation members: member_map "[]" obj_get obj_set obj_remove sorted_members utf8_valid
proof (unfold_locales, goal_cases)
  case (2 a)
  show ?case by (simp add: obj_get_def slot_def binary_search_by_def)
next
  case (4 m a b v)
  then show ?case by (simp add: obj_get_map_of obj_set_sound)
next
  case (7 m a b)
  then show ?case by (simp add: obj_get_map_of obj_remove_sound)
qed (simp_all add: sorted_members_def [of "[]"] obj_set_sound obj_remove_sound obj_get_map_of)

end
