(* ===== verification/Json_Canonical.thy ===== *)
theory Json_Canonical
  imports Json
begin

text \<open>
  The parser and the serializer of \<^verbatim>\<open>json.rs\<close> against each other: parsing the canonical bytes of
  a well-formed value gives the value back, what the parser returns is always well formed,
  within the depth bound and no longer in canonical form than the input it was read from.
  Together: canonicalization is idempotent, and equal canonical bytes mean equal values.
\<close>

section \<open>Strings\<close>

definition plain_char :: "nat \<Rightarrow> bool" where
  "plain_char c \<longleftrightarrow> 0x20 \<le> c \<and> c \<noteq> 0x22 \<and> c \<noteq> 0x5C"

lemma escape_plain: "plain_char c \<Longrightarrow> escape_char c = encode_utf8 c"
  by (auto simp: plain_char_def escape_char_def)

lemma plain_byte_high: "0x80 \<le> n \<Longrightarrow> n < 256 \<Longrightarrow> plain_byte (of_nat n)"
  by (auto simp: plain_byte_def word_less_nat_alt word_unat_eq_iff)

lemma plain_encode:
  assumes "plain_char c" "is_scalar c"
  shows "list_all plain_byte (encode_utf8 c)"
proof -
  have m: "n mod 0x40 < 0x40" for n :: nat by simp
  have "c div 0x40 < 0x20" if "c < 0x800" using that by (simp add: less_mult_imp_div_less)
  moreover have "c div 0x1000 < 0x10" if "c < 0x10000" using that by (simp add: less_mult_imp_div_less)
  moreover have "c < 5 * 0x40000" using assms(2) unfolding is_scalar_def by auto
  then have "c div 0x40000 < 5" by (rule less_mult_imp_div_less)
  moreover have "plain_byte (of_nat c)" if "c < 0x80"
    using that assms(1) by (auto simp: plain_byte_def plain_char_def word_less_nat_alt word_unat_eq_iff)
  ultimately show ?thesis
    using m [of c] m [of "c div 0x40"] m [of "c div 0x1000"]
    by (auto simp: encode_utf8_def simp del: of_nat_add intro!: plain_byte_high)
qed

lemma hex_digit_HEX: "n < 16 \<Longrightarrow> hex_digit (HEX ! n) = Some n"
proof -
  have "list_all (\<lambda>n. hex_digit (HEX ! n) = Some n) [0..<16]" by code_simp
  then show "n < 16 \<Longrightarrow> hex_digit (HEX ! n) = Some n" by (simp add: list_all_iff)
qed

lemma remaining_nth: "remaining p = xs \<Longrightarrow> i < length xs \<Longrightarrow> p_bytes p ! (p_pos p + i) = xs ! i"
  by (auto simp: remaining_def)

lemma hex4_digits:
  assumes "remaining p = a # b # c # d # r"
    and "hex_digit a = Some a'" "hex_digit b = Some b'" "hex_digit c = Some c'" "hex_digit d = Some d'"
  shows "hex4 p = Inr (((a' * 16 + b') * 16 + c') * 16 + d', adv p 4)"
proof -
  have "length (remaining p) \<ge> 4" using assms(1) by simp
  then have "\<not> p_pos p + 4 > length (p_bytes p)" by (simp add: remaining_def)
  moreover have "p_bytes p ! p_pos p = a" "p_bytes p ! (p_pos p + 1) = b" "p_bytes p ! (p_pos p + 2) = c" "p_bytes p ! (p_pos p + 3) = d"
    using remaining_nth [OF assms(1), of 0] remaining_nth [OF assms(1), of 1] remaining_nth [OF assms(1), of 2]
      remaining_nth [OF assms(1), of 3] by (simp_all add: eval_nat_numeral)
  ultimately show ?thesis using assms(2-) by (simp add: hex4_def eval_nat_numeral)
qed

lemma escape_of_char:
  assumes "is_scalar c" "\<not> plain_char c"
  shows "\<exists>t. escape_char c = 0x5C # t \<and>
    (\<forall>q r out. remaining q = t @ r \<longrightarrow> escape q out = Inr (out @ encode_utf8 c, adv q (length t)))"
proof -
  have s: "simple_escape 0x22 = Some 0x22" "simple_escape 0x5C = Some 0x5C" "simple_escape (ch CHR ''b'') = Some 0x8"
    "simple_escape (ch CHR ''f'') = Some 0xC" "simple_escape (ch CHR ''n'') = Some 0xA"
    "simple_escape (ch CHR ''r'') = Some 0xD" "simple_escape (ch CHR ''t'') = Some 0x9"
    by code_simp+
  consider (simple) b where "escape_char c = [0x5C, b]" "simple_escape b = Some c"
    | (control) "escape_char c = [0x5C, ch CHR ''u'', ch CHR ''0'', ch CHR ''0'', HEX ! (c div 16), HEX ! (c mod 16)]" "c < 0x20"
  proof (cases "c = 0x22 \<or> c = 0x5C \<or> c = 0x8 \<or> c = 0xC \<or> c = 0xA \<or> c = 0xD \<or> c = 0x9")
    case True
    then show ?thesis using s simple by (auto simp: escape_char_def)
  next
    case False
    then have c: "c < 0x20" using assms(2) by (auto simp: plain_char_def)
    then have "c div 16 mod 16 = c div 16" by simp
    then show ?thesis using False c control by (simp add: escape_char_def)
  qed
  then show ?thesis
  proof cases
    case simple
    then show ?thesis by (intro exI [of _ "[b]"]) (auto simp: escape_def)
  next
    case control
    have h: "hex_digit (ch CHR ''0'') = Some 0" by code_simp
    have "escape q out = Inr (out @ encode_utf8 c, adv q 5)"
      if q: "remaining q = ch CHR ''u'' # ch CHR ''0'' # ch CHR ''0'' # HEX ! (c div 16) # HEX ! (c mod 16) # r" for q r out
    proof -
      have "hex4 (adv q 1) = Inr (((0 * 16 + 0) * 16 + c div 16) * 16 + c mod 16, adv (adv q 1) 4)"
        by (rule hex4_digits [where r = r]) (use q h control(2) in \<open>auto intro!: hex_digit_HEX\<close>)
      then have "hex4 (adv q 1) = Inr (c, adv q 5)" by simp
      then have "unicode_escape (adv q 1) out = Inr (out @ encode_utf8 c, adv q 5)"
        using control(2) assms(1) by (simp add: unicode_escape_def char_from_u32_def)
      moreover have "simple_escape (ch CHR ''u'') = None" by code_simp
      ultimately show ?thesis using q by (simp add: escape_def)
    qed
    then show ?thesis using control(1) by auto
  qed
qed

definition escaped :: "nat list \<Rightarrow> u8 list" where
  "escaped cs = concat (map escape_char cs)"

lemma escaped_simps [simp]:
  "escaped [] = []" "escaped (c # cs) = escape_char c @ escaped cs" "escaped (cs @ ds) = escaped cs @ escaped ds"
  by (simp_all add: escaped_def)

lemma escaped_plain: "list_all plain_char cs \<Longrightarrow> escaped cs = utf8_encode cs"
  by (induction cs) (simp_all add: escape_plain)

lemma plain_utf8_encode: "list_all plain_char cs \<Longrightarrow> list_all is_scalar cs \<Longrightarrow> list_all plain_byte (utf8_encode cs)"
  by (induction cs) (simp_all add: plain_encode)

lemma takeWhile_stop: "list_all P xs \<Longrightarrow> \<not> P y \<Longrightarrow> takeWhile P (xs @ y # ys) = xs"
  by (simp add: takeWhile_append list_all_iff)

lemma plain_byte_stops: "\<not> plain_byte 0x22" "\<not> plain_byte 0x5C"
  by (simp_all add: plain_byte_def)

lemma string_loop_canonical:
  assumes "list_all is_scalar cs" "remaining p = escaped cs @ 0x22 # r"
  shows "string_loop p out = Inr (out @ utf8_encode cs, adv p (length (escaped cs) + 1))"
  using assms
proof (induction "length cs" arbitrary: cs p out rule: less_induct)
  case less
  define ps qs where "ps = takeWhile plain_char cs" and "qs = dropWhile plain_char cs"
  have cs: "cs = ps @ qs" by (simp add: ps_def qs_def)
  have ps: "list_all plain_char ps" "list_all is_scalar ps"
    using less.prems(1) unfolding ps_def by (auto simp: list_all_iff dest: set_takeWhileD)
  have run: "absorb_run p out = Inr (out @ utf8_encode ps, adv p (length (utf8_encode ps)))"
    if "remaining p = utf8_encode ps @ y # ys" "\<not> plain_byte y" for y ys
    using takeWhile_stop [OF plain_utf8_encode [OF ps] that(2)] that(1) utf8_valid_encode [OF ps(2)]
    by (simp add: absorb_run_eq Let_def)
  show ?case
  proof (cases qs)
    case Nil
    then have rem: "remaining p = utf8_encode ps @ 0x22 # r" using less.prems(2) by (simp add: cs escaped_plain [OF ps(1)])
    then show ?thesis
      using run [OF rem plain_byte_stops(1)] Nil
      by (subst string_loop.simps) (simp add: cs escaped_plain [OF ps(1)])
  next
    case (Cons c cs')
    have "list_all is_scalar (ps @ qs)" using less.prems(1) unfolding cs .
    moreover have "\<not> plain_char (hd qs)" unfolding qs_def by (rule hd_dropWhile) (use Cons qs_def in simp)
    ultimately have c: "\<not> plain_char c" "is_scalar c" "list_all is_scalar cs'" using Cons by simp_all
    obtain t where t: "escape_char c = 0x5C # t"
      "\<forall>q r out. remaining q = t @ r \<longrightarrow> escape q out = Inr (out @ encode_utf8 c, adv q (length t))"
      using escape_of_char [OF c(2,1)] by blast
    have rem: "remaining p = utf8_encode ps @ 0x5C # t @ escaped cs' @ 0x22 # r"
      using less.prems(2) Cons t(1) by (simp add: cs escaped_plain [OF ps(1)])
    let ?n = "length (utf8_encode ps)"
    have rem1: "remaining (adv p (?n + 1)) = t @ escaped cs' @ 0x22 # r" using rem by simp
    have esc: "escape (adv p (?n + 1)) (out @ utf8_encode ps) =
        Inr (out @ utf8_encode ps @ encode_utf8 c, adv p (?n + 1 + length t))"
      using t(2) rem1 by simp
    have "string_loop (adv p (?n + 1 + length t)) (out @ utf8_encode ps @ encode_utf8 c) =
        Inr ((out @ utf8_encode ps @ encode_utf8 c) @ utf8_encode cs',
          adv (adv p (?n + 1 + length t)) (length (escaped cs') + 1))"
      by (rule less.hyps) (use Cons c(3) rem in \<open>simp_all add: cs\<close>)
    then show ?thesis
      using run [OF rem plain_byte_stops(2)] esc rem Cons t(1)
      by (subst string_loop.simps) (simp add: cs escaped_plain [OF ps(1)] add.assoc)
  qed
qed

lemma write_string_escaped: "write_string t = 0x22 # escaped (chars t) @ [0x22]"
  by (simp add: write_string_def escaped_def)

lemma parse_string_canonical:
  assumes "utf8_valid t" "remaining p = write_string t @ r"
  shows "parse_string p = Inr (t, adv p (length (write_string t)))"
proof -
  obtain cs where cs: "list_all is_scalar cs" "t = utf8_encode cs" "chars t = cs" using assms(1) by (rule utf8_validE)
  have "remaining (adv p 1) = escaped cs @ 0x22 # r" using assms(2) cs(3) by (simp add: write_string_escaped)
  from string_loop_canonical [OF cs(1) this, of "[]"] show ?thesis
    using assms(2) cs by (simp add: parse_string_def expect_def write_string_escaped)
qed

section \<open>Numbers\<close>

lemma digit_byte: "n < 10 \<Longrightarrow> is_ascii_digit (of_nat (48 + n)) \<and> unat (of_nat (48 + n) - ch CHR ''0'' :: u8) = n"
proof -
  have "list_all (\<lambda>n. is_ascii_digit (of_nat (48 + n)) \<and> unat (of_nat (48 + n) - ch CHR ''0'' :: u8) = n) [0..<10]" by code_simp
  then show "n < 10 \<Longrightarrow> is_ascii_digit (of_nat (48 + n)) \<and> unat (of_nat (48 + n) - ch CHR ''0'' :: u8) = n"
    by (simp add: list_all_iff)
qed

lemma decimal_value_snoc: "decimal_value (s @ [c]) = decimal_value s * 10 + unat (c - ch CHR ''0'')"
  by (simp add: decimal_value_def)

lemma decimal_facts:
  "digits (decimal n) \<and> decimal n \<noteq> [] \<and> decimal_value (decimal n) = n"
proof (induction n rule: decimal.induct)
  case (1 n)
  then show ?case
    using digit_byte [of n] digit_byte [of "n mod 10"]
    by (subst (1 2 3) decimal.simps) (auto simp: decimal_value_snoc decimal_value_def digits_def simp del: of_nat_add)
qed

lemma decimal_zero: "hd (decimal n) = ch CHR ''0'' \<longleftrightarrow> n = 0"
proof (induction n rule: decimal.induct)
  case (1 n)
  show ?case
  proof (cases "n < 10")
    case True
    have "list_all (\<lambda>n. (of_nat (48 + n) :: u8) = ch CHR ''0'' \<longleftrightarrow> n = 0) [0..<10]" by code_simp
    then show ?thesis using True by (subst decimal.simps) (simp add: list_all_iff del: of_nat_add)
  next
    case False
    then show ?thesis using 1 decimal_facts [of "n div 10"] by (subst decimal.simps) auto
  qed
qed

lemma decimal_length: "n < 10 ^ k \<Longrightarrow> 0 < k \<Longrightarrow> length (decimal n) \<le> k"
proof (induction n arbitrary: k rule: decimal.induct)
  case (1 n)
  show ?case
  proof (cases "n < 10")
    case True
    then show ?thesis using "1.prems" by (subst decimal.simps) simp
  next
    case False
    obtain j where j: "k = Suc j" using "1.prems"(2) by (cases k) auto
    moreover have "0 < j" using False "1.prems"(1) j by (cases j) auto
    ultimately have k: "k = Suc j" "0 < j" .
    then have "length (decimal (n div 10)) \<le> j" using "1.prems"(1) by (intro "1.IH" [OF False]) simp_all
    then show ?thesis using False k by (subst decimal.simps) simp
  qed
qed

text \<open>What may follow a number: no byte that would extend it.\<close>

definition ends_number :: "u8 list \<Rightarrow> bool" where
  "ends_number r \<longleftrightarrow> (case r of [] \<Rightarrow> True
     | c # _ \<Rightarrow> \<not> is_ascii_digit c \<and> c \<noteq> ch CHR ''.'' \<and> c \<noteq> ch CHR ''e'' \<and> c \<noteq> ch CHR ''E'')"

lemma scan_integer_decimal:
  assumes "remaining q = decimal n @ r" "ends_number r"
  shows "scan_integer q = Inr (adv q (length (decimal n)))"
proof (cases "n = 0")
  case True
  then have "decimal n = [ch CHR ''0'']" by (subst decimal.simps) simp
  then show ?thesis
    using assms by (cases r) (auto simp: scan_integer_def ends_number_def Let_def peek_remaining)
next
  case False
  obtain c s where c: "decimal n = c # s" using decimal_facts [of n] by (cases "decimal n") auto
  then have "is_ascii_digit c" "c \<noteq> ch CHR ''0''" "list_all is_ascii_digit s"
    using decimal_facts [of n] decimal_zero [of n] False by (auto simp: digits_def)
  moreover have "takeWhile is_ascii_digit (s @ r) = s"
    using assms(2) calculation(3) by (cases r) (auto simp: ends_number_def takeWhile_append list_all_iff)
  ultimately show ?thesis
    using assms(1) c by (simp add: scan_integer_def skip_while_eq)
qed

lemma digits_ascii: "digits s \<Longrightarrow> list_all (\<lambda>b. b < 0x80) s"
  by (auto simp: digits_def list_all_iff is_ascii_digit_def word_le_nat_alt word_less_nat_alt)

lemma decimal_sign: "hd (decimal m) \<noteq> ch CHR ''-''" "hd (decimal m) \<noteq> ch CHR ''+''"
proof -
  have "\<not> is_ascii_digit (ch CHR ''-'')" "\<not> is_ascii_digit (ch CHR ''+'')" by code_simp+
  moreover have "is_ascii_digit (hd (decimal m))" using decimal_facts [of m] by (cases "decimal m") (auto simp: digits_def)
  ultimately show "hd (decimal m) \<noteq> ch CHR ''-''" "hd (decimal m) \<noteq> ch CHR ''+''" by auto
qed

lemma i64_text:
  assumes "in_i64 n"
  shows "parse_i64 (i64_to_string n) = Some n" "utf8_valid (i64_to_string n)"
proof -
  show "parse_i64 (i64_to_string n) = Some n"
    using decimal_facts [of "nat n"] decimal_facts [of "nat (- n)"] decimal_sign [of "nat n"] assms
    by (auto simp: parse_i64_def i64_to_string_def Let_def)
  have "list_all (\<lambda>b. b < 0x80) (i64_to_string n)"
    using decimal_facts [of "nat n"] decimal_facts [of "nat (- n)"] by (auto simp: i64_to_string_def intro!: digits_ascii)
  then show "utf8_valid (i64_to_string n)" by (rule utf8_valid_ascii)
qed

lemma parse_number_canonical:
  assumes "in_i64 n" "remaining p = i64_to_string n @ r" "ends_number r"
  shows "parse_number p = Inr (IntV n, adv p (length (i64_to_string n)))"
proof -
  define q where "q = (if peek p = Some (ch CHR ''-'') then adv p 1 else p)"
  have "scan_integer q = Inr (adv p (length (i64_to_string n)))"
  proof (cases "n < 0")
    case True
    then have rem: "remaining p = ch CHR ''-'' # decimal (nat (- n)) @ r" using assms(2) by (simp add: i64_to_string_def)
    then have "q = adv p 1" by (simp add: q_def)
    then show ?thesis
      using scan_integer_decimal [of q "nat (- n)" r] assms(3) rem True by (simp add: i64_to_string_def)
  next
    case False
    then have rem: "remaining p = decimal (nat n) @ r" using assms(2) by (simp add: i64_to_string_def)
    then have "peek p = Some (hd (decimal (nat n)))"
      using decimal_facts [of "nat n"] by (cases "decimal (nat n)") auto
    then have "q = p" using decimal_sign by (simp add: q_def)
    then show ?thesis
      using scan_integer_decimal [of q "nat n" r] assms(3) rem False by (simp add: i64_to_string_def)
  qed
  moreover have "take (length (i64_to_string n)) (drop (p_pos p) (p_bytes p)) = i64_to_string n"
    using assms(2) by (simp add: remaining_def)
  moreover have "peek (adv p (length (i64_to_string n))) \<notin> {Some (ch CHR ''.''), Some (ch CHR ''e''), Some (ch CHR ''E'')}"
    using assms(2,3) by (cases r) (auto simp: ends_number_def peek_remaining)
  ultimately show ?thesis
    using i64_text [OF assms(1)] unfolding parse_number_def Let_def q_def [symmetric] by simp
qed

section \<open>Values\<close>

lemma digit_distinct:
  "is_ascii_digit c \<Longrightarrow> c \<noteq> 0x7B \<and> c \<noteq> 0x5B \<and> c \<noteq> 0x22 \<and> c \<noteq> ch CHR ''t'' \<and> c \<noteq> ch CHR ''f'' \<and> c \<noteq> ch CHR ''n'' \<and>
     \<not> is_ws c \<and> c \<noteq> 0x5D"
  by (auto simp: is_ascii_digit_def is_ws_def)

lemma i64_head:
  obtains c s where "i64_to_string n = c # s" "c = ch CHR ''-'' \<or> is_ascii_digit c"
proof (cases "n < 0")
  case True
  then show ?thesis using that by (simp add: i64_to_string_def)
next
  case False
  then show ?thesis using that decimal_facts [of "nat n"] by (cases "decimal (nat n)") (auto simp: i64_to_string_def digits_def)
qed

lemma canonical_head: "\<exists>c s. write_canonical v = c # s \<and> \<not> is_ws c \<and> c \<noteq> 0x5D"
proof (cases v)
  case (IntV n)
  then show ?thesis using digit_distinct by (cases rule: i64_head [of n]) (auto simp: is_ws_def)
qed (auto simp: lit_Cons write_string_def is_ws_def)

lemma skip_ws_id: "remaining p = c # s \<Longrightarrow> \<not> is_ws c \<Longrightarrow> skip_ws p = p"
  by (simp add: skip_ws_def skip_while_eq)

lemma skip_ws_canonical: "remaining p = write_canonical v @ r \<Longrightarrow> skip_ws p = p"
  using canonical_head [of v] skip_ws_id by fastforce

lemma skip_ws_string: "remaining p = write_string t @ r \<Longrightarrow> skip_ws p = p"
  by (rule skip_ws_id [of _ "0x22"]) (auto simp: write_string_def is_ws_def)

lemma ends_number_marks [simp]: "ends_number (0x2C # r)" "ends_number (0x5D # r)" "ends_number (0x7D # r)" "ends_number []"
  by (simp_all add: ends_number_def is_ascii_digit_def)

lemma not_ws_marks [simp]: "\<not> is_ws 0x2C" "\<not> is_ws 0x5D" "\<not> is_ws 0x7D" "\<not> is_ws 0x3A" "\<not> is_ws 0x22" "\<not> is_ws 0x5B" "\<not> is_ws 0x7B"
  by (simp_all add: is_ws_def)

definition reads_back :: "nat \<Rightarrow> nat \<Rightarrow> Value \<Rightarrow> bool" where
  "reads_back m d v \<longleftrightarrow> (\<forall>p r. p_max_depth p = m \<and> remaining p = write_canonical v @ r \<and> ends_number r \<longrightarrow>
     parse_value p d = Inr (v, adv p (length (write_canonical v))))"

lemma array_loop_canonical:
  assumes "\<forall>v \<in> set vs. reads_back m (d + 1) v" "vs \<noteq> []" "p_max_depth p = m"
    and "remaining p = comma_separated (map write_canonical vs) @ 0x5D # r"
  shows "array_loop p d out = Inr (Array (out @ vs), adv p (length (comma_separated (map write_canonical vs)) + 1))"
  using assms
proof (induction vs arbitrary: p out)
  case (Cons v vs)
  let ?n = "length (write_canonical v)"
  obtain t where rem: "remaining p = write_canonical v @ t" and t: "ends_number t"
    and tail: "t = (if vs = [] then 0x5D # r else 0x2C # comma_separated (map write_canonical vs) @ 0x5D # r)"
    using Cons.prems(4) by (cases vs) auto
  have v: "parse_value (skip_ws p) (d + 1) = Inr (v, adv p ?n)"
    using Cons.prems(1,3) rem t skip_ws_canonical [OF rem] by (simp add: reads_back_def)
  have rem': "remaining (adv p ?n) = t" using rem by simp
  then have ws: "skip_ws (adv p ?n) = adv p ?n" by (auto intro!: skip_ws_id simp: tail split: if_splits)
  show ?case
  proof (cases "vs = []")
    case True
    then show ?thesis using v ws rem' tail by (simp add: array_loop.simps)
  next
    case False
    then have "array_loop (adv p (?n + 1)) d (out @ [v]) =
        Inr (Array ((out @ [v]) @ vs), adv (adv p (?n + 1)) (length (comma_separated (map write_canonical vs)) + 1))"
      by (intro Cons.IH) (use Cons.prems rem tail in auto)
    moreover have "comma_separated (map write_canonical (v # vs)) = write_canonical v @ 0x2C # comma_separated (map write_canonical vs)"
      using False by (cases vs) auto
    ultimately show ?thesis using v ws rem' tail False
      by (subst array_loop.simps) (simp add: Let_def)
  qed
qed simp

definition write_member :: "str \<times> Value \<Rightarrow> u8 list" where
  "write_member m = write_string (fst m) @ 0x3A # write_canonical (snd m)"

lemma write_canonical_Object: "write_canonical (Object ms) = 0x7B # comma_separated (map write_member ms) @ [0x7D]"
proof -
  have "(\<lambda>(name, v). write_string name @ 0x3A # write_canonical v) = write_member"
    by (auto simp: fun_eq_iff write_member_def)
  then show ?thesis by simp
qed

lemma write_member_pair [simp]: "write_member (name, v) = write_string name @ 0x3A # write_canonical v"
  by (simp add: write_member_def)

text \<open>A member greater than all others goes to the end.\<close>

lemma obj_insert_last:
  assumes "sorted_members (out @ [(name, v)])"
  shows "obj_insert out name v = Inr (out @ [(name, v)])"
proof -
  have s: "sorted_members out" "utf8_valid name" "\<forall>m \<in> set out. cmp_utf16 (fst m) name = OrdLess"
    using assms by (auto simp: sorted_members_def sorted_wrt_append)
  show ?thesis
  proof (cases "slot out name")
    case (Inr i)
    then have "i < length out" "fst (out ! i) = name" using slot_sound [OF s(1,2)] by auto
    then have "cmp_utf16 name name = OrdLess" using s(3) nth_mem by blast
    then show ?thesis by simp
  next
    case (Inl k)
    then have k: "k \<le> length out" "\<forall>m \<in> set (drop k out). cmp_utf16 name (fst m) = OrdLess"
      using slot_sound [OF s(1,2)] by auto
    have "drop k out = []"
    proof (rule ccontr)
      assume "drop k out \<noteq> []"
      then obtain m where m: "m \<in> set (drop k out)" by (cases "drop k out") auto
      then have "cmp_utf16 name (fst m) = OrdLess" "cmp_utf16 (fst m) name = OrdLess" using k s(3) in_set_dropD by fastforce+
      then show False using cmp_utf16_trans [of name "fst m" name] by simp
    qed
    then show ?thesis using Inl k(1) by (simp add: obj_insert_def vec_insert_def)
  qed
qed

lemma object_loop_canonical:
  assumes "\<forall>m \<in> set ms. reads_back mx (d + 1) (snd m)" "ms \<noteq> []" "p_max_depth p = mx" "sorted_members (out @ ms)"
    and "remaining p = comma_separated (map write_member ms) @ 0x7D # r"
  shows "object_loop p d out = Inr (Object (out @ ms), adv p (length (comma_separated (map write_member ms)) + 1))"
  using assms
proof (induction ms arbitrary: p out)
  case (Cons m ms)
  obtain name v where m: "m = (name, v)" by (cases m)
  let ?s = "length (write_string name)" and ?n = "length (write_canonical v)"
  obtain t where rem: "remaining p = write_string name @ 0x3A # write_canonical v @ t" and t: "ends_number t"
    and tail: "t = (if ms = [] then 0x7D # r else 0x2C # comma_separated (map write_member ms) @ 0x7D # r)"
    using Cons.prems(5) by (cases ms) (auto simp: m)
  have "utf8_valid name" using Cons.prems(4) by (auto simp: m sorted_members_def)
  then have s: "parse_string (skip_ws p) = Inr (name, adv p ?s)"
    using parse_string_canonical [OF _ rem] skip_ws_string [OF rem] by simp
  have colon: "expect (skip_ws (adv p ?s)) 0x3A = Inr (adv p (?s + 1))"
    using rem skip_ws_id [of "adv p ?s" "0x3A"] by (simp add: expect_def)
  have rem1: "remaining (adv p (?s + 1)) = write_canonical v @ t" using rem by simp
  have v: "parse_value (skip_ws (adv p (?s + 1))) (d + 1) = Inr (v, adv p (?s + 1 + ?n))"
    using Cons.prems(1,3) rem1 t skip_ws_canonical [OF rem1] by (simp add: reads_back_def m)
  have ins: "obj_insert out name v = Inr (out @ [(name, v)])"
    by (rule obj_insert_last) (use Cons.prems(4) in \<open>auto simp: m sorted_members_def sorted_wrt_append\<close>)
  have rem': "remaining (adv p (?s + 1 + ?n)) = t" using rem by simp
  then have ws: "skip_ws (adv p (?s + 1 + ?n)) = adv p (?s + 1 + ?n)" by (auto intro!: skip_ws_id simp: tail split: if_splits)
  show ?case
  proof (cases "ms = []")
    case True
    then show ?thesis using s colon v ins ws rem' tail by (subst object_loop.simps) (simp add: Let_def m)
  next
    case False
    then have "object_loop (adv p (?s + 1 + ?n + 1)) d (out @ [(name, v)]) = Inr (Object ((out @ [(name, v)]) @ ms),
        adv (adv p (?s + 1 + ?n + 1)) (length (comma_separated (map write_member ms)) + 1))"
      by (intro Cons.IH) (use Cons.prems rem tail m in auto)
    moreover have "comma_separated (map write_member (m # ms)) = write_member m @ 0x2C # comma_separated (map write_member ms)"
      using False by (cases ms) auto
    ultimately show ?thesis using s colon v ins ws rem' tail False
      by (subst object_loop.simps) (simp add: Let_def m)
  qed
qed simp

lemma literal_canonical: "remaining p = w @ r \<Longrightarrow> literal p w = Inr (adv p (length w))"
  by (simp add: literal_def remaining_def)

lemma depth_le: "foldr max (map f xs) 0 \<le> (n :: nat) \<longleftrightarrow> (\<forall>x \<in> set xs. f x \<le> n)"
  by (induction xs) auto

lemma depth_elem: "x \<in> set xs \<Longrightarrow> f x \<le> foldr max (map f xs) (0 :: nat)"
  using depth_le [of f xs "foldr max (map f xs) 0"] by simp

lemma comma_separated_head:
  assumes "xs \<noteq> []" "hd xs = c # s"
  shows "\<exists>t. comma_separated xs = c # t"
  using assms by (cases xs rule: comma_separated.cases) auto

lemma reads_back_value:
  assumes "wf_value v" "d + value_depth v \<le> m"
  shows "reads_back m d v"
  using assms
proof (induction v arbitrary: d)
  case (IntV n)
  show ?case unfolding reads_back_def
  proof (intro allI impI, elim conjE)
    fix p r assume p: "p_max_depth p = m" "remaining p = write_canonical (IntV n) @ r" "ends_number r"
    obtain c s where c: "i64_to_string n = c # s" "c = ch CHR ''-'' \<or> is_ascii_digit c" by (rule i64_head)
    have "parse_number p = Inr (IntV n, adv p (length (i64_to_string n)))"
      using p IntV.prems(1) by (intro parse_number_canonical [of n p r]) simp_all
    then show "parse_value p d = Inr (IntV n, adv p (length (write_canonical (IntV n))))"
      using p c digit_distinct [of c] IntV.prems(2) by (auto simp: parse_value.simps)
  qed
next
  case (Text t)
  then show ?case
    by (auto simp: reads_back_def parse_value.simps write_string_def [of t] parse_string_canonical [unfolded write_string_def [of t]])
next
  case (Array vs)
  show ?case unfolding reads_back_def
  proof (intro allI impI, elim conjE)
    fix p r assume p: "p_max_depth p = m" "remaining p = write_canonical (Array vs) @ r" "ends_number r"
    have rem: "remaining (adv p 1) = comma_separated (map write_canonical vs) @ 0x5D # r" using p(2) by simp
    have v: "parse_value p d = parse_array p d" "expect p 0x5B = Inr (adv p 1)"
      using p(1,2) Array.prems(2) by (simp_all add: parse_value.simps expect_def)
    show "parse_value p d = Inr (Array vs, adv p (length (write_canonical (Array vs))))"
    proof (cases "vs = []")
      case True
      then show ?thesis using v rem by (simp add: parse_array.simps skip_ws_id Let_def)
    next
      case False
      obtain c s where c: "write_canonical (hd vs) = c # s" "\<not> is_ws c" "c \<noteq> 0x5D"
        using canonical_head [of "hd vs"] by blast
      then obtain t where t: "remaining (adv p 1) = c # t"
        using comma_separated_head [of "map write_canonical vs" c s] False rem by (auto simp: hd_map)
      have "\<forall>v \<in> set vs. reads_back m (d + 1) v"
        using Array depth_elem [of _ vs "\<lambda>v. Suc (value_depth v)"] by fastforce
      then have "array_loop (adv p 1) d [] = Inr (Array ([] @ vs), adv (adv p 1) (length (comma_separated (map write_canonical vs)) + 1))"
        using False rem p(1) by (intro array_loop_canonical) simp_all
      then show ?thesis using v t c(2,3) by (simp add: parse_array.simps skip_ws_id Let_def)
    qed
  qed
next
  case (Object ms)
  show ?case unfolding reads_back_def
  proof (intro allI impI, elim conjE)
    fix p r assume p: "p_max_depth p = m" "remaining p = write_canonical (Object ms) @ r" "ends_number r"
    have rem: "remaining (adv p 1) = comma_separated (map write_member ms) @ 0x7D # r"
      using p(2) unfolding write_canonical_Object by simp
    have v: "parse_value p d = parse_object p d" "expect p 0x7B = Inr (adv p 1)"
      using p(1,2) Object.prems(2) by (simp_all add: parse_value.simps expect_def)
    show "parse_value p d = Inr (Object ms, adv p (length (write_canonical (Object ms))))"
    proof (cases "ms = []")
      case True
      then show ?thesis using v rem by (simp add: parse_object.simps skip_ws_id Let_def)
    next
      case False
      have "hd (map write_member ms) = 0x22 # tl (hd (map write_member ms))"
        using False by (cases ms) (auto simp: write_member_def write_string_def)
      then obtain t where t: "remaining (adv p 1) = 0x22 # t"
        using comma_separated_head [of "map write_member ms"] False rem by fastforce
      have "\<forall>x \<in> set ms. reads_back m (d + 1) (snd x)"
        using Object depth_elem [of _ ms "\<lambda>x. Suc (value_depth (snd x))"] by (fastforce simp: Basic_BNFs.snds.simps)
      then have "object_loop (adv p 1) d [] = Inr (Object ([] @ ms), adv (adv p 1) (length (comma_separated (map write_member ms)) + 1))"
        using False rem p(1) Object.prems(1) by (intro object_loop_canonical) simp_all
      then show ?thesis using v t unfolding write_canonical_Object by (simp add: parse_object.simps skip_ws_id Let_def)
    qed
  qed
qed (auto simp: reads_back_def parse_value.simps literal_canonical lit_Cons)

section \<open>What the parser returns\<close>

lemma ahead_fields:
  assumes "ahead k p p'"
  shows "p_max_depth p' = p_max_depth p" "p_pos p + k \<le> p_pos p'"
  using assms by (auto simp: ahead_def)

lemma chars_append: "utf8_valid s \<Longrightarrow> utf8_valid t \<Longrightarrow> chars (s @ t) = chars s @ chars t"
proof -
  assume "utf8_valid s" "utf8_valid t"
  then obtain cs ds where "list_all is_scalar cs" "s = utf8_encode cs" "list_all is_scalar ds" "t = utf8_encode ds"
    by (metis utf8_validE)
  then show ?thesis using chars_encode [of "cs @ ds"] by simp
qed

lemma chars_encode_char: "is_scalar c \<Longrightarrow> chars (encode_utf8 c) = [c] \<and> utf8_valid (encode_utf8 c)"
  using chars_encode [of "[c]"] utf8_valid_encode [of "[c]"] by simp

lemma plain_char_of_bytes: "is_scalar c \<Longrightarrow> list_all plain_byte (encode_utf8 c) \<Longrightarrow> plain_char c"
proof (cases "c < 0x80")
  case True
  then show "list_all plain_byte (encode_utf8 c) \<Longrightarrow> plain_char c"
    by (auto simp: encode_utf8_def plain_byte_def plain_char_def word_less_nat_alt word_unat_eq_iff)
qed (auto simp: plain_char_def)

lemma escaped_run:
  assumes "utf8_valid s" "list_all plain_byte s"
  shows "escaped (chars s) = s"
proof -
  obtain cs where cs: "list_all is_scalar cs" "s = utf8_encode cs" "chars s = cs" using assms(1) by (rule utf8_validE)
  have "list_all plain_char cs"
    using assms(2) cs(1) unfolding cs(2) by (induction cs) (simp_all add: plain_char_of_bytes)
  then show ?thesis using escaped_plain cs by simp
qed

lemma escape_char_length: "length (escape_char c) \<le> 6" "simple_escape b = Some c \<Longrightarrow> length (escape_char c) \<le> 2"
  by (auto simp: escape_char_def encode_utf8_def simple_escape_def split: if_splits)

lemma unicode_escape_result:
  assumes "unicode_escape p out = Inr (out', p')"
  shows "\<exists>c. is_scalar c \<and> out' = out @ encode_utf8 c \<and> p_pos p + 4 \<le> p_pos p'"
proof -
  obtain first p1 where 1: "hex4 p = Inr (first, p1)"
    using assms by (auto simp: unicode_escape_def result_simps)
  have p1: "p_pos p + 4 \<le> p_pos p1" using ahead_fields(2) [OF ahead_hex4 [OF 1]] .
  show ?thesis
  proof (cases "0xD800 \<le> first \<and> first < 0xDC00")
    case True
    then obtain second c where "hex4 (adv p1 (Suc (Suc 0))) = Inr (second, p')" "out' = out @ encode_utf8 c" "is_scalar c"
      using assms 1
      by (auto simp: unicode_escape_def result_simps Let_def char_from_u32_def split: if_splits option.splits)
    then show ?thesis using p1 ahead_fields(2) [OF ahead_hex4] by fastforce
  next
    case False
    then show ?thesis using assms 1 p1
      by (auto simp: unicode_escape_def char_from_u32_def split: if_splits option.splits)
  qed
qed

lemma escape_result:
  assumes "escape p out = Inr (out', p')"
  shows "\<exists>c. is_scalar c \<and> out' = out @ encode_utf8 c \<and> length (escape_char c) + p_pos p \<le> p_pos p' + 1"
proof -
  obtain b s where b: "remaining p = b # s" using assms by (cases "remaining p") (auto simp: escape_def)
  show ?thesis
  proof (cases "simple_escape b")
    case None
    then have "unicode_escape (adv p 1) out = Inr (out', p')" using assms b by (auto simp: escape_def split: if_splits)
    then obtain c where "is_scalar c" "out' = out @ encode_utf8 c" "p_pos p + 5 \<le> p_pos p'"
      using unicode_escape_result by fastforce
    then show ?thesis using escape_char_length(1) [of c] by (intro exI [of _ c]) simp
  next
    case (Some c)
    then have "is_scalar c" by (auto simp: simple_escape_def is_scalar_def split: if_splits)
    then show ?thesis using assms b Some escape_char_length(2) [OF Some] by (auto simp: escape_def)
  qed
qed

lemma string_loop_result:
  assumes "string_loop p out = Inr (s, p')" "utf8_valid out"
  shows "utf8_valid s \<and> length (escaped (chars s)) + 1 + p_pos p \<le> length (escaped (chars out)) + p_pos p'"
  using assms
proof (induction p out rule: string_loop.induct)
  case (1 p out)
  define chunk where "chunk = takeWhile plain_byte (remaining p)"
  have chunk: "list_all plain_byte chunk" by (auto simp: chunk_def list_all_iff dest: set_takeWhileD)
  obtain p1 c t where p1: "absorb_run p out = Inr (out @ chunk, p1)" "p1 = adv p (length chunk)" "utf8_valid chunk" "remaining p1 = c # t"
    using "1.prems"(1) by (subst (asm) string_loop.simps)
      (auto simp: result_simps absorb_run_eq Let_def chunk_def peek_Some split: if_splits option.splits)
  have out1: "utf8_valid (out @ chunk)" "escaped (chars (out @ chunk)) = escaped (chars out) @ chunk"
    using p1(3) "1.prems"(2) chunk by (simp_all add: utf8_valid_append chars_append escaped_run)
  show ?case
  proof (cases "c = 0x5C")
    case True
    then obtain out2 p2 where 2: "escape (adv p1 1) (out @ chunk) = Inr (out2, p2)" "string_loop p2 out2 = Inr (s, p')"
      using "1.prems"(1) p1 by (subst (asm) string_loop.simps) (auto simp: result_simps)
    obtain e where e: "is_scalar e" "out2 = (out @ chunk) @ encode_utf8 e" "length (escape_char e) + p_pos (adv p1 1) \<le> p_pos p2 + 1"
      using escape_result [OF 2(1)] by blast
    have out2: "utf8_valid out2" "escaped (chars out2) = escaped (chars out) @ chunk @ escape_char e"
      using out1 e chars_encode_char [OF e(1)] by (simp_all add: utf8_valid_append chars_append del: append_assoc)
    have "utf8_valid s \<and> length (escaped (chars s)) + 1 + p_pos p2 \<le> length (escaped (chars out2)) + p_pos p'"
      using 2 p1 True out2(1) by (intro "1.IH") auto
    then show ?thesis using e(3) out2 p1(2) by simp
  next
    case False
    then have "s = out @ chunk" "p' = adv p1 1" using "1.prems"(1) p1 by (subst (asm) string_loop.simps, auto split: if_splits)+
    then show ?thesis using out1 p1(2) by simp
  qed
qed

lemma parse_string_result:
  assumes "parse_string p = Inr (s, p')"
  shows "utf8_valid s \<and> length (write_string s) + p_pos p \<le> p_pos p'"
proof -
  obtain q where q: "expect p 0x22 = Inr q" "string_loop q [] = Inr (s, p')"
    using assms by (auto simp: parse_string_def result_simps)
  have "p_pos q = p_pos p + 1" using q(1) by (auto simp: expect_def split: if_splits)
  then show ?thesis using string_loop_result [OF q(2)] by (simp add: write_string_escaped chars_def)
qed

lemma decimal_value_bound: "digits s \<Longrightarrow> decimal_value s < 10 ^ length s"
proof (induction s rule: rev_induct)
  case (snoc c s)
  have "unat (c - ch CHR ''0'') < 10" using snoc.prems by (auto simp: digits_def is_ascii_digit_def word_le_nat_alt unat_sub_if')
  then show ?case using snoc by (simp add: decimal_value_snoc)
qed (simp add: decimal_value_def)

lemma parse_i64_result:
  assumes "parse_i64 s = Some n"
  shows "in_i64 n \<and> length (i64_to_string n) \<le> length s"
proof -
  define ds where "ds = (if s \<noteq> [] \<and> (hd s = ch CHR ''-'' \<or> hd s = ch CHR ''+'') then tl s else s)"
  have ds: "digits ds" "ds \<noteq> []" "in_i64 n"
    "(n = int (decimal_value ds) \<and> length ds \<le> length s) \<or> (n = - int (decimal_value ds) \<and> Suc (length ds) \<le> length s)"
    using assms unfolding parse_i64_def Let_def ds_def [symmetric] by (cases s, auto simp: ds_def split: if_splits)+
  have "length (decimal (decimal_value ds)) \<le> length ds"
    using decimal_value_bound [OF ds(1)] ds(2) by (intro decimal_length) auto
  then show ?thesis using ds(3,4) by (auto simp: i64_to_string_def)
qed

lemma parse_number_result:
  assumes "parse_number p = Inr (v, p')"
  shows "\<exists>n. v = IntV n \<and> in_i64 n \<and> length (i64_to_string n) + p_pos p \<le> p_pos p'"
  using assms
proof (cases rule: parse_number_cases)
  case (1 q n)
  then show ?thesis
    using parse_i64_result [OF 1(3)] ahead_fields(2) [OF ahead_parse_number [OF assms]] by auto
qed

text \<open>What a nested method guarantees of the value it returns: it is well formed, fits the depth
  that is left and is no longer in canonical form than the bytes consumed.\<close>

definition returned :: "Parser \<Rightarrow> nat \<Rightarrow> Value \<Rightarrow> Parser \<Rightarrow> bool" where
  "returned p d v p' \<longleftrightarrow> wf_value v \<and> d + value_depth v \<le> p_max_depth p \<and>
     length (write_canonical v) + p_pos p \<le> p_pos p'"

definition joined_length :: "('a \<Rightarrow> u8 list) \<Rightarrow> 'a list \<Rightarrow> nat" where
  "joined_length f xs = sum_list (map (\<lambda>x. length (f x) + 1) xs)"

lemma length_comma_separated: "xs \<noteq> [] \<Longrightarrow> length (comma_separated (map f xs)) + 1 = joined_length f xs"
proof (induction xs)
  case (Cons x xs)
  then show ?case by (cases xs) (simp_all add: joined_length_def)
qed simp

definition members_ok :: "Parser \<Rightarrow> nat \<Rightarrow> members \<Rightarrow> bool" where
  "members_ok p d ms \<longleftrightarrow> sorted_members ms \<and>
     (\<forall>m \<in> set ms. wf_value (snd m) \<and> d + 1 + value_depth (snd m) \<le> p_max_depth p)"

definition items_ok :: "Parser \<Rightarrow> nat \<Rightarrow> Value list \<Rightarrow> bool" where
  "items_ok p d vs \<longleftrightarrow> (\<forall>v \<in> set vs. wf_value v \<and> d + 1 + value_depth v \<le> p_max_depth p)"

lemma returned_Object:
  assumes "members_ok p d ms" "ms \<noteq> []" "joined_length write_member ms + 1 + p_pos p \<le> p_pos p'"
  shows "returned p d (Object ms) p'"
proof -
  have "foldr max (map (\<lambda>m. Suc (value_depth (snd m))) ms) 0 \<le> p_max_depth p - d"
    unfolding depth_le using assms(1) by (auto simp: members_ok_def)
  moreover have "d \<le> p_max_depth p" using assms(1,2) by (cases ms) (auto simp: members_ok_def)
  ultimately show ?thesis
    using assms length_comma_separated [OF assms(2), of write_member]
    unfolding returned_def write_canonical_Object members_ok_def by simp
qed

lemma returned_Array:
  assumes "items_ok p d vs" "vs \<noteq> []" "joined_length write_canonical vs + 1 + p_pos p \<le> p_pos p'"
  shows "returned p d (Array vs) p'"
proof -
  have "foldr max (map (\<lambda>v. Suc (value_depth v)) vs) 0 \<le> p_max_depth p - d"
    unfolding depth_le using assms(1) by (auto simp: items_ok_def)
  moreover have "d \<le> p_max_depth p" using assms(1,2) by (cases vs) (auto simp: items_ok_def)
  ultimately show ?thesis
    using assms length_comma_separated [OF assms(2), of write_canonical]
    unfolding returned_def items_ok_def by simp
qed

lemma skip_ws_fields: "p_max_depth (skip_ws p) = p_max_depth p" "p_pos p \<le> p_pos (skip_ws p)"
  using ahead_fields [OF ahead_skip_ws [of p]] by simp_all

lemma expect_fields: "expect p b = Inr p' \<Longrightarrow> p' = adv p 1"
  by (auto simp: expect_def split: if_splits)

lemma members_ok_insert:
  assumes "members_ok p d out" "obj_insert out name v = Inr out'" "utf8_valid name"
    "wf_value v" "d + 1 + value_depth v \<le> p_max_depth p"
  shows "members_ok p d out' \<and> out' \<noteq> [] \<and>
    joined_length write_member out' = joined_length write_member out + length (write_string name) + 2 + length (write_canonical v)"
proof -
  have s: "sorted_members out'" "mset out' = add_mset (name, v) (mset out)"
    using obj_insert_sound [of out name v] assms(1-3) by (auto simp: members_ok_def)
  then have "set out' = insert (name, v) (set out)" by (metis set_mset_add_mset_insert set_mset_mset)
  moreover have "joined_length write_member out' = sum_mset (image_mset (\<lambda>m. length (write_member m) + 1) (mset out'))"
    by (simp add: joined_length_def sum_mset_sum_list [symmetric])
  then have "joined_length write_member out' = joined_length write_member out + length (write_member (name, v)) + 1"
    unfolding s(2) by (simp add: joined_length_def sum_mset_sum_list [symmetric])
  ultimately show ?thesis using assms(1,4,5) s(1) by (auto simp: members_ok_def)
qed

lemma ok_cong: "p_max_depth q = p_max_depth p \<Longrightarrow> members_ok q d ms = members_ok p d ms"
  "p_max_depth q = p_max_depth p \<Longrightarrow> items_ok q d vs = items_ok p d vs"
  by (simp_all add: members_ok_def items_ok_def)

lemma parse_value_result:
  assumes v: "parse_value p d = Inr (v, p')"
    and obj: "\<And>v p'. d \<le> p_max_depth p \<Longrightarrow> parse_object p d = Inr (v, p') \<Longrightarrow> returned p d v p'"
    and arr: "\<And>v p'. d \<le> p_max_depth p \<Longrightarrow> parse_array p d = Inr (v, p') \<Longrightarrow> returned p d v p'"
  shows "returned p d v p'"
proof -
  obtain c where depth: "d \<le> p_max_depth p" and c: "peek p = Some c" and
    r: "(if c = 0x7B then parse_object p d else if c = 0x5B then parse_array p d
        else if c = 0x22 then and_then (parse_string p) (\<lambda>(s, self). Inr (Text s, self))
        else if c = ch CHR ''t'' then and_then (literal p (lit ''true'')) (\<lambda>self. Inr (Bool True, self))
        else if c = ch CHR ''f'' then and_then (literal p (lit ''false'')) (\<lambda>self. Inr (Bool False, self))
        else if c = ch CHR ''n'' then and_then (literal p (lit ''null'')) (\<lambda>self. Inr (Null, self))
        else if c = ch CHR ''-'' \<or> is_ascii_digit c then parse_number p
        else Inl (malformed p ''expected a value'')) = Inr (v, p')"
    using v unfolding parse_value.simps [of p d] by (cases "p_max_depth p < d"; cases "peek p") simp_all
  have lits: "literal p w = Inr p' \<Longrightarrow> length w + p_pos p \<le> p_pos p'" for w
    using ahead_fields(2) [OF ahead_literal, of p w p'] by simp
  show ?thesis
    using r obj [OF depth, of v p'] arr [OF depth, of v p'] depth parse_string_result [of p _ p'] parse_number_result [of p v p']
      lits [of "lit ''true''"] lits [of "lit ''false''"] lits [of "lit ''null''"]
    by (auto simp: and_then_eq_Inr returned_def split: if_split_asm)
qed

text \<open>The loops: the result extends the members (items) read so far, and what is added is no longer
  in canonical form than what is consumed.\<close>

definition members_read :: "Parser \<Rightarrow> nat \<Rightarrow> members \<Rightarrow> Value \<Rightarrow> Parser \<Rightarrow> bool" where
  "members_read p d out v p' \<longleftrightarrow> (\<exists>ms. v = Object ms \<and> ms \<noteq> [] \<and> members_ok p d ms \<and>
     joined_length write_member ms + p_pos p \<le> joined_length write_member out + p_pos p')"

definition items_read :: "Parser \<Rightarrow> nat \<Rightarrow> Value list \<Rightarrow> Value \<Rightarrow> Parser \<Rightarrow> bool" where
  "items_read p d items v p' \<longleftrightarrow> (\<exists>vs. v = Array vs \<and> vs \<noteq> [] \<and> items_ok p d vs \<and>
     joined_length write_canonical vs + p_pos p \<le> joined_length write_canonical items + p_pos p')"

lemma parse_object_result:
  assumes "parse_object q e = Inr (v, p')" "e \<le> p_max_depth q"
    and loop: "\<And>p1 v p'. expect q 0x7B = Inr p1 \<Longrightarrow> peek (skip_ws p1) \<noteq> Some 0x7D \<Longrightarrow>
      object_loop (skip_ws p1) e [] = Inr (v, p') \<Longrightarrow> members_read (skip_ws p1) e [] v p'"
  shows "returned q e v p'"
proof -
  obtain p1 where p1: "expect q 0x7B = Inr p1" and
    r: "(if peek (skip_ws p1) = Some 0x7D then Inr (Object [], adv (skip_ws p1) 1) else object_loop (skip_ws p1) e []) = Inr (v, p')"
    using assms(1) by (auto simp: parse_object.simps result_simps Let_def)
  have f: "p_max_depth (skip_ws p1) = p_max_depth q" "p_pos q + 1 \<le> p_pos (skip_ws p1)"
    using expect_fields [OF p1] skip_ws_fields [of p1] by simp_all
  show ?thesis
  proof (cases "peek (skip_ws p1) = Some 0x7D")
    case True
    then show ?thesis using r assms(2) f by (auto simp: returned_def sorted_members_def)
  next
    case False
    then obtain ms where ms: "v = Object ms" "ms \<noteq> []" "members_ok (skip_ws p1) e ms"
      "joined_length write_member ms + p_pos (skip_ws p1) \<le> joined_length write_member [] + p_pos p'"
      using loop [OF p1 False, of v p'] r unfolding members_read_def by auto
    show ?thesis unfolding ms(1)
      by (rule returned_Object) (use ms f ok_cong(1) [of "skip_ws p1" q] in \<open>auto simp: joined_length_def [of _ "[]"]\<close>)
  qed
qed

lemma parse_array_result:
  assumes "parse_array q e = Inr (v, p')" "e \<le> p_max_depth q"
    and loop: "\<And>p1 v p'. expect q 0x5B = Inr p1 \<Longrightarrow> peek (skip_ws p1) \<noteq> Some 0x5D \<Longrightarrow>
      array_loop (skip_ws p1) e [] = Inr (v, p') \<Longrightarrow> items_read (skip_ws p1) e [] v p'"
  shows "returned q e v p'"
proof -
  obtain p1 where p1: "expect q 0x5B = Inr p1" and
    r: "(if peek (skip_ws p1) = Some 0x5D then Inr (Array [], adv (skip_ws p1) 1) else array_loop (skip_ws p1) e []) = Inr (v, p')"
    using assms(1) by (auto simp: parse_array.simps result_simps Let_def)
  have f: "p_max_depth (skip_ws p1) = p_max_depth q" "p_pos q + 1 \<le> p_pos (skip_ws p1)"
    using expect_fields [OF p1] skip_ws_fields [of p1] by simp_all
  show ?thesis
  proof (cases "peek (skip_ws p1) = Some 0x5D")
    case True
    then show ?thesis using r assms(2) f by (auto simp: returned_def)
  next
    case False
    then obtain vs where vs: "v = Array vs" "vs \<noteq> []" "items_ok (skip_ws p1) e vs"
      "joined_length write_canonical vs + p_pos (skip_ws p1) \<le> joined_length write_canonical [] + p_pos p'"
      using loop [OF p1 False, of v p'] r unfolding items_read_def by auto
    show ?thesis unfolding vs(1)
      by (rule returned_Array) (use vs f ok_cong(2) [of "skip_ws p1" q] in \<open>auto simp: joined_length_def [of _ "[]"]\<close>)
  qed
qed

lemma object_loop_cases:
  assumes "object_loop p d out = Inr (v, p')"
  obtains name p1 p2 v1 p3 out1 where "parse_string (skip_ws p) = Inr (name, p1)" "expect (skip_ws p1) 0x3A = Inr p2"
    "parse_value (skip_ws p2) (d + 1) = Inr (v1, p3)" "obj_insert out name v1 = Inr out1"
    "(peek (skip_ws p3) = Some 0x2C \<and> object_loop (adv (skip_ws p3) 1) d out1 = Inr (v, p')) \<or>
     (peek (skip_ws p3) \<noteq> Some 0x2C \<and> v = Object out1 \<and> p' = adv (skip_ws p3) 1)"
proof -
  from assms obtain name p1 where 1: "parse_string (skip_ws p) = Inr (name, p1)"
    unfolding object_loop.simps [of p d out] by (auto simp: and_then_eq_Inr)
  then obtain p2 where 2: "expect (skip_ws p1) 0x3A = Inr p2"
    using assms unfolding object_loop.simps [of p d out] by (auto simp: and_then_eq_Inr)
  then obtain v1 p3 where 3: "parse_value (skip_ws p2) (d + 1) = Inr (v1, p3)"
    using assms 1 unfolding object_loop.simps [of p d out] by (auto simp: and_then_eq_Inr)
  then obtain out1 where 4: "obj_insert out name v1 = Inr out1"
    using assms 1 2 unfolding object_loop.simps [of p d out] by (auto simp: and_then_eq_Inr)
  have "(if peek (skip_ws p3) = Some 0x2C then object_loop (adv (skip_ws p3) 1) d out1
      else if peek (skip_ws p3) = Some 0x7D then Inr (Object out1, adv (skip_ws p3) 1)
      else Inl (malformed (skip_ws p3) ''expected ',' or '}' in object'')) = Inr (v, p')"
    using assms unfolding object_loop.simps [of p d out] 1 and_then_Inr prod.case 2 3 4 Let_def .
  then show thesis using that [OF 1 2 3 4] by (auto split: if_split_asm)
qed

lemma object_loop_result:
  assumes "object_loop p d out = Inr (v, p')" and ok: "members_ok p d out"
    and val: "\<And>name p1 p2 v p'. parse_string (skip_ws p) = Inr (name, p1) \<Longrightarrow> expect (skip_ws p1) 0x3A = Inr p2 \<Longrightarrow>
      parse_value (skip_ws p2) (d + 1) = Inr (v, p') \<Longrightarrow> returned (skip_ws p2) (d + 1) v p'"
    and loop: "\<And>name p1 p2 v1 p3 out1 v p'. parse_string (skip_ws p) = Inr (name, p1) \<Longrightarrow> expect (skip_ws p1) 0x3A = Inr p2 \<Longrightarrow>
      parse_value (skip_ws p2) (d + 1) = Inr (v1, p3) \<Longrightarrow> obj_insert out name v1 = Inr out1 \<Longrightarrow>
      peek (skip_ws p3) = Some 0x2C \<Longrightarrow> members_ok (adv (skip_ws p3) 1) d out1 \<Longrightarrow>
      object_loop (adv (skip_ws p3) 1) d out1 = Inr (v, p') \<Longrightarrow> members_read (adv (skip_ws p3) 1) d out1 v p'"
  shows "members_read p d out v p'"
  using assms(1)
proof (cases rule: object_loop_cases)
  case (1 name p1 p2 v1 p3 out1)
  have name: "utf8_valid name" "length (write_string name) + p_pos (skip_ws p) \<le> p_pos p1"
    using parse_string_result [OF 1(1)] by simp_all
  note v1 = val [OF 1(1,2,3)]
  have f: "p_max_depth (skip_ws p3) = p_max_depth p" "p_max_depth (skip_ws p2) = p_max_depth p"
    "p_pos p + length (write_string name) + 1 + length (write_canonical v1) \<le> p_pos (skip_ws p3)"
    using name(2) v1 ahead_fields(1) [OF ahead_parse_string [OF 1(1)]] ahead_fields(1) [OF ahead_value [OF 1(3)]]
      expect_fields [OF 1(2)] skip_ws_fields [of p] skip_ws_fields [of p1] skip_ws_fields [of p2] skip_ws_fields [of p3]
    by (simp_all add: returned_def)
  have out1: "members_ok p d out1" "out1 \<noteq> []"
    "joined_length write_member out1 = joined_length write_member out + length (write_string name) + 2 + length (write_canonical v1)"
    using members_ok_insert [OF ok 1(4) name(1)] v1 f(2) by (simp_all add: returned_def)
  have cong: "members_ok (adv (skip_ws p3) 1) d ms = members_ok p d ms" for ms by (rule ok_cong(1)) (simp add: f)
  from 1(5) show ?thesis
  proof (elim disjE conjE)
    assume "peek (skip_ws p3) = Some 0x2C" "object_loop (adv (skip_ws p3) 1) d out1 = Inr (v, p')"
    then have "members_read (adv (skip_ws p3) 1) d out1 v p'" using loop [OF 1(1-4)] out1(1) cong by blast
    then show ?thesis using f(3) out1(3) unfolding members_read_def cong by fastforce
  next
    assume "v = Object out1" "p' = adv (skip_ws p3) 1"
    then show ?thesis using out1 f(3) unfolding members_read_def by simp
  qed
qed

lemma array_loop_result:
  assumes "array_loop p d items = Inr (v, p')" and ok: "items_ok p d items"
    and val: "\<And>v p'. parse_value (skip_ws p) (d + 1) = Inr (v, p') \<Longrightarrow> returned (skip_ws p) (d + 1) v p'"
    and loop: "\<And>v1 p3 v p'. parse_value (skip_ws p) (d + 1) = Inr (v1, p3) \<Longrightarrow> peek (skip_ws p3) = Some 0x2C \<Longrightarrow>
      items_ok (adv (skip_ws p3) 1) d (items @ [v1]) \<Longrightarrow> array_loop (adv (skip_ws p3) 1) d (items @ [v1]) = Inr (v, p') \<Longrightarrow>
      items_read (adv (skip_ws p3) 1) d (items @ [v1]) v p'"
  shows "items_read p d items v p'"
proof -
  from assms(1) obtain v1 p3 where s: "parse_value (skip_ws p) (d + 1) = Inr (v1, p3)"
    unfolding array_loop.simps [of p d items] and_then_eq_Inr by auto
  have r: "(if peek (skip_ws p3) = Some 0x2C then array_loop (adv (skip_ws p3) 1) d (items @ [v1])
      else if peek (skip_ws p3) = Some 0x5D then Inr (Array (items @ [v1]), adv (skip_ws p3) 1)
      else Inl (malformed (skip_ws p3) ''expected ',' or ']' in array'')) = Inr (v, p')"
    using assms(1) unfolding array_loop.simps [of p d items] s and_then_Inr prod.case Let_def .
  note v1 = val [OF s]
  have f: "p_max_depth (skip_ws p3) = p_max_depth p" "p_pos p + length (write_canonical v1) \<le> p_pos (skip_ws p3)"
    using v1 ahead_fields(1) [OF ahead_value [OF s]] skip_ws_fields [of p] skip_ws_fields [of p3] by (simp_all add: returned_def)
  have out1: "items_ok p d (items @ [v1])"
    "joined_length write_canonical (items @ [v1]) = joined_length write_canonical items + length (write_canonical v1) + 1"
    using ok v1 skip_ws_fields(1) [of p] by (auto simp: items_ok_def returned_def joined_length_def)
  have cong: "items_ok (adv (skip_ws p3) 1) d vs = items_ok p d vs" for vs by (rule ok_cong(2)) (simp add: f)
  show ?thesis
  proof (cases "peek (skip_ws p3) = Some 0x2C")
    case True
    then have "items_read (adv (skip_ws p3) 1) d (items @ [v1]) v p'" using loop [OF s True] out1(1) r cong by simp
    then show ?thesis using f(2) out1(2) unfolding items_read_def cong by fastforce
  next
    case False
    then have "v = Array (items @ [v1])" "p_pos p' = p_pos (skip_ws p3) + 1" using r by (auto split: if_split_asm)
    then show ?thesis using out1 f(2) unfolding items_read_def by simp
  qed
qed

lemma parse_results:
  fixes p q p2 q2 p3 :: Parser
  shows "\<forall>v p'. parse_value p d = Inr (v, p') \<longrightarrow> returned p d v p'"
    and "e \<le> p_max_depth q \<longrightarrow> (\<forall>v p'. parse_object q e = Inr (v, p') \<longrightarrow> returned q e v p')"
    and "members_ok p2 d2 out \<longrightarrow> (\<forall>v p'. object_loop p2 d2 out = Inr (v, p') \<longrightarrow> members_read p2 d2 out v p')"
    and "e2 \<le> p_max_depth q2 \<longrightarrow> (\<forall>v p'. parse_array q2 e2 = Inr (v, p') \<longrightarrow> returned q2 e2 v p')"
    and "items_ok p3 d3 items \<longrightarrow> (\<forall>v p'. array_loop p3 d3 items = Inr (v, p') \<longrightarrow> items_read p3 d3 items v p')"
proof (induction p d and q e and p2 d2 out and q2 e2 and p3 d3 items
    rule: parse_value_parse_object_object_loop_parse_array_array_loop.induct)
  case (1 p d)
  have "peek p = Some 0x7B" if "parse_object p d = Inr (v, p')" for v p'
    using that by (auto simp: parse_object.simps result_simps expect_def split: if_splits)
  moreover have "peek p = Some 0x5B" if "parse_array p d = Inr (v, p')" for v p'
    using that by (auto simp: parse_array.simps result_simps expect_def split: if_splits)
  ultimately show ?case
    using 1 by (intro allI impI) (erule parse_value_result; simp add: not_less)
next
  case (2 q e)
  have "members_ok (skip_ws p1) e []" for p1 by (simp add: members_ok_def sorted_members_def)
  then show ?case using 2 by (intro allI impI) (erule parse_object_result; simp)
next
  case (3 p d out)
  show ?case by (intro allI impI) (erule object_loop_result; use 3 in \<open>simp\<close>)
next
  case (4 q e)
  have "items_ok (skip_ws p1) e []" for p1 by (simp add: items_ok_def)
  then show ?case using 4 by (intro allI impI) (erule parse_array_result; simp)
next
  case (5 p d items)
  show ?case by (intro allI impI) (erule array_loop_result; use 5 in \<open>simp\<close>)
qed

section \<open>Properties of canonical JSON\<close>

lemma parse_canonical_bytes:
  assumes "wf_value v" "value_depth v \<le> max_depth" "length (canonical_bytes v) \<le> max_bytes"
  shows "parse_with_limits (canonical_bytes v) max_bytes max_depth = Inr v"
proof -
  let ?p = "\<lparr>p_bytes = canonical_bytes v, p_pos = 0, p_max_depth = max_depth\<rparr>"
  have rem: "remaining ?p = write_canonical v @ []" by (simp add: remaining_def canonical_bytes_def)
  have "reads_back max_depth 0 v" by (rule reads_back_value) (use assms in simp_all)
  then have "parse_value ?p 0 = Inr (v, adv ?p (length (write_canonical v)))" using rem by (simp add: reads_back_def)
  moreover have "skip_ws (adv ?p (length (write_canonical v))) = adv ?p (length (write_canonical v))"
    using rem by (simp add: skip_ws_def skip_while_eq)
  ultimately show ?thesis
    using assms(3) skip_ws_canonical [OF rem] by (simp add: parse_with_limits_def canonical_bytes_def Let_def)
qed

lemma parse_bytes_result:
  assumes "parse_with_limits input max_bytes max_depth = Inr v"
  shows "wf_value v \<and> value_depth v \<le> max_depth \<and> length (canonical_bytes v) \<le> length input \<and> length input \<le> max_bytes"
proof -
  let ?p = "skip_ws \<lparr>p_bytes = input, p_pos = 0, p_max_depth = max_depth\<rparr>"
  obtain p' where p': "parse_value ?p 0 = Inr (v, p')" "p_pos (skip_ws p') = length (p_bytes (skip_ws p'))" "length input \<le> max_bytes"
    using assms by (auto simp: parse_with_limits_def result_simps Let_def split: if_splits)
  have "returned ?p 0 v p'" using parse_results(1) [of ?p 0] p'(1) by blast
  moreover have "p_bytes (skip_ws p') = input"
    using ahead_value [OF p'(1)] ahead_skip_ws [of p'] ahead_skip_ws [of "\<lparr>p_bytes = input, p_pos = 0, p_max_depth = max_depth\<rparr>"]
    by (auto simp: ahead_def)
  ultimately show ?thesis
    using p'(2,3) skip_ws_fields [of p'] skip_ws_fields [of "\<lparr>p_bytes = input, p_pos = 0, p_max_depth = max_depth\<rparr>"]
    by (auto simp: returned_def canonical_bytes_def)
qed

definition sample_document :: Value where
  "sample_document = Object [(lit ''a'', Array [IntV (- 7), Bool True, Null]), (lit ''b'', Text (lit ''x''))]"

lemma sample_document_wf: "wf_value sample_document"
  by (simp add: sample_document_def sorted_members_def ascii_valid ascii_def cmp_utf16_ascii in_i64_def lit_Cons)

lemma sample_document_length: "length (canonical_bytes sample_document) = 28"
  by (simp add: canonical_bytes_def sample_document_def write_string_def chars_ascii ascii_def i64_to_string_def
      decimal.simps escape_char_def encode_utf8_def lit_Cons)

text \<open>
  C8. Canonical serialization is inverted by the parser: for every well-formed value (integers in
  the \<^verbatim>\<open>i64\<close> range, valid UTF-8 texts, members in strict UTF-16 order) within the two bounds,
  parsing its canonical bytes returns exactly that value.
\<close>

theorem canonical_round_trip:
  assumes "wf_value v" "value_depth v \<le> max_depth" "length (canonical_bytes v) \<le> max_bytes"
  shows "parse_with_limits (canonical_bytes v) max_bytes max_depth = Inr v"
  using assms by (rule parse_canonical_bytes)

theorem canonical_round_trip_witness:
  "parse_with_limits (canonical_bytes sample_document) 64 2 = Inr sample_document"
  by (rule canonical_round_trip [OF sample_document_wf]) (simp_all add: sample_document_length, simp add: sample_document_def)

text \<open>
  C9. Whatever input the parser accepts, the value it returns is well formed, is nested no deeper
  than the bound, is no longer in canonical form than the input, and is what its canonical
  bytes parse to under the same bounds: canonicalizing a received document is always possible
  and idempotent.
\<close>

theorem parsed_documents_canonicalize:
  assumes "parse_with_limits input max_bytes max_depth = Inr v"
  shows "wf_value v \<and> value_depth v \<le> max_depth \<and> length (canonical_bytes v) \<le> length input \<and>
    parse_with_limits (canonical_bytes v) max_bytes max_depth = Inr v"
  using parse_bytes_result [OF assms] by (simp add: parse_canonical_bytes)

theorem parsed_documents_canonicalize_witness:
  "parse_with_limits (lit '' [ -12 , true]'') 64 2 = Inr (Array [IntV (- 12), Bool True]) \<and>
   length (canonical_bytes (Array [IntV (- 12), Bool True])) \<le> 14"
proof -
  have p: "parse_with_limits (lit '' [ -12 , true]'') 64 2 = Inr (Array [IntV (- 12), Bool True])" by code_simp
  have "length (lit '' [ -12 , true]'') = 14" by simp
  then show ?thesis using parsed_documents_canonicalize [OF p] p by simp
qed

text \<open>
  C10. Equal canonical bytes mean equal values, so a digest over canonical bytes identifies the
  value and not a rendering of it.
\<close>

theorem canonical_bytes_identify_values:
  assumes "wf_value v" "wf_value w" "canonical_bytes v = canonical_bytes w"
  shows "v = w"
proof -
  let ?d = "max (value_depth v) (value_depth w)" and ?n = "length (canonical_bytes v)"
  have "parse_with_limits (canonical_bytes v) ?n ?d = Inr v" "parse_with_limits (canonical_bytes w) ?n ?d = Inr w"
    by (rule parse_canonical_bytes; use assms in simp)+
  then show ?thesis using assms(3) by simp
qed

theorem canonical_bytes_identify_values_witness:
  "canonical_bytes (IntV 1) \<noteq> canonical_bytes (IntV 2)"
  using canonical_bytes_identify_values [of "IntV 1" "IntV 2"] by (auto simp: in_i64_def)

text \<open>
  C11. An object refines a finite map from names to values: lookup by binary search is the map's
  lookup, \<^verbatim>\<open>insert\<close> rejects exactly the names already present, and \<^verbatim>\<open>insert\<close>, \<^verbatim>\<open>set\<close> and
  \<^verbatim>\<open>remove\<close> act as map update and removal while keeping the members in strict UTF-16 order.
\<close>

theorem objects_refine_maps:
  assumes "sorted_members ms" "utf8_valid name"
  shows "obj_get ms name = map_of ms name \<and> (obj_contains ms name \<longleftrightarrow> name \<in> fst ` set ms) \<and>
    (case obj_insert ms name v of
       Inl e \<Rightarrow> e = DuplicateMember \<and> name \<in> fst ` set ms
     | Inr ms' \<Rightarrow> name \<notin> fst ` set ms \<and> sorted_members ms' \<and> map_of ms' = (map_of ms)(name \<mapsto> v)) \<and>
    sorted_members (obj_set ms name v) \<and> map_of (obj_set ms name v) = (map_of ms)(name \<mapsto> v) \<and>
    fst (obj_remove ms name) = map_of ms name \<and> sorted_members (snd (obj_remove ms name)) \<and>
    map_of (snd (obj_remove ms name)) = (map_of ms)(name := None)"
proof -
  have "name \<in> fst ` set ms \<longleftrightarrow> map_of ms name \<noteq> None" by (simp add: map_of_eq_None_iff)
  then show ?thesis
    using obj_insert_sound [OF assms, of v] obj_set_sound [OF assms, of v] obj_remove_sound [OF assms] obj_get_map_of [OF assms]
    by (simp add: obj_contains_def split: sum.splits)
qed

theorem objects_refine_maps_witness:
  "obj_get [(lit ''a'', Null), (lit ''c'', Null)] (lit ''b'') = None \<and>
   sorted_members (obj_set [(lit ''a'', Null), (lit ''c'', Null)] (lit ''b'') Null)"
proof -
  have s: "sorted_members [(lit ''a'', Null), (lit ''c'', Null)]" "utf8_valid (lit ''b'')"
    by (simp_all add: sorted_members_def ascii_valid ascii_def cmp_utf16_ascii lit_Cons)
  show ?thesis using objects_refine_maps [OF s, of Null] by (simp add: lit_def)
qed

end
