(* ===== verification/Framing.thy ===== *)
theory Framing
  imports Vocabulary Utf8 "HOL-Library.Sublist"
begin

text \<open>
  The \<^verbatim>\<open>multipart/related\<close> framing layer of the ingest endpoint
  (\<^verbatim>\<open>archivist-server/src/parse/framing.rs\<close>): the check of the request Content-Type and the
  incremental tokenizer with its bounded window. The byte source is a trait: it is the argument
  \<open>pull\<close>, whose contract is the locale \<open>byte_source\<close>, interpreted on the implementation the source
  gives for \<^verbatim>\<open>&[u8]\<close>. The window buffer is the list of its loaded bytes; the zeros that
  \<^verbatim>\<open>Vec::resize\<close> puts behind them exist only during a pull. A call that fails ends the stream, so
  an error carries no tokenizer.
\<close>

section \<open>Errors and the request header\<close>

definition FRAMING_WINDOW_BYTES :: nat where
  "FRAMING_WINDOW_BYTES = 8 * 1024"

definition DELIMITER_MAX_BYTES :: nat where
  "DELIMITER_MAX_BYTES = 6 + 70"

definition CONTENT_TYPE_HEADER_PREFIX :: "u8 list" where
  "CONTENT_TYPE_HEADER_PREFIX = lit ''content-type: ''"

definition CRLF :: "u8 list" where
  "CRLF = [0x0D, 0x0A]"

datatype 'k FramingError = NotMultipartRelated | BoundaryInvalid | MissingOpeningBoundary
  | MalformedDelimiter | PartHeaderMalformed | UnexpectedEndOfStream
  | TrailingBytesAfterClosingDelimiter | SourceRead 'k

text \<open>\<^verbatim>\<open>FramingError::code\<close>; \<open>None\<close> is the panic of \<^verbatim>\<open>expect\<close>.\<close>

definition framing_error_code :: "'k FramingError \<Rightarrow> ErrorCode option" where
  "framing_error_code e = (case ErrorCode_parse (lit ''request.framing_invalid'') of
     Inl _ \<Rightarrow> None | Inr c \<Rightarrow> Some c)"

record RequestFraming =
  framing_boundary :: str

text \<open>\<^verbatim>\<open>[T]::starts_with\<close> and \<^verbatim>\<open>str::starts_with\<close>, on bytes.\<close>

definition begins_with :: "u8 list \<Rightarrow> u8 list \<Rightarrow> bool" where
  "begins_with p xs \<longleftrightarrow> take (length p) xs = p"

definition validate_content_type :: "str \<Rightarrow> 'k FramingError + RequestFraming" where
  "validate_content_type header = (case ContentType_parse header of
     Inl _ \<Rightarrow>
       let exact = lit ''multipart/related'';
           media_type_exact = begins_with exact header \<and>
             (length header \<le> length exact \<or> header ! length exact = ch CHR '';'')
       in Inl (if media_type_exact then BoundaryInvalid else NotMultipartRelated)
   | Inr _ \<Rightarrow> Inr \<lparr>framing_boundary = drop (length (lit ''multipart/related; boundary='')) header\<rparr>)"

section \<open>The tokenizer\<close>

text \<open>
  \<^verbatim>\<open>ByteSource::pull\<close>: at most as many bytes as the slice it is given holds, or the kind of the
  failure. The first definition is the implementation for \<^verbatim>\<open>&[u8]\<close>.
\<close>

type_synonym ('s, 'k) pull = "'s \<Rightarrow> nat \<Rightarrow> 'k + u8 list \<times> 's"

definition slice_pull :: "(u8 list, 'k) pull" where
  "slice_pull self room = (let n = min room (length self) in Inr (take n self, drop n self))"

datatype FramingEvent = PartStarted | PartContentType str | Payload "u8 list" | PartEnded | EndOfParts

datatype Stage = Opening | Headers | Payloads | AfterBoundary | AfterClose | NextPartOpening
  | ClosingPart | Done

record 's FramingTokenizer =
  source :: 's
  dash_boundary :: "u8 list"
  payload_delimiter :: "u8 list"
  window :: "u8 list"
  pos :: nat
  stage :: Stage

definition tokenizer_new :: "RequestFraming \<Rightarrow> 's \<Rightarrow> 's FramingTokenizer" where
  "tokenizer_new framing s = (let dash = lit ''--'' @ framing_boundary framing in
     \<lparr>source = s, dash_boundary = dash, payload_delimiter = CRLF @ dash, window = [], pos = 0,
      stage = Opening\<rparr>)"

definition window_len :: "'s FramingTokenizer \<Rightarrow> nat" where
  "window_len self = length (window self)"

definition live :: "'s FramingTokenizer \<Rightarrow> nat" where
  "live self = length (window self) - pos self"

definition live_bytes :: "'s FramingTokenizer \<Rightarrow> u8 list" where
  "live_bytes self = drop (pos self) (window self)"

definition starts_with :: "'s FramingTokenizer \<Rightarrow> u8 list \<Rightarrow> bool" where
  "starts_with self p = begins_with p (live_bytes self)"

definition matches_at :: "'s FramingTokenizer \<Rightarrow> nat \<Rightarrow> u8 list \<Rightarrow> bool" where
  "matches_at self offset p = begins_with p (drop (pos self + offset) (window self))"

definition fill :: "('s, 'k) pull \<Rightarrow> 's FramingTokenizer \<Rightarrow> 'k FramingError + nat \<times> 's FramingTokenizer" where
  "fill pull self = (
     let self = (if pos self > 0 then self\<lparr>window := drop (pos self) (window self), pos := 0\<rparr> else self)
     in if length (window self) \<ge> FRAMING_WINDOW_BYTES then Inr (0, self)
        else let filled = length (window self); room = FRAMING_WINDOW_BYTES - filled
          in case pull (source self) room of
               Inl k \<Rightarrow> Inl (SourceRead k)
             | Inr (bytes, s) \<Rightarrow> let pulled = take room bytes
                 in Inr (length pulled, self\<lparr>source := s, window := window self @ pulled\<rparr>))"

text \<open>\<^verbatim>\<open>xs.windows(d.len()).position(|w| w == d)\<close>, for a nonempty \<open>d\<close>.\<close>

fun windows_position :: "u8 list \<Rightarrow> u8 list \<Rightarrow> nat option" where
  "windows_position d [] = None"
| "windows_position d (x # xs) = (if begins_with d (x # xs) then Some 0 else map_option Suc (windows_position d xs))"

definition consume :: "nat \<Rightarrow> Stage \<Rightarrow> 's FramingTokenizer \<Rightarrow> 's FramingTokenizer" where
  "consume n st self = self\<lparr>pos := pos self + n, stage := st\<rparr>"

text \<open>\<^verbatim>\<open>strip_prefix\<close>, \<^verbatim>\<open>filter\<close> and \<^verbatim>\<open>from_utf8\<close> on the header block.\<close>

definition header_value :: "u8 list \<Rightarrow> str option" where
  "header_value block = (if begins_with CONTENT_TYPE_HEADER_PREFIX block then
     let value = drop (length CONTENT_TYPE_HEADER_PREFIX) block
     in if value \<noteq> [] \<and> utf8_valid value then Some value else None
   else None)"

lemma length_live_bytes [simp]: "length (live_bytes t) = live t"
  by (simp add: live_bytes_def live_def)

text \<open>What a successful fill does: it compacts the window and appends what the source returned.\<close>

lemma fill_InrE:
  assumes "fill pull t = Inr (n, t')"
  obtains bytes s where "n = length bytes" "t' = t\<lparr>source := s, window := live_bytes t @ bytes, pos := 0\<rparr>"
    "n \<le> FRAMING_WINDOW_BYTES - live t"
    "live t < FRAMING_WINDOW_BYTES \<and> (\<exists>raw. pull (source t) (FRAMING_WINDOW_BYTES - live t) = Inr (raw, s) \<and>
       bytes = take (FRAMING_WINDOW_BYTES - live t) raw) \<or>
     FRAMING_WINDOW_BYTES \<le> live t \<and> bytes = [] \<and> s = source t"
proof -
  define u where "u = (if pos t > 0 then t\<lparr>window := drop (pos t) (window t), pos := 0\<rparr> else t)"
  have u: "u = t\<lparr>window := live_bytes t, pos := 0\<rparr>" by (simp add: u_def live_bytes_def)
  have f: "fill pull t = (if length (window u) \<ge> FRAMING_WINDOW_BYTES then Inr (0, u)
        else case pull (source u) (FRAMING_WINDOW_BYTES - length (window u)) of
               Inl k \<Rightarrow> Inl (SourceRead k)
             | Inr (bytes, s) \<Rightarrow> Inr (length (take (FRAMING_WINDOW_BYTES - length (window u)) bytes),
                 u\<lparr>source := s, window := window u @ take (FRAMING_WINDOW_BYTES - length (window u)) bytes\<rparr>))"
    by (simp only: fill_def u_def Let_def)
  show ?thesis
  proof (cases "FRAMING_WINDOW_BYTES \<le> live t")
    case True
    then have "n = 0" "t' = u" using assms by (simp_all add: f u)
    then show ?thesis using True that [of "[]" "source t"] by (simp add: u)
  next
    case False
    then obtain raw s where p: "pull (source t) (FRAMING_WINDOW_BYTES - live t) = Inr (raw, s)"
        "n = length (take (FRAMING_WINDOW_BYTES - live t) raw)"
        "t' = u\<lparr>source := s, window := live_bytes t @ take (FRAMING_WINDOW_BYTES - live t) raw\<rparr>"
      using assms by (auto simp: f u split: sum.splits)
    show ?thesis by (rule that [of "take (FRAMING_WINDOW_BYTES - live t) raw" s]) (use False p in \<open>simp_all add: u\<close>)
  qed
qed

lemma fill_live:
  assumes "fill pull t = Inr (n, t')"
  shows "stage t' = stage t" "live t' = live t + n" "n \<le> FRAMING_WINDOW_BYTES - live t" "pos t' = 0"
    "dash_boundary t' = dash_boundary t" "payload_delimiter t' = payload_delimiter t"
  by (rule fill_InrE [OF assms]; simp add: live_def)+

lemma fill_measure:
  assumes "fill pull t = Inr (n, t')" "0 < n"
  shows "FRAMING_WINDOW_BYTES - live t' < FRAMING_WINDOW_BYTES - live t"
  using fill_live(2,3) [OF assms(1)] assms(2) by simp

text \<open>
  One round of the \<^verbatim>\<open>loop\<close> of \<^verbatim>\<open>next_event\<close>: it fails, goes round again, or returns. \<open>refill\<close> is
  the call of \<open>fill\<close> that every stage makes when it needs more bytes.
\<close>

datatype round = Continue | Yield "FramingEvent option"

definition refill ::
  "('s, 'k) pull \<Rightarrow> 's FramingTokenizer \<Rightarrow> ('s FramingTokenizer \<Rightarrow> 'k FramingError) \<Rightarrow>
     'k FramingError + round \<times> 's FramingTokenizer" where
  "refill pull self at_end = and_then (fill pull self) (\<lambda>(n, self).
     if n = 0 then Inl (at_end self) else Inr (Continue, self))"

definition opening_round where
  "opening_round pull self =
     (if live self < length (dash_boundary self) \<and>
         \<not> starts_with self (take (live self) (dash_boundary self)) then Inl MissingOpeningBoundary
      else if live self < length (dash_boundary self) + 2 then
        refill pull self (\<lambda>self. if \<not> starts_with self (dash_boundary self) then MissingOpeningBoundary
                                 else UnexpectedEndOfStream)
      else if \<not> starts_with self (dash_boundary self) then Inl MissingOpeningBoundary
      else if \<not> matches_at self (length (dash_boundary self)) CRLF then Inl MalformedDelimiter
      else Inr (Yield (Some PartStarted), consume (length (dash_boundary self) + 2) Headers self))"

definition headers_round where
  "headers_round pull self =
     (if starts_with self CRLF then Inl PartHeaderMalformed
      else case windows_position (CRLF @ CRLF) (live_bytes self) of
        None \<Rightarrow>
          if length (window self) \<ge> FRAMING_WINDOW_BYTES then Inl PartHeaderMalformed
          else refill pull self (\<lambda>self. UnexpectedEndOfStream)
      | Some at \<Rightarrow> (case header_value (take at (live_bytes self)) of
          None \<Rightarrow> Inl PartHeaderMalformed
        | Some value \<Rightarrow> Inr (Yield (Some (PartContentType value)), consume (at + 4) Payloads self)))"

definition payload_round where
  "payload_round pull self =
     (if live self = 0 then refill pull self (\<lambda>self. UnexpectedEndOfStream)
      else case windows_position (payload_delimiter self) (live_bytes self) of
        Some at \<Rightarrow> Inr (Yield (Some (Payload (take at (live_bytes self)))),
          consume (at + length (payload_delimiter self)) AfterBoundary self)
      | None \<Rightarrow>
          let retain = length (payload_delimiter self) - 1
          in if live self > retain then
               let emit = live self - retain
               in Inr (Yield (Some (Payload (take emit (live_bytes self)))), consume emit Payloads self)
             else refill pull self (\<lambda>self. UnexpectedEndOfStream))"

definition after_boundary_round where
  "after_boundary_round pull self =
     (if live self < 2 then refill pull self (\<lambda>self. UnexpectedEndOfStream)
      else if starts_with self (lit ''--'') then Inr (Continue, consume 2 ClosingPart self)
      else if starts_with self CRLF then Inr (Yield (Some PartEnded), consume 2 NextPartOpening self)
      else Inl MalformedDelimiter)"

definition after_close_round where
  "after_close_round pull self =
     (if live self < 2 then refill pull self (\<lambda>self. UnexpectedEndOfStream)
      else if \<not> starts_with self CRLF then Inl MalformedDelimiter
      else Inr (Yield (Some EndOfParts), consume 2 Done self))"

definition done_round where
  "done_round pull self =
     (if live self > 0 then Inl TrailingBytesAfterClosingDelimiter
      else and_then (fill pull self) (\<lambda>(n, self).
        if n > 0 then Inl TrailingBytesAfterClosingDelimiter else Inr (Yield None, self)))"

definition event_round ::
  "('s, 'k) pull \<Rightarrow> 's FramingTokenizer \<Rightarrow> 'k FramingError + round \<times> 's FramingTokenizer" where
  "event_round pull self = (case stage self of
     Opening \<Rightarrow> opening_round pull self
   | Headers \<Rightarrow> headers_round pull self
   | Payloads \<Rightarrow> payload_round pull self
   | AfterBoundary \<Rightarrow> after_boundary_round pull self
   | ClosingPart \<Rightarrow> Inr (Yield (Some PartEnded), consume 0 AfterClose self)
   | AfterClose \<Rightarrow> after_close_round pull self
   | NextPartOpening \<Rightarrow> Inr (Yield (Some PartStarted), consume 0 Headers self)
   | Done \<Rightarrow> done_round pull self)"

lemmas round_defs = opening_round_def headers_round_def payload_round_def after_boundary_round_def
  after_close_round_def done_round_def

lemma refill_simps [result_simps]:
  "refill pull t at_end = Inr (r, t') \<longleftrightarrow> r = Continue \<and> (\<exists>n. fill pull t = Inr (n, t') \<and> 0 < n)"
  "refill pull t at_end = Inl e \<longleftrightarrow>
     fill pull t = Inl e \<or> (\<exists>u. fill pull t = Inr (0, u) \<and> e = at_end u)"
  by (auto simp: refill_def result_simps)

lemma event_round_Continue:
  assumes "event_round pull t = Inr (Continue, t')"
  shows "(\<exists>n. fill pull t = Inr (n, t') \<and> 0 < n) \<or>
     stage t = AfterBoundary \<and> 2 \<le> live t \<and> starts_with t (lit ''--'') \<and> t' = consume 2 ClosingPart t"
  using assms
  by (auto simp: event_round_def round_defs Let_def result_simps split: Stage.splits if_splits option.splits)

definition stage_rank :: "Stage \<Rightarrow> nat" where
  "stage_rank s = (if s = AfterBoundary then 1 else 0)"

function next_event ::
  "('s, 'k) pull \<Rightarrow> 's FramingTokenizer \<Rightarrow> 'k FramingError + FramingEvent option \<times> 's FramingTokenizer" where
  "next_event pull self = (case event_round pull self of
     Inl e \<Rightarrow> Inl e
   | Inr (Continue, self) \<Rightarrow> next_event pull self
   | Inr (Yield ev, self) \<Rightarrow> Inr (ev, self))"
  by pat_completeness auto
termination
  by (relation "measures [\<lambda>(pull, t). stage_rank (stage t), \<lambda>(pull, t). FRAMING_WINDOW_BYTES - live t]")
    (auto simp: consume_def stage_rank_def dest!: event_round_Continue dest: fill_live(1) fill_measure)

declare next_event.simps [simp del]

lemma next_event_induct [case_names 1]:
  "(\<And>t. (\<And>t'. event_round pull t = Inr (Continue, t') \<Longrightarrow> P t') \<Longrightarrow> P t) \<Longrightarrow> P t"
  by (induction pull t rule: next_event.induct) blast

section \<open>First occurrences\<close>

lemma begins_with_prefix: "begins_with p xs \<longleftrightarrow> prefix p xs"
  by (metis append_eq_conv_conj begins_with_def prefix_def)

lemma begins_with_append [simp]: "begins_with p (p @ xs)"
  by (simp add: begins_with_def)

text \<open>\<open>first_at d p\<close>: in \<open>p @ d @ r\<close> the leftmost occurrence of \<open>d\<close> is the one after \<open>p\<close>.\<close>

definition first_at :: "u8 list \<Rightarrow> u8 list \<Rightarrow> bool" where
  "first_at d p \<longleftrightarrow> \<not> sublist d (p @ butlast d)"

lemma windows_position_None: "d \<noteq> [] \<Longrightarrow> windows_position d xs = None \<longleftrightarrow> \<not> sublist d xs"
  by (induction xs) (auto simp: sublist_Cons_right begins_with_prefix)

lemma windows_position_SomeD:
  assumes "d \<noteq> []" "windows_position d xs = Some i"
  shows "xs = take i xs @ d @ drop (i + length d) xs" "first_at d (take i xs)" "i + length d \<le> length xs"
proof -
  have "\<exists>r. xs = take i xs @ d @ r \<and> first_at d (take i xs) \<and> i \<le> length xs"
    using assms(2)
  proof (induction xs arbitrary: i)
    case (Cons x xs)
    show ?case
    proof (cases "begins_with d (x # xs)")
      case True
      moreover have "\<not> sublist d (butlast d)" using sublist_length_le [of d "butlast d"] assms(1) by (cases d) auto
      ultimately show ?thesis using Cons.prems by (auto simp: begins_with_prefix first_at_def prefix_def)
    next
      case False
      then obtain j r where j: "i = Suc j" "xs = take j xs @ d @ r" "first_at d (take j xs)" "j \<le> length xs"
        using Cons by auto
      have "x # xs = ((x # take j xs) @ butlast d) @ [last d] @ r"
        using j(2) assms(1) by (metis append.assoc append_Cons append_butlast_last_id)
      then have "\<not> prefix d ((x # take j xs) @ butlast d)"
        using False unfolding begins_with_prefix by (metis prefix_append prefix_order.refl)
      then show ?thesis using j by (auto simp: first_at_def sublist_Cons_right)
    qed
  qed simp
  then obtain r where r: "xs = take i xs @ d @ r" "first_at d (take i xs)" "i \<le> length xs" by blast
  then have "drop (i + length d) xs = r"
    by (metis add.commute append_eq_conv_conj drop_drop length_take min.absorb2)
  moreover have "length xs = i + length d + length r" using arg_cong [OF r(1), of length] r(3) by simp
  ultimately show "xs = take i xs @ d @ drop (i + length d) xs" "first_at d (take i xs)" "i + length d \<le> length xs"
    using r by simp_all
qed

lemma windows_position_first:
  assumes "d \<noteq> []" "first_at d p"
  shows "windows_position d (p @ d @ r) = Some (length p)"
  using assms(2)
proof (induction p)
  case Nil
  then show ?case using assms(1) by (cases d) (auto simp: begins_with_def)
next
  case (Cons a p)
  have "prefix ((a # p) @ butlast d) ((a # p) @ d @ r)"
    using assms(1) by (metis append.assoc append_butlast_last_id prefixI same_prefix_prefix)
  moreover have "length d \<le> length ((a # p) @ butlast d)" by simp
  ultimately have "prefix d ((a # p) @ d @ r) \<Longrightarrow> prefix d ((a # p) @ butlast d)"
    by (meson prefix_length_prefix)
  then have "\<not> begins_with d (a # p @ d @ r)"
    using Cons.prems by (auto simp: begins_with_prefix first_at_def)
  moreover have "first_at d p" using Cons.prems by (simp add: first_at_def sublist_Cons_right)
  ultimately show ?case using Cons.IH by simp
qed

lemma first_at_unique:
  assumes "d \<noteq> []" "first_at d p" "first_at d q" "p @ d @ r = q @ d @ s"
  shows "p = q" "r = s"
proof -
  have "length p = length q"
    using windows_position_first [OF assms(1,2), of r] windows_position_first [OF assms(1,3), of s] assms(4) by simp
  then show "p = q" "r = s" using assms(4) by simp_all
qed

lemma sublist_across:
  assumes "sublist d (a @ b)"
  shows "sublist d b \<or> sublist d (a @ take (length d - 1) b)"
proof (rule ccontr)
  assume c: "\<not> ?thesis"
  obtain p r where pr: "a @ b = p @ d @ r" using assms by (auto simp: sublist_def)
  have "length p < length a"
  proof (rule ccontr)
    assume "\<not> length p < length a"
    then have "b = drop (length a) p @ d @ r" using arg_cong [OF pr, of "drop (length a)"] by simp
    then show False using c by (auto simp: sublist_def)
  qed
  then have "take (length p + length d) (a @ b) = take (length p + length d) (a @ take (length d - 1) b)"
    by simp
  then have "prefix (p @ d) (a @ take (length d - 1) b)"
    using pr by (metis append.assoc append_eq_conv_conj length_append take_is_prefix)
  then show False using c by (auto simp: prefix_def sublist_def)
qed

lemma first_at_extend:
  assumes "\<not> sublist d (a @ take (length d - 1) (b @ butlast d))" "first_at d b"
  shows "first_at d (a @ b)"
  using assms sublist_across [of d a "b @ butlast d"] by (auto simp: first_at_def)

section \<open>The pinned framing as a transition system\<close>

text \<open>
  The specification: an abstract state is the stage and the payload of the open part so far; a
  transition is labelled with the event and with the bytes of the body it stands for. A payload
  ends at the leftmost occurrence of the delimiter in the part, however the runs split it.
\<close>

definition dash :: "str \<Rightarrow> u8 list" where
  "dash b = lit ''--'' @ b"

definition delimiter :: "str \<Rightarrow> u8 list" where
  "delimiter b = CRLF @ dash b"

definition header_block :: "str \<Rightarrow> u8 list" where
  "header_block v = CONTENT_TYPE_HEADER_PREFIX @ v"

definition header_wf :: "str \<Rightarrow> bool" where
  "header_wf v \<longleftrightarrow> v \<noteq> [] \<and> utf8_valid v \<and> first_at (CRLF @ CRLF) (header_block v)"

inductive framed_step :: "str \<Rightarrow> Stage \<times> u8 list \<Rightarrow> FramingEvent \<Rightarrow> u8 list \<Rightarrow> Stage \<times> u8 list \<Rightarrow> bool" for b where
  open_first: "framed_step b (Opening, p) PartStarted (dash b @ CRLF) (Headers, p)"
| header: "header_wf v \<Longrightarrow>
    framed_step b (Headers, p) (PartContentType v) (header_block v @ CRLF @ CRLF) (Payloads, [])"
| run: "bs \<noteq> [] \<Longrightarrow> framed_step b (Payloads, p) (Payload bs) bs (Payloads, p @ bs)"
| last_run: "first_at (delimiter b) (p @ bs) \<Longrightarrow>
    framed_step b (Payloads, p) (Payload bs) (bs @ delimiter b) (AfterBoundary, p @ bs)"
| next_part: "framed_step b (AfterBoundary, p) PartEnded CRLF (NextPartOpening, p)"
| last_part: "framed_step b (AfterBoundary, p) PartEnded (lit ''--'') (AfterClose, p)"
| owed: "framed_step b (ClosingPart, p) PartEnded [] (AfterClose, p)"
| next_opening: "framed_step b (NextPartOpening, p) PartStarted [] (Headers, p)"
| close: "framed_step b (AfterClose, p) EndOfParts CRLF (Done, p)"

inductive_cases owedE: "framed_step b (ClosingPart, p) ev bs s"

section \<open>Byte sources\<close>

text \<open>The bytes the tokenizer has not consumed: the live window and what the source still holds.\<close>

definition unread :: "('s \<Rightarrow> u8 list) \<Rightarrow> 's FramingTokenizer \<Rightarrow> u8 list" where
  "unread rest t = live_bytes t @ rest (source t)"

definition wf_tokenizer :: "str \<Rightarrow> 's FramingTokenizer \<Rightarrow> bool" where
  "wf_tokenizer b t \<longleftrightarrow> pos t \<le> length (window t) \<and> length (window t) \<le> FRAMING_WINDOW_BYTES \<and>
     dash_boundary t = dash b \<and> payload_delimiter t = delimiter b"

text \<open>In the payload stage no delimiter starts in the bytes already yielded.\<close>

definition no_missed_delimiter :: "str \<Rightarrow> u8 list \<Rightarrow> ('s \<Rightarrow> u8 list) \<Rightarrow> 's FramingTokenizer \<Rightarrow> bool" where
  "no_missed_delimiter b p rest t \<longleftrightarrow> (stage t = Payloads \<longrightarrow>
     \<not> sublist (delimiter b) (p @ take (length (delimiter b) - 1) (unread rest t)))"

locale byte_source =
  fixes pull :: "('s, 'k) pull" and rest :: "'s \<Rightarrow> u8 list"
  assumes pull_prefix: "pull s n = Inr (bs, s') \<Longrightarrow> length bs \<le> n \<and> rest s = bs @ rest s'"
    and pull_end: "pull s n = Inr ([], s') \<Longrightarrow> 0 < n \<Longrightarrow> rest s = []"
begin

lemma fill_keeps:
  assumes "fill pull t = Inr (n, t')"
  shows "unread rest t' = unread rest t" "wf_tokenizer b t \<Longrightarrow> wf_tokenizer b t'"
    "no_missed_delimiter b p rest t \<Longrightarrow> no_missed_delimiter b p rest t'"
proof -
  show u: "unread rest t' = unread rest t"
    using assms
  proof (rule fill_InrE)
    fix bytes s
    assume a: "n = length bytes" "t' = t\<lparr>source := s, window := live_bytes t @ bytes, pos := 0\<rparr>"
      and b: "live t < FRAMING_WINDOW_BYTES \<and> (\<exists>raw. pull (source t) (FRAMING_WINDOW_BYTES - live t) = Inr (raw, s) \<and>
         bytes = take (FRAMING_WINDOW_BYTES - live t) raw) \<or>
       FRAMING_WINDOW_BYTES \<le> live t \<and> bytes = [] \<and> s = source t"
    have "rest (source t) = bytes @ rest s"
      using b pull_prefix [of "source t" "FRAMING_WINDOW_BYTES - live t" _ s] by auto
    then show ?thesis using a(2) by (simp add: unread_def live_bytes_def)
  qed
  show "wf_tokenizer b t \<Longrightarrow> wf_tokenizer b t'"
    using fill_live [OF assms] by (auto simp: wf_tokenizer_def live_def)
  show "no_missed_delimiter b p rest t \<Longrightarrow> no_missed_delimiter b p rest t'"
    using u fill_live(1) [OF assms] by (simp add: no_missed_delimiter_def)
qed

lemma fill_end:
  assumes "fill pull t = Inr (0, t')" "live t < FRAMING_WINDOW_BYTES"
  shows "rest (source t) = []" "rest (source t') = []" "live_bytes t' = live_bytes t"
proof -
  from assms(1) obtain bytes s where a: "0 = length bytes" "t' = t\<lparr>source := s, window := live_bytes t @ bytes, pos := 0\<rparr>"
    and b: "live t < FRAMING_WINDOW_BYTES \<and> (\<exists>raw. pull (source t) (FRAMING_WINDOW_BYTES - live t) = Inr (raw, s) \<and>
       bytes = take (FRAMING_WINDOW_BYTES - live t) raw) \<or>
     FRAMING_WINDOW_BYTES \<le> live t \<and> bytes = [] \<and> s = source t"
    by (rule fill_InrE)
  then have "pull (source t) (FRAMING_WINDOW_BYTES - live t) = Inr ([], s)"
    using assms(2) by auto
  then have r: "rest (source t) = []" "rest s = []"
    using pull_end pull_prefix [of "source t" "FRAMING_WINDOW_BYTES - live t" "[]" s] assms(2) by auto
  show "rest (source t) = []" "rest (source t') = []" "live_bytes t' = live_bytes t"
    using r a by (simp_all add: live_bytes_def)
qed

end

section \<open>The tokenizer refines the transition system\<close>

lemma consume_simps [simp]:
  "stage (consume n st t) = st" "source (consume n st t) = source t" "window (consume n st t) = window t"
  "dash_boundary (consume n st t) = dash_boundary t" "payload_delimiter (consume n st t) = payload_delimiter t"
  by (simp_all add: consume_def)

lemma consume_bytes:
  assumes "wf_tokenizer b t" "live_bytes t = bs @ r"
  shows "unread rest t = bs @ unread rest (consume (length bs) st t)" "wf_tokenizer b (consume (length bs) st t)"
    "live_bytes (consume (length bs) st t) = r"
proof -
  have len: "length bs + length r = live t" using arg_cong [OF assms(2), of length] by simp
  have r: "live_bytes (consume (length bs) st t) = drop (length bs) (live_bytes t)"
    by (simp add: live_bytes_def consume_def add.commute)
  show "live_bytes (consume (length bs) st t) = r" using r assms(2) by simp
  then show "unread rest t = bs @ unread rest (consume (length bs) st t)"
    using assms(2) by (simp add: unread_def)
  show "wf_tokenizer b (consume (length bs) st t)"
    using assms(1) len by (auto simp: wf_tokenizer_def consume_def live_def)
qed

lemma begins_withD: "begins_with p xs \<Longrightarrow> xs = p @ drop (length p) xs"
  by (metis append_take_drop_id begins_with_def)

lemma delimiter_simps [simp]: "delimiter b \<noteq> []" "length (delimiter b) = length b + 4" "length (dash b) = length b + 2"
  "length CRLF = 2" "CRLF \<noteq> []"
  by (simp_all add: delimiter_def dash_def CRLF_def)

lemma no_missed_other: "stage t \<noteq> Payloads \<Longrightarrow> no_missed_delimiter b p rest t"
  by (simp add: no_missed_delimiter_def)

lemma short_no_delimiter: "length xs < length d \<Longrightarrow> \<not> sublist d xs"
  using sublist_length_le [of d xs] by auto

lemma opening_sim:
  assumes "wf_tokenizer b t" "opening_round pull t = Inr (Yield (Some ev), t')"
  shows "ev = PartStarted \<and> t' = consume (length (dash b @ CRLF)) Headers t \<and> (\<exists>r. live_bytes t = (dash b @ CRLF) @ r)"
proof -
  have d: "dash_boundary t = dash b" using assms(1) by (simp add: wf_tokenizer_def)
  have s: "begins_with (dash b) (live_bytes t)" "begins_with CRLF (drop (length (dash b)) (live_bytes t))"
      "ev = PartStarted" "t' = consume (length (dash b @ CRLF)) Headers t"
    using assms(2) by (auto simp: opening_round_def result_simps d starts_with_def matches_at_def live_bytes_def
        add.commute split: if_splits)
  then show ?thesis using begins_withD [OF s(1)] begins_withD [OF s(2)] by (metis append.assoc)
qed

lemma headers_sim:
  assumes "headers_round pull t = Inr (Yield (Some ev), t')"
  shows "\<exists>v r. ev = PartContentType v \<and> header_wf v \<and> live_bytes t = (header_block v @ CRLF @ CRLF) @ r \<and>
    t' = consume (length (header_block v @ CRLF @ CRLF)) Payloads t"
proof -
  obtain i v where i: "windows_position (CRLF @ CRLF) (live_bytes t) = Some i" "header_value (take i (live_bytes t)) = Some v"
      "ev = PartContentType v" "t' = consume (i + 4) Payloads t"
    using assms by (auto simp: headers_round_def result_simps split: if_splits option.splits)
  note p = windows_position_SomeD [OF _ i(1), simplified]
  have h: "take i (live_bytes t) = header_block v" "v \<noteq> []" "utf8_valid v"
    using i(2) by (auto simp: header_value_def header_block_def Let_def dest: begins_withD split: if_splits)
  have "length (header_block v) = i" using h(1) p(3) by (metis add_leD1 length_live_bytes length_take min.absorb2)
  then show ?thesis using h p i by (auto simp: header_wf_def)
qed

lemma payload_sim:
  assumes "wf_tokenizer b t" "payload_round pull t = Inr (Yield (Some ev), t')"
  shows "(\<exists>bs r. ev = Payload bs \<and> first_at (delimiter b) bs \<and> live_bytes t = (bs @ delimiter b) @ r \<and>
      t' = consume (length (bs @ delimiter b)) AfterBoundary t) \<or>
    (\<exists>bs r. ev = Payload bs \<and> bs \<noteq> [] \<and> live_bytes t = bs @ r \<and> length r = length (delimiter b) - 1 \<and>
      \<not> sublist (delimiter b) (live_bytes t) \<and> t' = consume (length bs) Payloads t)"
proof -
  have d: "payload_delimiter t = delimiter b" using assms(1) by (simp add: wf_tokenizer_def)
  show ?thesis
  proof (cases "windows_position (delimiter b) (live_bytes t)")
    case None
    define e where "e = live t - (length (delimiter b) - 1)"
    have e: "0 < e" "ev = Payload (take e (live_bytes t))" "t' = consume e Payloads t"
      using assms(2) None by (auto simp: payload_round_def result_simps d e_def Let_def split: if_splits)
    have "live_bytes t = take e (live_bytes t) @ drop e (live_bytes t)" "length (take e (live_bytes t)) = e"
        "length (drop e (live_bytes t)) = length (delimiter b) - 1"
      using e(1) by (simp_all add: e_def)
    moreover from this(2) e(1) have "take e (live_bytes t) \<noteq> []" by (metis length_0_conv not_gr_zero)
    ultimately show ?thesis using e None by (metis delimiter_simps(1) windows_position_None)
  next
    case (Some i)
    note p = windows_position_SomeD [OF delimiter_simps(1) Some]
    have "ev = Payload (take i (live_bytes t))" "t' = consume (i + length (delimiter b)) AfterBoundary t"
      using assms(2) Some by (auto simp: payload_round_def result_simps d Let_def split: if_splits)
    moreover have "length (take i (live_bytes t)) = i" using p(3) by simp
    ultimately show ?thesis using p(1,2) by (metis append.assoc length_append)
  qed
qed

context byte_source
begin

lemma consume_step:
  assumes "wf_tokenizer b t" "live_bytes t = bs @ r" "framed_step b (stage t, p) ev bs (st, p')"
    "t' = consume (length bs) st t" "st \<noteq> Payloads \<or> no_missed_delimiter b p' rest t'"
  shows "\<exists>bs p'. framed_step b (stage t, p) ev bs (stage t', p') \<and> unread rest t = bs @ unread rest t' \<and>
    wf_tokenizer b t' \<and> no_missed_delimiter b p' rest t'"
  using assms consume_bytes(1,2) [OF assms(1,2)] no_missed_other [of t' b p' rest] by (intro exI [of _ bs] exI [of _ p']) auto

lemma payload_step:
  assumes wf: "wf_tokenizer b t" and nm: "no_missed_delimiter b p rest t" and st: "stage t = Payloads"
    and ev: "payload_round pull t = Inr (Yield (Some ev), t')"
  shows "\<exists>bs p'. framed_step b (stage t, p) ev bs (stage t', p') \<and> unread rest t = bs @ unread rest t' \<and>
    wf_tokenizer b t' \<and> no_missed_delimiter b p' rest t'"
proof -
  consider (last) bs r where "ev = Payload bs" "first_at (delimiter b) bs" "live_bytes t = (bs @ delimiter b) @ r"
      "t' = consume (length (bs @ delimiter b)) AfterBoundary t"
    | (more) bs r where "ev = Payload bs" "bs \<noteq> []" "live_bytes t = bs @ r" "length r = length (delimiter b) - 1"
      "\<not> sublist (delimiter b) (live_bytes t)" "t' = consume (length bs) Payloads t"
    using payload_sim [OF wf ev] by blast
  then show ?thesis
  proof cases
    case last
    have "take (length (delimiter b) - 1) (unread rest t) = take (length (delimiter b) - 1) (bs @ butlast (delimiter b))"
      using last(3) by (simp add: unread_def butlast_conv_take min_def)
    then have "first_at (delimiter b) (p @ bs)"
      using nm st last(2) first_at_extend [of "delimiter b" p bs] by (simp add: no_missed_delimiter_def)
    then have "framed_step b (stage t, p) ev (bs @ delimiter b) (AfterBoundary, p @ bs)"
      unfolding last(1) st by (rule framed_step.last_run)
    then show ?thesis by (rule consume_step [OF wf last(3) _ last(4)]) simp
  next
    case more
    have "take (length (delimiter b) - 1) (unread rest t') = r"
      using consume_bytes(3) [OF wf more(3), where st = Payloads] more(4,6) by (simp add: unread_def)
    moreover have "\<not> sublist (delimiter b) (p @ live_bytes t)"
      using sublist_across [of "delimiter b" p "live_bytes t"] more(3,4,5) nm st
      by (auto simp: no_missed_delimiter_def unread_def)
    ultimately have "no_missed_delimiter b (p @ bs) rest t'" using more(3) by (simp add: no_missed_delimiter_def)
    moreover have "framed_step b (stage t, p) ev bs (Payloads, p @ bs)"
      unfolding more(1) st using more(2) by (rule framed_step.run)
    ultimately show ?thesis by (intro consume_step [OF wf more(3) _ more(6)]) simp_all
  qed
qed

lemma round_sim:
  assumes wf: "wf_tokenizer b t" and nm: "no_missed_delimiter b p rest t"
    and ev: "event_round pull t = Inr (Yield (Some ev), t')"
  shows "\<exists>bs p'. framed_step b (stage t, p) ev bs (stage t', p') \<and> unread rest t = bs @ unread rest t' \<and>
    wf_tokenizer b t' \<and> no_missed_delimiter b p' rest t'"
proof (cases "stage t")
  case Opening
  then have "opening_round pull t = Inr (Yield (Some ev), t')" using ev by (simp add: event_round_def)
  from opening_sim [OF wf this]
  obtain r where r: "ev = PartStarted" "t' = consume (length (dash b @ CRLF)) Headers t" "live_bytes t = (dash b @ CRLF) @ r"
    by blast
  show ?thesis
    by (rule consume_step [OF wf r(3) _ r(2), of p _ p]) (simp_all add: Opening r(1) framed_step.open_first)
next
  case Headers
  then obtain v r where h: "ev = PartContentType v" "header_wf v" "live_bytes t = (header_block v @ CRLF @ CRLF) @ r"
      "t' = consume (length (header_block v @ CRLF @ CRLF)) Payloads t"
    using headers_sim [of pull t ev t'] ev by (auto simp: event_round_def)
  have "no_missed_delimiter b [] rest t'"
    unfolding no_missed_delimiter_def by (intro impI short_no_delimiter) simp
  then show ?thesis
    by (intro consume_step [OF wf h(3) _ h(4), of p _ "[]"]) (simp_all add: Headers h(1,2) framed_step.header)
next
  case Payloads
  then show ?thesis using payload_step [OF wf nm, of ev t'] ev by (simp add: event_round_def)
next
  case AfterBoundary
  then have e: "ev = PartEnded" "t' = consume (length CRLF) NextPartOpening t" "begins_with CRLF (live_bytes t)"
    using ev by (auto simp: event_round_def after_boundary_round_def result_simps starts_with_def split: if_splits)
  show ?thesis
    by (rule consume_step [OF wf begins_withD [OF e(3)] _ e(2), of p _ p]) (simp_all add: AfterBoundary e(1) framed_step.next_part)
next
  case AfterClose
  then have e: "ev = EndOfParts" "t' = consume (length CRLF) Done t" "begins_with CRLF (live_bytes t)"
    using ev by (auto simp: event_round_def after_close_round_def result_simps starts_with_def split: if_splits)
  show ?thesis
    by (rule consume_step [OF wf begins_withD [OF e(3)] _ e(2), of p _ p]) (simp_all add: AfterClose e(1) framed_step.close)
next
  case NextPartOpening
  then show ?thesis using ev
    by (intro consume_step [OF wf, of "[]" "live_bytes t" p ev Headers p]) (auto simp: event_round_def framed_step.next_opening)
next
  case ClosingPart
  then show ?thesis using ev
    by (intro consume_step [OF wf, of "[]" "live_bytes t" p ev AfterClose p]) (auto simp: event_round_def framed_step.owed)
next
  case Done
  then show ?thesis using ev by (auto simp: event_round_def done_round_def result_simps split: if_splits)
qed

lemma next_event_sim:
  assumes "wf_tokenizer b t" "no_missed_delimiter b p rest t" "next_event pull t = Inr (Some ev, t')"
  shows "\<exists>bs p'. framed_step b (stage t, p) ev bs (stage t', p') \<and> unread rest t = bs @ unread rest t' \<and>
    wf_tokenizer b t' \<and> no_missed_delimiter b p' rest t'"
  using assms
proof (induction t rule: next_event_induct [where pull = pull])
  case (1 t)
  from "1.prems"(3) consider (yield) "event_round pull t = Inr (Yield (Some ev), t')"
    | (loop) u where "event_round pull t = Inr (Continue, u)" "next_event pull u = Inr (Some ev, t')"
    by (subst (asm) next_event.simps) (auto split: sum.splits round.splits)
  then show ?case
  proof cases
    case yield
    then show ?thesis using round_sim "1.prems" by blast
  next
    case loop
    show ?thesis
    proof (cases "\<exists>n. fill pull t = Inr (n, u) \<and> 0 < n")
      case True
      then obtain n where n: "fill pull t = Inr (n, u)" by blast
      then show ?thesis
        using "1.IH" [OF loop(1) _ _ loop(2)] fill_keeps [OF n] fill_live(1) [OF n] "1.prems"(1,2) by simp
    next
      case False
      then have c: "stage t = AfterBoundary" "begins_with (lit ''--'') (live_bytes t)" "u = consume (length (lit ''--'')) ClosingPart t"
        using event_round_Continue [OF loop(1)] by (auto simp: starts_with_def numeral_2_eq_2)
      note u = consume_bytes [OF "1.prems"(1) begins_withD [OF c(2)], where st = ClosingPart, folded c(3)]
      obtain bs p' where "framed_step b (ClosingPart, p) ev bs (stage t', p')" "unread rest u = bs @ unread rest t'"
          "wf_tokenizer b t'" "no_missed_delimiter b p' rest t'"
        using "1.IH" [OF loop(1) u(2) _ loop(2)] no_missed_other [of u b p rest] c(3) by auto
      moreover from this(1) have "ev = PartEnded" "bs = []" "stage t' = AfterClose" "p' = p" by (auto elim: owedE)
      ultimately show ?thesis using c(1) u(1) [of rest] framed_step.last_part [of b p] by auto
    qed
  qed
qed

text \<open>A stream ends only in the final stage, with every byte consumed.\<close>

lemma next_event_end:
  assumes "wf_tokenizer b t" "next_event pull t = Inr (None, t')"
  shows "stage t = Done" "unread rest t = []"
proof -
  have "stage t = Done \<and> unread rest t = []"
    using assms
  proof (induction t rule: next_event_induct [where pull = pull])
    case (1 t)
    from "1.prems"(2) consider (yield) "event_round pull t = Inr (Yield None, t')"
      | (loop) u where "event_round pull t = Inr (Continue, u)" "next_event pull u = Inr (None, t')"
      by (subst (asm) next_event.simps) (auto split: sum.splits round.splits)
    then show ?case
    proof cases
      case yield
      then have "stage t = Done" "live t = 0" "fill pull t = Inr (0, t')"
        by (auto simp: event_round_def round_defs Let_def result_simps split: Stage.splits if_splits option.splits)
      moreover have "live t < FRAMING_WINDOW_BYTES" using \<open>live t = 0\<close> by (simp add: FRAMING_WINDOW_BYTES_def)
      ultimately show ?thesis using fill_end(1) [of t t'] by (simp add: unread_def flip: length_0_conv)
    next
      case loop
      show ?thesis
      proof (cases "\<exists>n. fill pull t = Inr (n, u) \<and> 0 < n")
        case True
        then obtain n where n: "fill pull t = Inr (n, u)" by blast
        then show ?thesis
          using "1.IH" [OF loop(1) _ loop(2)] fill_keeps(1,2) [OF n] fill_live(1) [OF n] "1.prems"(1) by simp
      next
        case False
        then have "u = consume 2 ClosingPart t" using event_round_Continue [OF loop(1)] by auto
        then show ?thesis using loop(2) by (subst (asm) next_event.simps) (simp add: event_round_def)
      qed
    qed
  qed
  then show "stage t = Done" "unread rest t = []" by simp_all
qed

end

section \<open>Parts and their rendering\<close>

text \<open>
  A body is a list of parts, each a content type and a payload. \<open>render\<close> is the byte-level framing
  of Section 1.2 of the protocol; \<open>collect\<close> reads the parts off a stream of events.
\<close>

type_synonym part = "str \<times> u8 list"

definition render_part :: "str \<Rightarrow> part \<Rightarrow> u8 list" where
  "render_part b q = header_block (fst q) @ CRLF @ CRLF @ snd q @ delimiter b"

fun parts_tail :: "str \<Rightarrow> part list \<Rightarrow> u8 list" where
  "parts_tail b [] = lit ''--'' @ CRLF"
| "parts_tail b (q # qs) = CRLF @ render_part b q @ parts_tail b qs"

definition render :: "str \<Rightarrow> part list \<Rightarrow> u8 list" where
  "render b qs = dash b @ parts_tail b qs"

definition part_wf :: "str \<Rightarrow> part \<Rightarrow> bool" where
  "part_wf b q \<longleftrightarrow> header_wf (fst q) \<and> first_at (delimiter b) (snd q)"

fun collect :: "part option \<Rightarrow> FramingEvent list \<Rightarrow> part list" where
  "collect cur [] = []"
| "collect cur (PartContentType v # es) = collect (Some (v, [])) es"
| "collect (Some (v, p)) (Payload bs # es) = collect (Some (v, p @ bs)) es"
| "collect (Some q) (PartEnded # es) = q # collect None es"
| "collect cur (e # es) = collect cur es"

text \<open>The bytes that may follow in a stage, and the runs of the transition system.\<close>

definition valid_rest :: "str \<Rightarrow> Stage \<Rightarrow> u8 list \<Rightarrow> u8 list \<Rightarrow> bool" where
  "valid_rest b st p bs \<longleftrightarrow> (case st of
     Opening \<Rightarrow> \<exists>qs. qs \<noteq> [] \<and> list_all (part_wf b) qs \<and> bs = render b qs
   | Payloads \<Rightarrow> \<exists>r qs. first_at (delimiter b) (p @ r) \<and> list_all (part_wf b) qs \<and> bs = r @ delimiter b @ parts_tail b qs
   | AfterBoundary \<Rightarrow> \<exists>qs. list_all (part_wf b) qs \<and> bs = parts_tail b qs
   | ClosingPart \<Rightarrow> bs = CRLF
   | AfterClose \<Rightarrow> bs = CRLF
   | Done \<Rightarrow> bs = []
   | _ \<Rightarrow> \<exists>q qs. list_all (part_wf b) (q # qs) \<and> bs = render_part b q @ parts_tail b qs)"

inductive framed_trace :: "str \<Rightarrow> Stage \<times> u8 list \<Rightarrow> FramingEvent list \<Rightarrow> u8 list \<Rightarrow> bool" for b where
  trace_end: "framed_trace b (Done, p) [] []"
| trace_step: "framed_step b s ev bs s' \<Longrightarrow> framed_trace b s' evs cs \<Longrightarrow> framed_trace b s (ev # evs) (bs @ cs)"

definition trace_parts :: "str \<Rightarrow> Stage \<Rightarrow> u8 list \<Rightarrow> FramingEvent list \<Rightarrow> u8 list \<Rightarrow> bool" where
  "trace_parts b st p evs bs \<longleftrightarrow> (case st of
     Opening \<Rightarrow> \<exists>q qs. (\<forall>cur. collect cur evs = q # qs) \<and> list_all (part_wf b) (q # qs) \<and> bs = render b (q # qs)
   | Payloads \<Rightarrow> \<exists>r qs. (\<forall>v. collect (Some (v, p)) evs = (v, p @ r) # qs) \<and> first_at (delimiter b) (p @ r) \<and>
       list_all (part_wf b) qs \<and> bs = r @ delimiter b @ parts_tail b qs
   | AfterBoundary \<Rightarrow> \<exists>qs. (\<forall>v. collect (Some (v, p)) evs = (v, p) # qs) \<and> list_all (part_wf b) qs \<and> bs = parts_tail b qs
   | ClosingPart \<Rightarrow> (\<forall>v. collect (Some (v, p)) evs = [(v, p)]) \<and> bs = CRLF
   | AfterClose \<Rightarrow> (\<forall>cur. collect cur evs = []) \<and> bs = CRLF
   | Done \<Rightarrow> evs = [] \<and> bs = []
   | _ \<Rightarrow> \<exists>q qs. (\<forall>cur. collect cur evs = q # qs) \<and> list_all (part_wf b) (q # qs) \<and>
       bs = render_part b q @ parts_tail b qs)"

lemma trace_parts_step:
  assumes "framed_step b (st, p) ev bs (st', p')" "trace_parts b st' p' evs cs"
  shows "trace_parts b st p (ev # evs) (bs @ cs)"
  using assms
proof cases
  case (header v)
  then obtain r qs where "\<And>w. collect (Some (w, [])) evs = (w, r) # qs" "first_at (delimiter b) r"
      "list_all (part_wf b) qs" "cs = r @ delimiter b @ parts_tail b qs"
    using assms(2) by (auto simp: trace_parts_def)
  then show ?thesis using header by (simp add: trace_parts_def render_part_def part_wf_def)
qed (use assms(2) in \<open>auto simp: trace_parts_def render_def\<close>)

lemma framed_trace_parts: "framed_trace b (st, p) evs bs \<Longrightarrow> trace_parts b st p evs bs"
proof (induction "(st, p)" evs bs arbitrary: st p rule: framed_trace.induct)
  case (trace_end p)
  then show ?case by (simp add: trace_parts_def)
next
  case (trace_step ev bs s' evs cs)
  then show ?case using trace_parts_step by (cases s') auto
qed

section \<open>Reading a whole body\<close>

text \<open>
  A consumer that pulls events until the stream ends. The fuel bounds the number of events; twice
  the length of the body is enough, for every source that keeps its contract.
\<close>

fun drain :: "nat \<Rightarrow> ('s, 'k) pull \<Rightarrow> 's FramingTokenizer \<Rightarrow> ('k FramingError + FramingEvent list) option" where
  "drain 0 pull t = None"
| "drain (Suc fuel) pull t = (case next_event pull t of
     Inl e \<Rightarrow> Some (Inl e)
   | Inr (None, _) \<Rightarrow> Some (Inr [])
   | Inr (Some ev, t) \<Rightarrow> map_option (map_sum id ((#) ev)) (drain fuel pull t))"

lemma map_sum_eq:
  "map_sum f g r = Inr y \<longleftrightarrow> (\<exists>x. r = Inr x \<and> y = g x)"
  "map_sum f g r = Inl z \<longleftrightarrow> (\<exists>x. r = Inl x \<and> z = f x)"
  by (cases r; auto)+

definition events_left :: "Stage \<Rightarrow> u8 list \<Rightarrow> nat" where
  "events_left st bs = 2 * length bs + (if st = NextPartOpening \<or> st = ClosingPart then 1 else 0)"

lemma framed_step_measure:
  "framed_step b (st, p) ev bs (st', p') \<Longrightarrow> events_left st' cs < events_left st (bs @ cs)"
  by (cases rule: framed_step.cases, assumption) (auto simp: events_left_def header_block_def CONTENT_TYPE_HEADER_PREFIX_def)

context byte_source
begin

lemma drain_total:
  assumes "wf_tokenizer b t" "no_missed_delimiter b p rest t" "events_left (stage t) (unread rest t) < fuel"
  shows "drain fuel pull t \<noteq> None"
  using assms
proof (induction fuel arbitrary: t p)
  case (Suc fuel)
  show ?case
  proof (cases "next_event pull t")
    case (Inr r)
    show ?thesis
    proof (cases "fst r")
      case (Some ev)
      then obtain t' where t': "next_event pull t = Inr (Some ev, t')" using Inr by (cases r) auto
      obtain bs p' where s: "framed_step b (stage t, p) ev bs (stage t', p')" "unread rest t = bs @ unread rest t'"
          "wf_tokenizer b t'" "no_missed_delimiter b p' rest t'"
        using next_event_sim [OF Suc.prems(1,2) t'] by blast
      have "events_left (stage t') (unread rest t') < fuel"
        using framed_step_measure [OF s(1), of "unread rest t'"] s(2) Suc.prems(3) by simp
      then show ?thesis using Suc.IH [OF s(3,4)] t' by simp
    qed (use Inr in \<open>cases r; simp\<close>)
  qed simp
qed simp

lemma drain_trace:
  assumes "wf_tokenizer b t" "no_missed_delimiter b p rest t" "drain fuel pull t = Some (Inr evs)"
  shows "framed_trace b (stage t, p) evs (unread rest t)"
  using assms
proof (induction fuel arbitrary: t p evs)
  case (Suc fuel)
  from Suc.prems(3) consider (stop) t' where "next_event pull t = Inr (None, t')" "evs = []"
    | (event) ev t' es where "next_event pull t = Inr (Some ev, t')" "drain fuel pull t' = Some (Inr es)" "evs = ev # es"
    by (auto split: sum.splits option.splits simp: map_sum_eq)
  then show ?case
  proof cases
    case stop
    then show ?thesis using next_event_end [OF Suc.prems(1)] framed_trace.trace_end [of b p] by simp
  next
    case event
    obtain bs p' where s: "framed_step b (stage t, p) ev bs (stage t', p')" "unread rest t = bs @ unread rest t'"
        "wf_tokenizer b t'" "no_missed_delimiter b p' rest t'"
      using next_event_sim [OF Suc.prems(1,2) event(1)] by blast
    show ?thesis unfolding s(2) event(3)
      by (rule framed_trace.trace_step [OF s(1) Suc.IH [OF s(3,4) event(2)]])
  qed
qed simp

end

section \<open>Well-framed bodies\<close>

lemma parts_tail_cases: "\<exists>r. parts_tail b qs = lit ''--'' @ r \<and> qs = [] \<or> parts_tail b qs = CRLF @ r \<and> qs \<noteq> []"
  by (cases qs) auto

lemma CRLF_not_dashes: "lit ''--'' @ xs \<noteq> CRLF @ ys" "CRLF @ ys \<noteq> lit ''--'' @ xs" "CRLF @ ys \<noteq> header_block v @ xs"
  by (simp_all add: CRLF_def header_block_def CONTENT_TYPE_HEADER_PREFIX_def lit_def)

lemma valid_run:
  assumes "valid_rest b Payloads p (bs @ cs)" "\<not> sublist (delimiter b) (p @ bs @ take (length (delimiter b) - 1) cs)"
  shows "valid_rest b Payloads (p @ bs) cs"
proof -
  obtain r qs where r: "first_at (delimiter b) (p @ r)" "list_all (part_wf b) qs" "bs @ cs = r @ delimiter b @ parts_tail b qs"
    using assms(1) by (auto simp: valid_rest_def)
  have "length bs \<le> length r"
  proof (rule ccontr)
    assume "\<not> length bs \<le> length r"
    then have "take (length r + length (delimiter b)) (bs @ cs) =
        take (length r + length (delimiter b)) (bs @ take (length (delimiter b) - 1) cs)" by simp
    moreover have "take (length r + length (delimiter b)) (bs @ cs) = r @ delimiter b" by (simp add: r(3))
    ultimately obtain z where "bs @ take (length (delimiter b) - 1) cs = r @ delimiter b @ z"
      by (metis append.assoc append_take_drop_id)
    then have "p @ bs @ take (length (delimiter b) - 1) cs = (p @ r) @ delimiter b @ z" by simp
    then show False using assms(2) unfolding sublist_def by blast
  qed
  then obtain r' where "r = bs @ r'" "cs = r' @ delimiter b @ parts_tail b qs"
    using r(3) by (auto simp: append_eq_append_conv2)
  then show ?thesis using r by (auto simp: valid_rest_def)
qed

lemma valid_step:
  assumes "framed_step b (st, p) ev bs (st', p')" "valid_rest b st p (bs @ cs)"
    "st' = Payloads \<Longrightarrow> \<not> sublist (delimiter b) (p' @ take (length (delimiter b) - 1) cs)"
  shows "valid_rest b st' p' cs"
  using assms(1)
proof cases
  case open_first
  then obtain qs where "qs \<noteq> []" "list_all (part_wf b) qs" "CRLF @ cs = parts_tail b qs"
    using assms(2) by (auto simp: valid_rest_def render_def)
  then show ?thesis using open_first by (cases qs) (auto simp: valid_rest_def)
next
  case (header v)
  then obtain q qs where q: "part_wf b q" "list_all (part_wf b) qs"
      "header_block v @ (CRLF @ CRLF) @ cs = header_block (fst q) @ (CRLF @ CRLF) @ snd q @ delimiter b @ parts_tail b qs"
    using assms(2) by (auto simp: valid_rest_def render_part_def)
  have "cs = snd q @ delimiter b @ parts_tail b qs"
    by (rule first_at_unique(2) [OF _ _ _ q(3)]) (use header q(1) in \<open>simp_all add: header_wf_def part_wf_def\<close>)
  then show ?thesis using header q by (auto simp: valid_rest_def part_wf_def)
next
  case run
  then show ?thesis using valid_run assms(2,3) by simp
next
  case (last_run bs)
  then obtain r qs where r: "first_at (delimiter b) (p @ r)" "list_all (part_wf b) qs"
      "(p @ bs) @ delimiter b @ cs = (p @ r) @ delimiter b @ parts_tail b qs"
    using assms(2) by (auto simp: valid_rest_def)
  have "cs = parts_tail b qs" by (rule first_at_unique(2) [OF _ last_run(6) r(1,3)]) simp
  then show ?thesis using last_run r(2) by (auto simp: valid_rest_def)
next
  case next_part
  then obtain qs where "list_all (part_wf b) qs" "CRLF @ cs = parts_tail b qs" using assms(2) by (auto simp: valid_rest_def)
  then show ?thesis using next_part CRLF_not_dashes by (cases qs) (auto simp: valid_rest_def)
next
  case last_part
  then obtain qs where "lit ''--'' @ cs = parts_tail b qs" using assms(2) by (auto simp: valid_rest_def)
  then show ?thesis using last_part CRLF_not_dashes by (cases qs) (auto simp: valid_rest_def)
qed (use assms(2) in \<open>auto simp: valid_rest_def\<close>)

text \<open>A source that does not fail.\<close>

locale reliable_source = byte_source +
  assumes pull_ok: "pull s n \<noteq> Inl k"
begin

lemma fill_ok:
  assumes "live t < FRAMING_WINDOW_BYTES" "live t < length (unread rest t)"
  shows "\<exists>u. refill pull t e = Inr (Continue, u)"
proof (cases "fill pull t")
  case (Inl e)
  then show ?thesis using pull_ok by (auto simp: fill_def Let_def split: if_splits sum.splits)
next
  case (Inr r)
  then obtain n u where u: "fill pull t = Inr (n, u)" by (cases r) auto
  have "n \<noteq> 0" using fill_end(1) [of t u] u assms by (auto simp: unread_def)
  then show ?thesis using u by (auto simp: refill_simps)
qed

lemma live_take: "live_bytes t = take (live t) (unread rest t)"
  by (simp add: unread_def)

lemma live_prefix: "unread rest t = ds @ r \<Longrightarrow> length ds \<le> live t \<Longrightarrow> begins_with ds (live_bytes t)"
  unfolding begins_with_def by (subst live_take) (simp add: min_def)

lemma opening_progress:
  assumes "wf_tokenizer b t" "length b \<le> 70" "unread rest t = dash b @ CRLF @ r"
  shows "\<exists>x. opening_round pull t = Inr x"
proof -
  have d: "dash_boundary t = dash b" using assms(1) by (simp add: wf_tokenizer_def)
  have "starts_with t (take (live t) (dash b))" if "live t < length (dash b)"
    using live_prefix [of t "take (live t) (dash b)" "drop (live t) (dash b) @ CRLF @ r"] that assms(3)
    by (simp add: starts_with_def)
  moreover have "\<exists>x. refill pull t e = Inr x" if "live t < length (dash b) + 2" for e
    using fill_ok [of t e] that assms(2,3) by (auto simp: FRAMING_WINDOW_BYTES_def)
  moreover have "starts_with t (dash b) \<and> matches_at t (length (dash b)) CRLF" if "\<not> live t < length (dash b) + 2"
  proof -
    have "begins_with (dash b @ CRLF) (live_bytes t)" using live_prefix [of t "dash b @ CRLF" r] that assms(3) by simp
    then obtain z where "live_bytes t = dash b @ CRLF @ z" by (metis append.assoc begins_withD)
    moreover have "drop (pos t + length (dash b)) (window t) = drop (length (dash b)) (live_bytes t)"
      by (simp add: live_bytes_def add.commute del: delimiter_simps)
    ultimately show ?thesis by (simp add: starts_with_def matches_at_def)
  qed
  ultimately show ?thesis by (auto simp: opening_round_def d)
qed

lemma headers_progress:
  assumes "header_wf v" "unread rest t = header_block v @ (CRLF @ CRLF) @ r"
  shows "(\<exists>x. headers_round pull t = Inr x) \<or>
    FRAMING_WINDOW_BYTES \<le> length (window t) \<and> headers_round pull t = Inl PartHeaderMalformed"
proof -
  have "unread rest t = CRLF @ drop 2 (live_bytes t) @ rest (source t)" if "starts_with t CRLF"
    using begins_withD [OF that [unfolded starts_with_def]] by (simp add: unread_def)
  then have n: "\<not> starts_with t CRLF" using assms(2) CRLF_not_dashes(3) by metis
  show ?thesis
  proof (cases "windows_position (CRLF @ CRLF) (live_bytes t)")
    case None
    have "live t < length (unread rest t)"
    proof (rule ccontr)
      assume "\<not> live t < length (unread rest t)"
      then have "live_bytes t = unread rest t" by (simp add: unread_def)
      then show False using windows_position_first [of "CRLF @ CRLF" "header_block v" r] None assms by (simp add: header_wf_def)
    qed
    then have "\<exists>u. refill pull t (\<lambda>_. UnexpectedEndOfStream) = Inr (Continue, u)" if "length (window t) < FRAMING_WINDOW_BYTES"
      using fill_ok [of t] that by (simp add: live_def)
    then show ?thesis using n None by (auto simp: headers_round_def not_le)
  next
    case (Some i)
    note p = windows_position_SomeD [OF _ Some, simplified]
    have "take i (live_bytes t) @ (CRLF @ CRLF) @ drop (i + 4) (live_bytes t) @ rest (source t) = header_block v @ (CRLF @ CRLF) @ r"
      using p(1) assms(2) by (simp add: unread_def) (metis append.assoc)
    then have "take i (live_bytes t) = header_block v"
      by (rule first_at_unique(1) [rotated -1]) (use assms(1) p(2) in \<open>simp_all add: header_wf_def\<close>)
    moreover have "header_value (header_block v) = Some v"
      using assms(1) by (simp add: header_value_def header_block_def header_wf_def)
    ultimately show ?thesis using n Some by (simp add: headers_round_def)
  qed
qed

lemma payload_progress:
  assumes "wf_tokenizer b t" "length b \<le> 70" "unread rest t = r @ delimiter b @ s"
  shows "\<exists>x. payload_round pull t = Inr x"
proof -
  have "\<exists>x. refill pull t e = Inr x" if "live t \<le> length (delimiter b) - 1" for e
    using fill_ok [of t e] that assms(2,3) by (auto simp: FRAMING_WINDOW_BYTES_def)
  then show ?thesis using assms(1)
    by (auto simp: payload_round_def wf_tokenizer_def Let_def split: option.split)
qed

lemma pair_progress:
  assumes "2 \<le> length (unread rest t)" "live t < 2"
  shows "\<exists>x. refill pull t e = Inr x"
  using fill_ok [of t e] assms by (auto simp: FRAMING_WINDOW_BYTES_def)

lemma round_progress:
  assumes wf: "wf_tokenizer b t" "length b \<le> 70" and v: "valid_rest b (stage t) p (unread rest t)"
  shows "(\<exists>x. event_round pull t = Inr x) \<or>
    FRAMING_WINDOW_BYTES \<le> length (window t) \<and> event_round pull t = Inl PartHeaderMalformed"
proof (cases "stage t")
  case Opening
  then obtain r where "unread rest t = dash b @ CRLF @ r"
    using v by (auto simp: valid_rest_def render_def neq_Nil_conv)
  then show ?thesis using opening_progress [OF wf] Opening by (simp add: event_round_def)
next
  case Headers
  then obtain q qs where "header_wf (fst q)" "unread rest t = header_block (fst q) @ (CRLF @ CRLF) @ snd q @ delimiter b @ parts_tail b qs"
    using v by (auto simp: valid_rest_def render_part_def part_wf_def)
  then show ?thesis using headers_progress Headers by (simp add: event_round_def)
next
  case Payloads
  then show ?thesis using v payload_progress [OF wf] by (auto simp: event_round_def valid_rest_def)
next
  case AfterBoundary
  then obtain qs r where "unread rest t = lit ''--'' @ r \<or> unread rest t = CRLF @ r"
    using v parts_tail_cases [of b] by (auto simp: valid_rest_def) metis
  moreover from this have "2 \<le> length (unread rest t)" by auto
  ultimately show ?thesis using AfterBoundary pair_progress [of t] live_prefix [of t "lit ''--''" r] live_prefix [of t CRLF r]
    by (cases "live t < 2") (auto simp: event_round_def after_boundary_round_def starts_with_def numeral_2_eq_2)
next
  case AfterClose
  then show ?thesis using v pair_progress [of t] live_prefix [of t CRLF "[]"]
    by (auto simp: event_round_def after_close_round_def valid_rest_def starts_with_def)
next
  case Done
  then have u: "unread rest t = []" using v by (simp add: valid_rest_def)
  then have z: "live t = 0" by (metis append_is_Nil_conv length_live_bytes list.size(3) unread_def)
  show ?thesis
  proof (cases "fill pull t")
    case (Inl e)
    then show ?thesis using pull_ok by (auto simp: fill_def Let_def split: if_splits sum.splits)
  next
    case (Inr x)
    then obtain n t' where n: "fill pull t = Inr (n, t')" by (cases x) auto
    have "live t' = 0" using fill_keeps(1) [OF n] u by (metis append_is_Nil_conv length_live_bytes list.size(3) unread_def)
    then have "n = 0" using fill_live(2) [OF n] by simp
    then show ?thesis using Done z n by (simp add: event_round_def done_round_def)
  qed
qed (simp_all add: event_round_def)

text \<open>The bytes loaded and to come; a refill drops consumed bytes and adds none.\<close>

lemma fill_loaded:
  assumes "fill pull t = Inr (n, u)"
  shows "length (window u) + length (rest (source u)) \<le> length (window t) + length (rest (source t))"
  using arg_cong [OF fill_keeps(1) [OF assms], of length] fill_live(4) [OF assms] by (simp add: unread_def live_def)

lemma round_loaded:
  assumes "event_round pull t = Inr (x, u)"
  shows "length (window u) + length (rest (source u)) \<le> length (window t) + length (rest (source t))"
  using assms
  by (auto simp: event_round_def round_defs Let_def result_simps fill_loaded split: Stage.splits if_splits option.splits)

lemma next_event_loaded:
  assumes "next_event pull t = Inr (x, u)"
  shows "length (window u) + length (rest (source u)) \<le> length (window t) + length (rest (source t))"
  using assms
proof (induction t rule: next_event_induct [where pull = pull])
  case (1 t)
  then show ?case using round_loaded [of t]
    by (subst (asm) (2) next_event.simps) (fastforce split: sum.splits round.splits intro: order_trans)
qed

lemma next_event_progress:
  assumes "wf_tokenizer b t" "length b \<le> 70" "valid_rest b (stage t) p (unread rest t)" "next_event pull t = Inl e"
  shows "e = PartHeaderMalformed \<and> FRAMING_WINDOW_BYTES \<le> length (window t) + length (rest (source t))"
  using assms(1,3,4)
proof (induction t rule: next_event_induct [where pull = pull])
  case (1 t)
  show ?case
  proof (cases "event_round pull t")
    case (Inl f)
    then show ?thesis using round_progress [OF "1.prems"(1) assms(2) "1.prems"(2)] "1.prems"(3)
      by (auto simp: next_event.simps [of pull t])
  next
    case (Inr x)
    then obtain u where loop: "event_round pull t = Inr (Continue, u)" "next_event pull u = Inl e"
      using "1.prems"(3) by (cases x; cases "fst x") (auto simp: next_event.simps [of pull t])
    have "wf_tokenizer b u \<and> valid_rest b (stage u) p (unread rest u)"
    proof (cases "\<exists>n. fill pull t = Inr (n, u) \<and> 0 < n")
      case True
      then show ?thesis using fill_keeps(1,2) [of t _ u] fill_live(1) [of pull t _ u] "1.prems"(1,2) by auto
    next
      case False
      then have c: "stage t = AfterBoundary" "begins_with (lit ''--'') (live_bytes t)" "u = consume (length (lit ''--'')) ClosingPart t"
        using event_round_Continue [OF loop(1)] by (auto simp: starts_with_def numeral_2_eq_2)
      note u = consume_bytes [OF "1.prems"(1) begins_withD [OF c(2)], where st = ClosingPart, folded c(3)]
      obtain qs where "lit ''--'' @ unread rest u = parts_tail b qs"
        using "1.prems"(2) c(1) u(1) [of rest] by (auto simp: valid_rest_def)
      then show ?thesis using u(2) c(3) CRLF_not_dashes by (cases qs) (auto simp: valid_rest_def)
    qed
    then show ?thesis using "1.IH" [OF loop(1) _ _ loop(2)] round_loaded [OF loop(1)] by simp
  qed
qed

lemma drain_progress:
  assumes "wf_tokenizer b t" "length b \<le> 70" "no_missed_delimiter b p rest t"
    "valid_rest b (stage t) p (unread rest t)" "drain fuel pull t = Some (Inl e)"
  shows "e = PartHeaderMalformed \<and> FRAMING_WINDOW_BYTES \<le> length (window t) + length (rest (source t))"
  using assms(1,3-5)
proof (induction fuel arbitrary: t p)
  case (Suc fuel)
  show ?case
  proof (cases "next_event pull t = Inl e")
    case True
    then show ?thesis using next_event_progress [OF Suc.prems(1) assms(2) Suc.prems(3)] by blast
  next
    case False
    then obtain ev t' where n: "next_event pull t = Inr (Some ev, t')" "drain fuel pull t' = Some (Inl e)"
      using Suc.prems(4) by (auto simp: map_sum_eq split: sum.splits option.splits)
    obtain bs p' where s: "framed_step b (stage t, p) ev bs (stage t', p')" "unread rest t = bs @ unread rest t'"
        "wf_tokenizer b t'" "no_missed_delimiter b p' rest t'"
      using next_event_sim [OF Suc.prems(1,2) n(1)] by blast
    have "valid_rest b (stage t') p' (unread rest t')"
      using valid_step [OF s(1), of "unread rest t'"] s(2,4) Suc.prems(3) by (simp add: no_missed_delimiter_def)
    then show ?thesis using Suc.IH [OF s(3,4) _ n(2)] next_event_loaded [OF n(1)] by simp
  qed
qed simp

end

section \<open>The byte slice\<close>

lemma slice_pull_contract:
  "slice_pull s n = Inr (bs, s') \<Longrightarrow> length bs \<le> n \<and> s = bs @ s'"
  "slice_pull s n = Inr ([], s') \<Longrightarrow> 0 < n \<Longrightarrow> s = []"
  "slice_pull s n \<noteq> Inl k"
  by (auto simp: slice_pull_def Let_def min_def split: if_splits)

interpretation slice: reliable_source slice_pull "\<lambda>s. s"
  by unfold_locales (simp_all add: slice_pull_contract)

lemma new_tokenizer:
  assumes "t = tokenizer_new \<lparr>framing_boundary = b\<rparr> body"
  shows "wf_tokenizer b t" "no_missed_delimiter b p (\<lambda>s. s) t" "stage t = Opening" "unread (\<lambda>s. s) t = body"
    "window t = []" "source t = body"
  using assms by (simp_all add: tokenizer_new_def wf_tokenizer_def no_missed_delimiter_def unread_def live_bytes_def
      dash_def delimiter_def Let_def)

definition read_parts :: "RequestFraming \<Rightarrow> u8 list \<Rightarrow> ('k FramingError + FramingEvent list) option" where
  "read_parts framing body = drain (2 * length body + 1) slice_pull (tokenizer_new framing body)"

lemma read_parts_total: "read_parts \<lparr>framing_boundary = b\<rparr> body \<noteq> None"
  unfolding read_parts_def
  by (rule slice.drain_total [OF new_tokenizer(1,2) [OF refl]]) (simp add: new_tokenizer [OF refl] events_left_def)

lemma read_parts_sound:
  assumes "read_parts \<lparr>framing_boundary = b\<rparr> body = Some (Inr evs)"
  shows "collect None evs \<noteq> [] \<and> list_all (part_wf b) (collect None evs) \<and> body = render b (collect None evs)"
proof -
  have "framed_trace b (Opening, []) evs body"
    using slice.drain_trace [OF new_tokenizer(1,2) [OF refl] assms [unfolded read_parts_def], where p = "[]"]
    by (simp add: new_tokenizer [OF refl])
  from framed_trace_parts [OF this] show ?thesis by (auto simp: trace_parts_def)
qed

lemma parts_tail_inj:
  assumes "list_all (part_wf b) qs" "list_all (part_wf b) rs" "parts_tail b qs = parts_tail b rs"
  shows "qs = rs"
  using assms
proof (induction qs arbitrary: rs)
  case Nil
  then show ?case using CRLF_not_dashes by (cases rs) auto
next
  case (Cons q qs)
  then obtain r rs' where r: "rs = r # rs'" using CRLF_not_dashes by (cases rs) auto
  have e: "header_block (fst q) @ (CRLF @ CRLF) @ snd q @ delimiter b @ parts_tail b qs =
      header_block (fst r) @ (CRLF @ CRLF) @ snd r @ delimiter b @ parts_tail b rs'"
    using Cons.prems(3) r by (simp add: render_part_def)
  have wf: "part_wf b q" "part_wf b r" using Cons.prems r by simp_all
  note h = first_at_unique [OF _ _ _ e]
  have "header_block (fst q) = header_block (fst r)"
    "snd q @ delimiter b @ parts_tail b qs = snd r @ delimiter b @ parts_tail b rs'"
    using h wf by (simp_all add: part_wf_def header_wf_def)
  moreover from first_at_unique [OF _ _ _ this(2)] wf
  have "snd q = snd r" "parts_tail b qs = parts_tail b rs'" by (simp_all add: part_wf_def)
  ultimately show ?case using Cons r by (auto simp: header_block_def prod_eq_iff)
qed

lemma read_parts_complete:
  assumes "list_all (part_wf b) qs" "qs \<noteq> []" "length b \<le> 70"
  shows "(\<exists>evs. read_parts \<lparr>framing_boundary = b\<rparr> (render b qs) = Some (Inr evs :: 'k FramingError + _) \<and> collect None evs = qs) \<or>
    read_parts \<lparr>framing_boundary = b\<rparr> (render b qs) = Some (Inl (PartHeaderMalformed :: 'k FramingError)) \<and>
    FRAMING_WINDOW_BYTES \<le> length (render b qs)"
proof -
  let ?t = "tokenizer_new \<lparr>framing_boundary = b\<rparr> (render b qs)"
  obtain res :: "'k FramingError + FramingEvent list" where res: "read_parts \<lparr>framing_boundary = b\<rparr> (render b qs) = Some res"
    using read_parts_total by blast
  show ?thesis
  proof (cases res)
    case (Inl e)
    have "valid_rest b (stage ?t) [] (unread (\<lambda>s. s) ?t)"
      using assms(1,2) by (auto simp: new_tokenizer [OF refl] valid_rest_def)
    then have "e = PartHeaderMalformed \<and> FRAMING_WINDOW_BYTES \<le> length (window ?t) + length (source ?t)"
      using slice.drain_progress [OF new_tokenizer(1) [OF refl] assms(3) new_tokenizer(2) [OF refl]] res Inl
      unfolding read_parts_def by blast
    then show ?thesis using res Inl by (simp add: new_tokenizer [OF refl])
  next
    case (Inr evs)
    then have "list_all (part_wf b) (collect None evs)" "render b qs = render b (collect None evs)"
      using read_parts_sound res by auto
    then have "collect None evs = qs" using parts_tail_inj assms(1) by (auto simp: render_def)
    then show ?thesis using res Inr by simp
  qed
qed

section \<open>Steps with enough bytes loaded\<close>

lemma next_event_yield: "event_round pull t = Inr (Yield ev, u) \<Longrightarrow> next_event pull t = Inr (ev, u)"
  "event_round pull t = Inl e \<Longrightarrow> next_event pull t = Inl e"
  "event_round pull t = Inr (Continue, u) \<Longrightarrow> next_event pull t = next_event pull u"
  by (simp_all add: next_event.simps [of pull t])

lemma loaded_opening:
  assumes "stage t = Opening" "wf_tokenizer b t" "live_bytes t = (dash b @ CRLF) @ r"
  shows "next_event pull t = Inr (Some PartStarted, consume (length (dash b @ CRLF)) Headers t)"
proof -
  have d: "dash_boundary t = dash b" using assms(2) by (simp add: wf_tokenizer_def)
  have "drop (pos t + length (dash b)) (window t) = drop (length (dash b)) (live_bytes t)"
    by (simp add: live_bytes_def add.commute del: delimiter_simps)
  then have m: "matches_at t (length (dash b)) CRLF" "starts_with t (dash b)"
    using assms(3) by (simp_all add: matches_at_def starts_with_def)
  have "live t = length (dash b) + 2 + length r" using arg_cong [OF assms(3), of length] by simp
  then show ?thesis using m by (intro next_event_yield) (simp add: event_round_def assms(1) opening_round_def d)
qed

lemma loaded_header:
  assumes "stage t = Headers" "header_wf v" "live_bytes t = (header_block v @ CRLF @ CRLF) @ r"
  shows "next_event pull t = Inr (Some (PartContentType v), consume (length (header_block v @ CRLF @ CRLF)) Payloads t)"
proof -
  have "\<not> starts_with t CRLF"
    using assms(3) begins_withD [of CRLF "live_bytes t"] CRLF_not_dashes(3) by (metis append.assoc starts_with_def)
  moreover have "windows_position (CRLF @ CRLF) (live_bytes t) = Some (length (header_block v))"
    using windows_position_first [of "CRLF @ CRLF" "header_block v" r] assms(2,3) by (simp add: header_wf_def)
  moreover have "header_value (header_block v) = Some v"
    using assms(2) by (simp add: header_value_def header_block_def header_wf_def)
  ultimately show ?thesis using assms(3)
    by (intro next_event_yield) (simp add: event_round_def assms(1) headers_round_def)
qed

lemma loaded_payload:
  assumes "stage t = Payloads" "wf_tokenizer b t" "first_at (delimiter b) p" "live_bytes t = (p @ delimiter b) @ r"
  shows "next_event pull t = Inr (Some (Payload p), consume (length (p @ delimiter b)) AfterBoundary t)"
proof -
  have d: "payload_delimiter t = delimiter b" using assms(2) by (simp add: wf_tokenizer_def)
  have "windows_position (delimiter b) (live_bytes t) = Some (length p)"
    using windows_position_first [of "delimiter b" p r] assms(3,4) by simp
  moreover have "live t \<noteq> 0" using arg_cong [OF assms(4), of length] by simp
  ultimately show ?thesis using assms(4)
    by (intro next_event_yield) (simp add: event_round_def assms(1) payload_round_def d)
qed

lemma loaded_next_part:
  assumes "stage t = AfterBoundary" "live_bytes t = CRLF @ r"
  shows "next_event pull t = Inr (Some PartEnded, consume (length CRLF) NextPartOpening t)"
proof -
  have "live t = 2 + length r" using arg_cong [OF assms(2), of length] by simp
  moreover have "\<not> begins_with (lit ''--'') (CRLF @ r)"
    using begins_withD [of "lit ''--''" "CRLF @ r"] CRLF_not_dashes by metis
  ultimately show ?thesis using assms
    by (intro next_event_yield) (simp add: event_round_def after_boundary_round_def starts_with_def)
qed

text \<open>The window test of the header stage reads the whole window, the consumed bytes included.\<close>

lemma full_window_header:
  assumes "stage t = Headers" "FRAMING_WINDOW_BYTES \<le> length (window t)" "\<not> sublist (CRLF @ CRLF) (live_bytes t)"
  shows "next_event pull t = Inl PartHeaderMalformed"
proof -
  have "windows_position (CRLF @ CRLF) (live_bytes t) = None" using assms(3) by (simp add: windows_position_None)
  then show ?thesis using assms(1,2) by (intro next_event_yield) (simp add: event_round_def headers_round_def)
qed

lemma first_pull:
  assumes "t = tokenizer_new \<lparr>framing_boundary = b\<rparr> body" "FRAMING_WINDOW_BYTES \<le> length body"
  shows "next_event (slice_pull :: (u8 list, 'k) pull) t =
    next_event slice_pull (t\<lparr>window := take FRAMING_WINDOW_BYTES body, source := drop FRAMING_WINDOW_BYTES body\<rparr>)"
proof (rule next_event_yield(3))
  have t: "stage t = Opening" "window t = []" "pos t = 0" "source t = body" "dash_boundary t = dash b"
    using assms(1) by (simp_all add: tokenizer_new_def dash_def Let_def)
  have w: "0 < FRAMING_WINDOW_BYTES" by (simp add: FRAMING_WINDOW_BYTES_def)
  have "fill (slice_pull :: (u8 list, 'k) pull) t = Inr (FRAMING_WINDOW_BYTES,
      t\<lparr>window := take FRAMING_WINDOW_BYTES body, source := drop FRAMING_WINDOW_BYTES body\<rparr>)"
    using w assms(2) by (simp add: fill_def t slice_pull_def Let_def min_def)
  then show "event_round (slice_pull :: (u8 list, 'k) pull) t = Inr (Continue,
      t\<lparr>window := take FRAMING_WINDOW_BYTES body, source := drop FRAMING_WINDOW_BYTES body\<rparr>)"
    using w by (simp add: event_round_def t opening_round_def live_def refill_def starts_with_def begins_with_def)
qed

lemma first_at_prefix:
  assumes "first_at d p" "k \<le> length p + length d - 1" "d \<noteq> []"
  shows "\<not> sublist d (take k (p @ d @ r))"
proof -
  have "p @ d @ r = (p @ butlast d) @ [last d] @ r" using assms(3) by simp
  moreover have "k \<le> length (p @ butlast d)" using assms(2,3) by (cases d) auto
  ultimately have "take k (p @ d @ r) = take k (p @ butlast d)" by (simp only: take_append) simp
  then have "sublist (take k (p @ d @ r)) (p @ butlast d)" by (simp only: sublist_take)
  then show ?thesis using assms(1) sublist_order.order_trans unfolding first_at_def by blast
qed

lemma loaded_part:
  assumes wf: "part_wf b q" and t: "wf_tokenizer b t" "stage t = Opening"
    and live: "live_bytes t = (dash b @ CRLF) @ render_part b q @ CRLF @ z"
  obtains u where "stage u = Headers" "window u = window t" "live_bytes u = z"
    "drain (Suc (Suc (Suc (Suc (Suc n))))) pull t = map_option (map_sum id
       (\<lambda>es. PartStarted # PartContentType (fst q) # Payload (snd q) # PartEnded # PartStarted # es)) (drain n pull u)"
proof -
  define t1 where "t1 = consume (length (dash b @ CRLF)) Headers t"
  note 1 = consume_bytes(2,3) [OF t(1) live, where st = Headers, folded t1_def]
  have b1: "live_bytes t1 = (header_block (fst q) @ CRLF @ CRLF) @ snd q @ delimiter b @ CRLF @ z"
    using 1(2) by (simp add: render_part_def)
  define t2 where "t2 = consume (length (header_block (fst q) @ CRLF @ CRLF)) Payloads t1"
  note 2 = consume_bytes(2,3) [OF 1(1) b1, where st = Payloads, folded t2_def]
  have b2: "live_bytes t2 = (snd q @ delimiter b) @ CRLF @ z" using 2(2) by simp
  define t3 where "t3 = consume (length (snd q @ delimiter b)) AfterBoundary t2"
  note 3 = consume_bytes(2,3) [OF 2(1) b2, where st = AfterBoundary, folded t3_def]
  define t4 where "t4 = consume (length CRLF) NextPartOpening t3"
  note 4 = consume_bytes(2,3) [OF 3, where st = NextPartOpening, folded t4_def]
  define t5 where "t5 = consume 0 Headers t4"
  have st: "stage t1 = Headers" "stage t2 = Payloads" "stage t3 = AfterBoundary" "stage t4 = NextPartOpening"
    "stage t5 = Headers" "window t5 = window t" "live_bytes t5 = z"
    using 4(2) by (simp_all add: t1_def t2_def t3_def t4_def t5_def live_bytes_def consume_def)
  have q: "header_wf (fst q)" "first_at (delimiter b) (snd q)" using wf by (simp_all add: part_wf_def)
  have e: "next_event pull t = Inr (Some PartStarted, t1)" unfolding t1_def by (rule loaded_opening [OF t(2,1) live])
  have e1: "next_event pull t1 = Inr (Some (PartContentType (fst q)), t2)"
    unfolding t2_def by (rule loaded_header [OF st(1) q(1) b1])
  have e2: "next_event pull t2 = Inr (Some (Payload (snd q)), t3)"
    unfolding t3_def by (rule loaded_payload [OF st(2) 2(1) q(2) b2])
  have e3: "next_event pull t3 = Inr (Some PartEnded, t4)" unfolding t4_def by (rule loaded_next_part [OF st(3) 3(2)])
  have e4: "next_event pull t4 = Inr (Some PartStarted, t5)"
    unfolding t5_def by (rule next_event_yield) (simp add: event_round_def st(4))
  show ?thesis
    by (rule that [OF st(5-7)]) (simp add: e e1 e2 e3 e4 option.map_comp comp_def sum.map_comp id_def)
qed

lemma straddling_header:
  assumes wf: "part_wf b q" "header_wf v"
    and body: "body = (dash b @ CRLF) @ render_part b q @ CRLF @ header_block v @ (CRLF @ CRLF) @ r"
    and low: "length ((dash b @ CRLF) @ render_part b q @ CRLF) \<le> FRAMING_WINDOW_BYTES"
    and high: "FRAMING_WINDOW_BYTES < length ((dash b @ CRLF) @ render_part b q @ CRLF @ header_block v @ CRLF @ CRLF)"
  shows "read_parts \<lparr>framing_boundary = b\<rparr> body = Some (Inl (PartHeaderMalformed :: 'k FramingError))"
proof -
  let ?pull = "slice_pull :: (u8 list, 'k) pull"
  define k where "k = FRAMING_WINDOW_BYTES - length ((dash b @ CRLF) @ render_part b q @ CRLF)"
  define z where "z = take k (header_block v @ (CRLF @ CRLF) @ r)"
  define t where "t = tokenizer_new \<lparr>framing_boundary = b\<rparr> body"
  define t0 where "t0 = t\<lparr>window := take FRAMING_WINDOW_BYTES body, source := drop FRAMING_WINDOW_BYTES body\<rparr>"
  have W: "FRAMING_WINDOW_BYTES = length ((dash b @ CRLF) @ render_part b q @ CRLF) + k" using low by (simp add: k_def)
  have w: "take FRAMING_WINDOW_BYTES body = (dash b @ CRLF) @ render_part b q @ CRLF @ z"
    unfolding body W z_def by simp
  have full: "FRAMING_WINDOW_BYTES \<le> length body" using high body by simp
  have "pos t = 0" "stage t = Opening" by (simp_all add: t_def tokenizer_new_def Let_def)
  moreover have "length (take FRAMING_WINDOW_BYTES body) \<le> FRAMING_WINDOW_BYTES" by simp
  ultimately have 0: "wf_tokenizer b t0" "stage t0 = Opening"
      "live_bytes t0 = (dash b @ CRLF) @ render_part b q @ CRLF @ z"
    using new_tokenizer(1) [OF t_def] w by (simp_all add: t0_def live_bytes_def wf_tokenizer_def)
  have "6 \<le> 2 * length body + 1" using full by (simp add: FRAMING_WINDOW_BYTES_def)
  then obtain m where "2 * length body + 1 = 6 + m" using le_Suc_ex by blast
  then have m: "2 * length body + 1 = Suc (Suc (Suc (Suc (Suc (Suc m)))))" by simp
  obtain u where u: "stage u = Headers" "window u = window t0" "live_bytes u = z"
      "drain (2 * length body + 1) ?pull t0 = map_option (map_sum id
       (\<lambda>es. PartStarted # PartContentType (fst q) # Payload (snd q) # PartEnded # PartStarted # es)) (drain (Suc m) ?pull u)"
    unfolding m by (rule loaded_part [OF wf(1) 0])
  have "k \<le> length (header_block v) + length (CRLF @ CRLF) - 1" using W high by simp
  then have "\<not> sublist (CRLF @ CRLF) (live_bytes u)"
    unfolding u(3) z_def using wf(2) by (intro first_at_prefix) (simp_all add: header_wf_def)
  then have "next_event ?pull u = Inl PartHeaderMalformed"
    using full by (intro full_window_header [OF u(1)]) (simp_all add: u(2) t0_def)
  then have "drain (Suc m) ?pull u = Some (Inl PartHeaderMalformed)" by simp
  moreover have "drain (2 * length body + 1) ?pull t = drain (2 * length body + 1) ?pull t0"
    unfolding m drain.simps(2) first_pull [OF t_def full, folded t0_def, where ?'k = 'k] by (rule refl)
  ultimately have "drain (2 * length body + 1) ?pull t = Some (Inl PartHeaderMalformed)"
    unfolding u(4) by (simp only: option.map map_sum.simps id_apply)
  then show ?thesis by (simp only: read_parts_def t_def)
qed

section \<open>The window\<close>

definition window_bounded :: "'s FramingTokenizer \<Rightarrow> bool" where
  "window_bounded t \<longleftrightarrow> pos t \<le> length (window t) \<and> length (window t) \<le> FRAMING_WINDOW_BYTES"

lemma window_bounded_new: "window_bounded (tokenizer_new framing s)"
  by (simp add: window_bounded_def tokenizer_new_def Let_def)

lemma begins_with_length: "begins_with p xs \<Longrightarrow> length p \<le> length xs"
  by (metis begins_with_prefix prefix_length_le)

lemma round_bounded:
  assumes "window_bounded t" "event_round pull t = Inr (x, u)"
  shows "window_bounded u \<and> (\<forall>bs. x = Yield (Some (Payload bs)) \<longrightarrow> length bs \<le> FRAMING_WINDOW_BYTES)"
proof -
  have c: "n \<le> live t \<Longrightarrow> window_bounded (consume n st t)" for n st
    using assms(1) by (auto simp: window_bounded_def consume_def live_def)
  have f: "fill pull t = Inr (n, u) \<Longrightarrow> window_bounded u" for n
    using fill_live(2-4) [of pull t n u] assms(1) by (auto simp: window_bounded_def live_def)
  have l: "live t \<le> FRAMING_WINDOW_BYTES" using assms(1) by (auto simp: window_bounded_def live_def)
  have p: "windows_position d (live_bytes t) = Some i \<Longrightarrow> i + length d \<le> live t" if "d \<noteq> []" for d i
    using windows_position_SomeD(3) [OF that, of "live_bytes t" i] by simp
  have q: "windows_position d (live_bytes t) = Some i \<Longrightarrow> i + length d \<le> live t" for d i
    using p [of d i] by (cases "d = []") (cases "live_bytes t"; auto simp: begins_with_def)+
  have h: "windows_position (CRLF @ CRLF) (live_bytes t) = Some i \<Longrightarrow> i + 4 \<le> live t" for i
    using q [of "CRLF @ CRLF" i] by simp
  show ?thesis using assms(2) l q h
    by (auto simp: event_round_def round_defs Let_def result_simps f intro!: c dest: q h
        split: Stage.splits if_splits option.splits)
qed

lemma next_event_bounded:
  assumes "window_bounded t" "next_event pull t = Inr (ev, u)"
  shows "window_bounded u \<and> (\<forall>bs. ev = Some (Payload bs) \<longrightarrow> length bs \<le> FRAMING_WINDOW_BYTES)"
  using assms
proof (induction t rule: next_event_induct [where pull = pull])
  case (1 t)
  from "1.prems"(2) consider (yield) "event_round pull t = Inr (Yield ev, u)"
    | (loop) u' where "event_round pull t = Inr (Continue, u')" "next_event pull u' = Inr (ev, u)"
    by (subst (asm) next_event.simps) (auto split: sum.splits round.splits)
  then show ?case using round_bounded [OF "1.prems"(1)] "1.IH" by cases blast+
qed

section \<open>Properties\<close>

lemma first_at_last: "d \<noteq> [] \<Longrightarrow> last d \<notin> set p \<Longrightarrow> last d \<notin> set (butlast d) \<Longrightarrow> first_at d p"
  using set_mono_sublist [of d "p @ butlast d"] last_in_set [of d] unfolding first_at_def set_append by blast

text \<open>Concrete parts, for the witnesses.\<close>

lemma header_wf_a: "header_wf (lit ''a'')"
  by (simp add: header_wf_def first_at_def header_block_def CONTENT_TYPE_HEADER_PREFIX_def CRLF_def lit_Cons
      sublist_Cons_right prefix_Cons ascii_valid ascii_def)

lemma part_wf_a: "ch CHR ''b'' \<notin> set p \<Longrightarrow> part_wf (lit ''b'') (lit ''a'', p)"
  unfolding part_wf_def using header_wf_a
  by (auto intro!: first_at_last simp: delimiter_def dash_def CRLF_def lit_Cons of_char_u8_inject)

lemma opening_example:
  "next_event (slice_pull :: (u8 list, nat) pull)
     (tokenizer_new \<lparr>framing_boundary = lit ''b''\<rparr> (dash (lit ''b'') @ CRLF)) =
   Inr (Some PartStarted,
     consume 5 Headers ((tokenizer_new \<lparr>framing_boundary = lit ''b''\<rparr> [])\<lparr>window := dash (lit ''b'') @ CRLF\<rparr>))"
proof -
  let ?t = "tokenizer_new \<lparr>framing_boundary = lit ''b''\<rparr> (dash (lit ''b'') @ CRLF)"
  let ?u = "(tokenizer_new \<lparr>framing_boundary = lit ''b''\<rparr> [])\<lparr>window := dash (lit ''b'') @ CRLF\<rparr>"
  have "event_round (slice_pull :: (u8 list, nat) pull) ?t = Inr (Continue, ?u)"
    by (simp add: tokenizer_new_def Let_def event_round_def opening_round_def refill_def fill_def
        slice_pull_def live_def starts_with_def begins_with_def FRAMING_WINDOW_BYTES_def)
  moreover have "next_event (slice_pull :: (u8 list, nat) pull) ?u =
      Inr (Some PartStarted, consume (length (dash (lit ''b'') @ CRLF)) Headers ?u)"
    by (rule loaded_opening [where r = "[]"])
      (simp_all add: tokenizer_new_def Let_def live_bytes_def wf_tokenizer_def dash_def delimiter_def FRAMING_WINDOW_BYTES_def)
  ultimately show ?thesis by (simp add: next_event_yield(3) eval_nat_numeral)
qed

text \<open>
  C13. For a body shorter than the window, reading the events to the end succeeds with the parts \<open>qs\<close>
  exactly when the body is the pinned framing of \<open>qs\<close>: at least one part, each with one nonempty
  UTF-8 content type that contains no blank line and a payload in which the delimiter does not
  occur. In particular the framing is unambiguous, and every other body is refused.
\<close>

theorem framing_reads_exactly_the_parts:
  assumes "length b \<le> 70" "length body < FRAMING_WINDOW_BYTES"
  shows "(\<exists>evs. read_parts \<lparr>framing_boundary = b\<rparr> body = Some (Inr evs :: 'k FramingError + _) \<and> collect None evs = qs) \<longleftrightarrow>
    qs \<noteq> [] \<and> list_all (part_wf b) qs \<and> body = render b qs"
  using read_parts_sound [of b body] read_parts_complete [OF _ _ assms(1), of qs] assms(2) by auto

theorem framing_reads_exactly_the_parts_witness:
  "\<exists>evs. read_parts \<lparr>framing_boundary = lit ''b''\<rparr> (render (lit ''b'') [(lit ''a'', lit ''xy''), (lit ''a'', [])]) =
     Some (Inr evs :: nat FramingError + _) \<and> collect None evs = [(lit ''a'', lit ''xy''), (lit ''a'', [])]"
proof -
  have "length (render (lit ''b'') [(lit ''a'', lit ''xy''), (lit ''a'', [])]) < FRAMING_WINDOW_BYTES"
    by (simp add: render_def render_part_def header_block_def CONTENT_TYPE_HEADER_PREFIX_def FRAMING_WINDOW_BYTES_def)
  moreover have "part_wf (lit ''b'') (lit ''a'', lit ''xy'')" "part_wf (lit ''b'') (lit ''a'', [])"
    by (rule part_wf_a, simp add: lit_Cons)+
  ultimately show ?thesis by (subst framing_reads_exactly_the_parts) simp_all
qed

text \<open>
  C14. Bodies of every size: a body that the tokenizer reads to the end is the framing of the parts its
  events carry, however the window splits the payloads into runs; and a well-framed body is read to
  its parts unless it is refused with \<open>PartHeaderMalformed\<close>, which takes at least a window of bytes.
\<close>

theorem framing_sound_at_every_size:
  assumes "length b \<le> 70"
  shows "(read_parts \<lparr>framing_boundary = b\<rparr> body = Some (Inr evs :: 'k FramingError + _) \<longrightarrow>
      collect None evs \<noteq> [] \<and> list_all (part_wf b) (collect None evs) \<and> body = render b (collect None evs)) \<and>
    (qs \<noteq> [] \<and> list_all (part_wf b) qs \<longrightarrow>
      (\<exists>es. read_parts \<lparr>framing_boundary = b\<rparr> (render b qs) = Some (Inr es :: 'k FramingError + _) \<and> collect None es = qs) \<or>
      read_parts \<lparr>framing_boundary = b\<rparr> (render b qs) = Some (Inl (PartHeaderMalformed :: 'k FramingError)) \<and>
      FRAMING_WINDOW_BYTES \<le> length (render b qs))"
  using read_parts_sound [of b body evs] read_parts_complete [OF _ _ assms, of qs] by blast

theorem framing_sound_at_every_size_witness:
  "\<exists>es. read_parts \<lparr>framing_boundary = lit ''b''\<rparr> (render (lit ''b'') [(lit ''a'', [])]) = Some (Inr es :: nat FramingError + _) \<and>
     collect None es = [(lit ''a'', [])]"
proof -
  have "length (render (lit ''b'') [(lit ''a'', [])]) < FRAMING_WINDOW_BYTES"
    by (simp add: render_def render_part_def header_block_def CONTENT_TYPE_HEADER_PREFIX_def FRAMING_WINDOW_BYTES_def)
  moreover have "part_wf (lit ''b'') (lit ''a'', [])" by (rule part_wf_a) simp
  ultimately show ?thesis
    using framing_sound_at_every_size [of "lit ''b''" undefined undefined "[(lit ''a'', [])]", where ?'k = nat] by auto
qed

text \<open>
  C15. Every event of the tokenizer is one transition of the pinned framing, labelled with exactly the
  bytes it consumes, and the tokenizer stays related to the abstract state.
\<close>

theorem tokenizer_refines_framing:
  assumes "wf_tokenizer b t" "no_missed_delimiter b p (\<lambda>s. s) t" "next_event slice_pull t = Inr (Some ev, t')"
  shows "\<exists>bs p'. framed_step b (stage t, p) ev bs (stage t', p') \<and>
    unread (\<lambda>s. s) t = bs @ unread (\<lambda>s. s) t' \<and> wf_tokenizer b t' \<and> no_missed_delimiter b p' (\<lambda>s. s) t'"
  by (rule slice.next_event_sim [OF assms])

theorem tokenizer_refines_framing_witness:
  "\<exists>bs p'. framed_step (lit ''b'') (Opening, []) PartStarted bs (Headers, p') \<and>
     unread (\<lambda>s. s) (tokenizer_new \<lparr>framing_boundary = lit ''b''\<rparr> (dash (lit ''b'') @ CRLF)) = bs"
  using tokenizer_refines_framing [OF new_tokenizer(1,2) [OF refl] opening_example, where p = "[]"]
  by (auto simp: new_tokenizer [OF refl] unread_def live_bytes_def consume_def tokenizer_new_def Let_def)

text \<open>
  C26. Reading a body ends: at most twice the length of the body plus one calls of \<open>next_event\<close> reach
  the end of the stream or an error, for every boundary and every body.
\<close>

theorem reading_terminates: "read_parts \<lparr>framing_boundary = b\<rparr> body \<noteq> None"
  by (rule read_parts_total)

text \<open>
  C27. For every byte source, even one that breaks its contract: the window never holds more than
  \<open>FRAMING_WINDOW_BYTES\<close>, the position stays inside it, and a payload run is at most a window long.
\<close>

theorem window_stays_bounded:
  assumes "window_bounded t" "next_event pull t = Inr (ev, u)"
  shows "window_len u \<le> FRAMING_WINDOW_BYTES \<and> window_bounded u \<and>
    (\<forall>bs. ev = Some (Payload bs) \<longrightarrow> length bs \<le> FRAMING_WINDOW_BYTES)"
  using next_event_bounded [OF assms] by (simp add: window_bounded_def window_len_def)

theorem window_stays_bounded_witness:
  "window_len (consume 5 Headers ((tokenizer_new \<lparr>framing_boundary = lit ''b''\<rparr> ([] :: u8 list))\<lparr>window := dash (lit ''b'') @ CRLF\<rparr>))
     \<le> FRAMING_WINDOW_BYTES"
  by (rule conjunct1 [OF window_stays_bounded [OF window_bounded_new opening_example]])

text \<open>
  C28. The header stage compares the whole window, consumed bytes included, with the window size: a
  well-framed body whose second part header, however short, straddles the first window is refused
  with \<open>PartHeaderMalformed\<close>, although the header would fit once the window is compacted.
\<close>

theorem straddling_header_refused:
  assumes "part_wf b q" "part_wf b r" "list_all (part_wf b) qs"
    "length (dash b @ CRLF @ render_part b q @ CRLF) \<le> FRAMING_WINDOW_BYTES"
    "FRAMING_WINDOW_BYTES < length (dash b @ CRLF @ render_part b q @ CRLF @ header_block (fst r) @ CRLF @ CRLF)"
  shows "read_parts \<lparr>framing_boundary = b\<rparr> (render b (q # r # qs)) = Some (Inl PartHeaderMalformed)"
  using assms
  by (intro straddling_header [of b q "fst r" _ "snd r @ delimiter b @ parts_tail b qs"])
    (simp_all add: part_wf_def render_def render_part_def)

theorem straddling_header_refused_witness:
  "read_parts \<lparr>framing_boundary = lit ''b''\<rparr>
     (render (lit ''b'') [(lit ''a'', replicate 8155 0x78), (lit ''a'', [])]) = Some (Inl (PartHeaderMalformed :: nat FramingError))"
proof (rule straddling_header_refused)
  show "part_wf (lit ''b'') (lit ''a'', replicate 8155 0x78)" by (rule part_wf_a) simp
  show "part_wf (lit ''b'') (lit ''a'', [])" by (rule part_wf_a) simp
qed (simp_all add: render_part_def header_block_def CONTENT_TYPE_HEADER_PREFIX_def FRAMING_WINDOW_BYTES_def)

text \<open>
  C29. The request Content-Type is classified exactly: accepted, with its boundary, when it is the
  pinned prefix followed by one to seventy boundary characters; otherwise \<open>BoundaryInvalid\<close> when the
  media type is \<^verbatim>\<open>multipart/related\<close> followed by nothing or a semicolon, and \<open>NotMultipartRelated\<close> when
  it is anything else. Every framing error has the wire code \<^verbatim>\<open>request.framing_invalid\<close>.
\<close>

theorem content_type_classified:
  "validate_content_type header =
     (if \<exists>b. header = lit ''multipart/related; boundary='' @ b \<and> 1 \<le> length b \<and> length b \<le> 70 \<and> list_all boundary_char b
      then Inr \<lparr>framing_boundary = drop 28 header\<rparr>
      else if header = lit ''multipart/related'' \<or> (\<exists>r. header = lit ''multipart/related;'' @ r) then Inl BoundaryInvalid
      else Inl NotMultipartRelated) \<and>
   framing_error_code (e :: 'k FramingError) = Some (lit ''request.framing_invalid'')"
proof
  let ?p = "lit ''multipart/related; boundary=''"
  have b: "begins_with (lit ''multipart/related'') header \<and>
      (length header \<le> length (lit ''multipart/related'') \<or> header ! length (lit ''multipart/related'') = ch CHR '';'') \<longleftrightarrow>
    header = lit ''multipart/related'' \<or> (\<exists>r. header = lit ''multipart/related;'' @ r)" (is "?l \<longleftrightarrow> ?r")
  proof
    assume l: ?l
    then obtain r where r: "header = lit ''multipart/related'' @ r" by (metis begins_withD)
    then show ?r using l by (cases r) (simp_all add: lit_def)
  qed (auto simp: begins_with_def lit_def)
  have p: "length ?p = 28" by simp
  have g: "content_type_grammar header \<longleftrightarrow>
      (\<exists>b. header = ?p @ b \<and> 1 \<le> length b \<and> length b \<le> 70 \<and> list_all boundary_char b)"
    by (simp only: content_type_language CONTENT_TYPE_PREFIX_def)
  have c: "error_code_grammar (lit ''request.framing_invalid'')" by code_simp
  show "validate_content_type header = (if \<exists>b. header = ?p @ b \<and> 1 \<le> length b \<and> length b \<le> 70 \<and> list_all boundary_char b
      then Inr \<lparr>framing_boundary = drop 28 header\<rparr>
      else if header = lit ''multipart/related'' \<or> (\<exists>r. header = lit ''multipart/related;'' @ r) then Inl BoundaryInvalid
      else Inl NotMultipartRelated)"
    unfolding validate_content_type_def Let_def b p ContentType_parse_def text_newtype_parse_def g [symmetric] by simp
  show "framing_error_code e = Some (lit ''request.framing_invalid'')"
    by (simp add: framing_error_code_def ErrorCode_parse_def text_newtype_parse_def c)
qed

end
