(* ===== verification/Pressure.thy ===== *)
theory Pressure
  imports Json Checked_Arith
begin

text \<open>
  The spool pressure gate (\<^verbatim>\<open>archivist-client-core/src/spool/pressure.rs\<close>): the limits, the pause with
  its hysteresis, the degraded reasons and the status document. Byte counts are \<^verbatim>\<open>u64\<close> values held
  as \<open>nat\<close>. The two probes of \<^verbatim>\<open>evaluate_spool\<close> and the configuration values of \<^verbatim>\<open>from_config\<close> are
  arguments.
\<close>

section \<open>Limits, reasons and status\<close>

record PressureLimits =
  spool_cap_bytes :: nat
  free_floor_bytes :: nat
  resume_percent :: nat

definition limits_new :: "nat \<Rightarrow> nat \<Rightarrow> nat \<Rightarrow> PressureLimits" where
  "limits_new cap floor percent = \<lparr>spool_cap_bytes = cap, free_floor_bytes = floor, resume_percent = percent\<rparr>"

text \<open>\<^verbatim>\<open>u64::try_from(i64)\<close> with \<^verbatim>\<open>expect\<close>: a negative value panics (\<open>None\<close>).\<close>

definition u64_try_from :: "int \<Rightarrow> nat option" where
  "u64_try_from n = (if n \<ge> 0 then Some (nat n) else None)"

definition limits_from_config :: "int \<Rightarrow> int \<Rightarrow> int \<Rightarrow> PressureLimits option" where
  "limits_from_config max_bytes floor percent =
     Option.bind (u64_try_from max_bytes) (\<lambda>cap.
     Option.bind (u64_try_from floor) (\<lambda>floor.
     Option.bind (u64_try_from percent) (\<lambda>percent.
       Some \<lparr>spool_cap_bytes = cap, free_floor_bytes = floor, resume_percent = percent\<rparr>)))"

definition resume_threshold_bytes :: "PressureLimits \<Rightarrow> nat" where
  "resume_threshold_bytes self = saturating_mul (spool_cap_bytes self) (resume_percent self) div 100"

record PressureReasons =
  spool_cap :: bool
  free_floor :: bool
  draining :: bool

definition reasons_none :: PressureReasons where
  "reasons_none = \<lparr>spool_cap = False, free_floor = False, draining = False\<rparr>"

definition reasons_is_degraded :: "PressureReasons \<Rightarrow> bool" where
  "reasons_is_degraded self \<longleftrightarrow> spool_cap self \<or> free_floor self \<or> draining self"

definition reasons_tokens :: "PressureReasons \<Rightarrow> str list" where
  "reasons_tokens self =
     (if spool_cap self then [lit ''spool_cap''] else []) @
     (if free_floor self then [lit ''free_floor''] else []) @
     (if draining self then [lit ''draining''] else [])"

fun join_phrases :: "bool \<Rightarrow> (bool \<times> str) list \<Rightarrow> str" where
  "join_phrases first [] = []"
| "join_phrases first ((live, phrase) # rest) =
     (if live then (if first then [] else lit ''; '') @ phrase @ join_phrases False rest
      else join_phrases first rest)"

definition reasons_display :: "PressureReasons \<Rightarrow> str" where
  "reasons_display self =
     (if \<not> reasons_is_degraded self then lit ''no degraded condition''
      else join_phrases True
        [(spool_cap self, lit ''spool at the high-water cap''),
         (free_floor self, lit ''filesystem free space at or below the floor''),
         (draining self, lit ''spool draining toward the resume point'')])"

record PressureStatus =
  status_paused :: bool
  status_reasons :: PressureReasons
  spool_bytes :: nat
  free_bytes :: nat
  status_limits :: PressureLimits

definition admits_materialization :: "PressureStatus \<Rightarrow> bool" where
  "admits_materialization self \<longleftrightarrow> \<not> status_paused self"

definition status_is_degraded :: "PressureStatus \<Rightarrow> bool" where
  "status_is_degraded self = reasons_is_degraded (status_reasons self)"

definition status_display :: "PressureStatus \<Rightarrow> str" where
  "status_display self = (if status_paused self then lit ''materialization paused: '' @ reasons_display (status_reasons self)
     else lit ''materialization admitted'')"

definition bounded_i64 :: "nat \<Rightarrow> int" where
  "bounded_i64 v = (if int v < 2 ^ 63 then int v else 2 ^ 63 - 1)"

definition status_fields :: "PressureStatus \<Rightarrow> (string \<times> Value) list" where
  "status_fields self =
     [(''admits_materialization'', Bool (admits_materialization self)), (''degraded'', Bool (status_is_degraded self)),
      (''reasons'', Array (map Text (reasons_tokens (status_reasons self)))),
      (''spool_bytes'', IntV (bounded_i64 (spool_bytes self))), (''free_bytes'', IntV (bounded_i64 (free_bytes self))),
      (''spool_cap_bytes'', IntV (bounded_i64 (spool_cap_bytes (status_limits self)))),
      (''free_floor_bytes'', IntV (bounded_i64 (free_floor_bytes (status_limits self)))),
      (''resume_threshold_bytes'', IntV (bounded_i64 (resume_threshold_bytes (status_limits self))))]"

definition status_to_json :: "PressureStatus \<Rightarrow> Value" where
  "status_to_json self =
     Object (fold (\<lambda>(name, v) object. obj_set object (lit name) v) (status_fields self) [])"

text \<open>The document holds exactly the eight fields, and it is a well-formed JSON value.\<close>

lemma status_fields_ok: "\<forall>(name, v) \<in> set (map (\<lambda>(name, v). (lit name, v)) (status_fields self)). utf8_valid name"
  by (simp add: status_fields_def ascii_valid ascii_lit)

lemma status_document:
  assumes "utf8_valid name"
  shows "\<exists>object. status_to_json self = Object object \<and> sorted_members object \<and>
    obj_get object name = map_of (map (\<lambda>(name, v). (lit name, v)) (status_fields self)) name"
proof -
  let ?fs = "map (\<lambda>(name, v). (lit name, v)) (status_fields self)"
  have b: "status_to_json self = Object (members.built ?fs)"
    by (simp add: status_to_json_def members.built_def fold_map comp_def case_prod_unfold)
  have "map_of (rev ?fs) = map_of ?fs"
    by (rule map_of_inject_set [THEN iffD2], simp add: status_fields_def, simp add: status_fields_def, simp only: set_rev)
  then show ?thesis using b members.lookup_built [OF status_fields_ok assms] by auto
qed

section \<open>The gate\<close>

record PressureGate =
  gate_limits :: PressureLimits
  paused :: bool

definition gate_new :: "PressureLimits \<Rightarrow> PressureGate" where
  "gate_new limits = \<lparr>gate_limits = limits, paused = False\<rparr>"

definition evaluate :: "PressureGate \<Rightarrow> nat \<Rightarrow> nat \<Rightarrow> PressureStatus \<times> PressureGate" where
  "evaluate self spool free =
     (let cap_live = spool \<ge> spool_cap_bytes (gate_limits self);
          floor_live = free \<le> free_floor_bytes (gate_limits self);
          self =
            (if paused self then
               if spool < resume_threshold_bytes (gate_limits self) \<and> \<not> floor_live
               then self\<lparr>paused := False\<rparr> else self
             else if cap_live \<or> floor_live then self\<lparr>paused := True\<rparr> else self);
          reasons =
            (if \<not> paused self then reasons_none
             else if cap_live \<or> floor_live
               then \<lparr>spool_cap = cap_live, free_floor = floor_live, draining = False\<rparr>
             else reasons_none\<lparr>draining := True\<rparr>)
      in (\<lparr>status_paused = paused self, status_reasons = reasons, spool_bytes = spool, free_bytes = free,
           status_limits = gate_limits self\<rparr>, self))"

definition evaluate_spool :: "PressureGate \<Rightarrow> 'e + nat \<Rightarrow> 'e + nat \<Rightarrow> ('e + PressureStatus) \<times> PressureGate" where
  "evaluate_spool self usage free = (case usage of
     Inl e \<Rightarrow> (Inl e, self)
   | Inr spool \<Rightarrow> (case free of
       Inl e \<Rightarrow> (Inl e, self)
     | Inr free \<Rightarrow> (case evaluate self spool free of (status, self) \<Rightarrow> (Inr status, self))))"

text \<open>A history of measurements: the gate starts open and is evaluated on each pair in turn.\<close>

inductive gate_run :: "PressureLimits \<Rightarrow> (nat \<times> nat) list \<Rightarrow> PressureGate \<Rightarrow> bool" for limits where
  run_start: "gate_run limits [] (gate_new limits)"
| run_step: "gate_run limits ms g \<Longrightarrow> gate_run limits (ms @ [(spool, free)]) (snd (evaluate g spool free))"

lemma gate_run_limits: "gate_run limits ms g \<Longrightarrow> gate_limits g = limits"
  by (induction rule: gate_run.induct) (auto simp: gate_new_def evaluate_def Let_def)

lemma resume_below_cap: "resume_percent limits \<le> 100 \<Longrightarrow> resume_threshold_bytes limits \<le> spool_cap_bytes limits"
proof -
  assume p: "resume_percent limits \<le> 100"
  have "saturating_mul (spool_cap_bytes limits) (resume_percent limits) \<le> spool_cap_bytes limits * 100"
    using p by (simp add: saturating_mul_def le_trans [OF min.cobounded1] mult_le_mono2)
  then have "saturating_mul (spool_cap_bytes limits) (resume_percent limits) div 100 \<le> spool_cap_bytes limits * 100 div 100"
    by (rule div_le_mono)
  then show ?thesis by (simp add: resume_threshold_bytes_def)
qed

text \<open>
  The hysteresis as a specification over the history: the gate is paused exactly when some
  measurement was at the cap or at the floor and every one since was above the resume point or
  at the floor.
\<close>

definition breach :: "PressureLimits \<Rightarrow> nat \<times> nat \<Rightarrow> bool" where
  "breach limits m \<longleftrightarrow> fst m \<ge> spool_cap_bytes limits \<or> snd m \<le> free_floor_bytes limits"

definition holds_pause :: "PressureLimits \<Rightarrow> nat \<times> nat \<Rightarrow> bool" where
  "holds_pause limits m \<longleftrightarrow> fst m \<ge> resume_threshold_bytes limits \<or> snd m \<le> free_floor_bytes limits"

lemma evaluate_paused:
  "paused (snd (evaluate g spool free)) \<longleftrightarrow>
     (if paused g then holds_pause (gate_limits g) (spool, free) else breach (gate_limits g) (spool, free))"
  by (auto simp: evaluate_def Let_def holds_pause_def breach_def)

lemma breach_holds: "resume_percent limits \<le> 100 \<Longrightarrow> breach limits m \<Longrightarrow> holds_pause limits m"
  using resume_below_cap by (fastforce simp: breach_def holds_pause_def)

lemma gate_run_paused:
  assumes "gate_run limits ms g" "resume_percent limits \<le> 100"
  shows "paused g \<longleftrightarrow> (\<exists>as m bs. ms = as @ m # bs \<and> breach limits m \<and> list_all (holds_pause limits) bs)"
  using assms(1)
proof (induction)
  case run_start
  then show ?case by (simp add: gate_new_def)
next
  case (run_step ms g spool free)
  let ?m = "(spool, free)"
  note l = gate_run_limits [OF run_step.hyps]
  show ?case (is "?l \<longleftrightarrow> ?r")
  proof
    assume ?l
    then consider "paused g" "holds_pause limits ?m" | "breach limits ?m"
      using l by (auto simp: evaluate_paused split: if_splits)
    then show ?r
    proof cases
      case 1
      then obtain as m bs where "ms = as @ m # bs" "breach limits m" "list_all (holds_pause limits) bs"
        using run_step.IH by blast
      then have "ms @ [?m] = as @ m # (bs @ [?m])" "breach limits m" "list_all (holds_pause limits) (bs @ [?m])"
        using 1(2) by simp_all
      then show ?thesis by blast
    next
      case 2
      then have "ms @ [?m] = ms @ ?m # []" "breach limits ?m" "list_all (holds_pause limits) []" by simp_all
      then show ?thesis by blast
    qed
  next
    assume ?r
    then obtain as m bs where r: "ms @ [?m] = as @ m # bs" "breach limits m" "list_all (holds_pause limits) bs" by blast
    show ?l
    proof (cases bs rule: rev_cases)
      case Nil
      then have "breach limits ?m" using r by simp
      then show ?thesis using l breach_holds [OF assms(2)] by (simp add: evaluate_paused)
    next
      case (snoc cs c)
      then have c: "ms = as @ m # cs" "holds_pause limits ?m" "list_all (holds_pause limits) cs" using r by auto
      then have "paused g" using run_step.IH r(2) by blast
      then show ?thesis using l c(2) by (simp add: evaluate_paused)
    qed
  qed
qed

section \<open>Properties\<close>

lemma evaluate_reasons:
  "reasons_is_degraded (status_reasons (fst (evaluate g spool free))) \<longleftrightarrow> paused (snd (evaluate g spool free))"
  "status_paused (fst (evaluate g spool free)) = paused (snd (evaluate g spool free))"
  by (auto simp: evaluate_def Let_def reasons_none_def reasons_is_degraded_def)

text \<open>
  C25. With a resume point of at most the cap, the pause is a function of the history of
  measurements: the gate is paused exactly when some measurement reached the cap or the floor and
  every later one was at or above the resume point or at the floor. So materialization is admitted
  only on a measurement below the cap and above the floor, and the status is degraded exactly
  while it is paused.
\<close>

theorem pause_follows_the_history:
  assumes "gate_run limits ms g" "resume_percent limits \<le> 100" "evaluate g spool free = (status, g')"
  shows "(admits_materialization status \<longleftrightarrow>
      \<not> (\<exists>as m bs. ms @ [(spool, free)] = as @ m # bs \<and> breach limits m \<and> list_all (holds_pause limits) bs)) \<and>
    (admits_materialization status \<longrightarrow> spool < spool_cap_bytes limits \<and> free_floor_bytes limits < free) \<and>
    (status_is_degraded status \<longleftrightarrow> \<not> admits_materialization status)"
proof -
  have g': "g' = snd (evaluate g spool free)" "status = fst (evaluate g spool free)" using assms(3) by simp_all
  have p: "paused g' \<longleftrightarrow> (\<exists>as m bs. ms @ [(spool, free)] = as @ m # bs \<and> breach limits m \<and> list_all (holds_pause limits) bs)"
    unfolding g' by (rule gate_run_paused [OF gate_run.run_step [OF assms(1)] assms(2)])
  have "\<not> breach limits (spool, free)" if "\<not> paused g'"
    using that gate_run_limits [OF assms(1)] breach_holds [OF assms(2)] unfolding g' by (auto simp: evaluate_paused split: if_splits)
  then show ?thesis using p evaluate_reasons [of g spool free]
    by (auto simp: admits_materialization_def status_is_degraded_def g' breach_def)
qed

theorem pause_follows_the_history_witness:
  "\<not> admits_materialization (fst (evaluate (snd (evaluate (gate_new (limits_new 100 10 80)) 100 50)) 90 50)) \<and>
   admits_materialization (fst (evaluate (snd (evaluate (gate_new (limits_new 100 10 80)) 100 50)) 79 50))"
proof -
  let ?l = "limits_new 100 10 80"
  have r: "gate_run ?l [(100, 50)] (snd (evaluate (gate_new ?l) 100 50))"
    using gate_run.run_step [OF gate_run.run_start, of ?l 100 50] by simp
  have p: "resume_percent ?l \<le> 100" by (simp add: limits_new_def)
  have s: "breach ?l (100, 50)" "holds_pause ?l (90, 50)" "\<not> breach ?l (79, 50)" "\<not> holds_pause ?l (79, 50)"
    by (simp_all add: breach_def holds_pause_def limits_new_def resume_threshold_bytes_def saturating_mul_def U64_MAX_def)
  have "[(100, 50)] @ [(90, 50)] = [] @ (100, 50) # [(90, 50)]" "list_all (holds_pause ?l) [(90, 50)]" using s by simp_all
  then have "\<not> admits_materialization (fst (evaluate (snd (evaluate (gate_new ?l) 100 50)) 90 50))"
    using pause_follows_the_history [OF r p surjective_pairing, of 90 50] s(1) by blast
  moreover have "\<not> (\<exists>as m bs. [(100, 50)] @ [(79, 50)] = as @ m # bs \<and> breach ?l m \<and> list_all (holds_pause ?l) bs)"
    using s by (auto simp: append_eq_Cons_conv Cons_eq_append_conv)
  then have "admits_materialization (fst (evaluate (snd (evaluate (gate_new ?l) 100 50)) 79 50))"
    using pause_follows_the_history [OF r p surjective_pairing, of 79 50] by blast
  ultimately show ?thesis by blast
qed

text \<open>
  C33. With a resume point above the cap the gate flaps: on one unchanged measurement at or above the
  cap, below the resume point and above the floor, a paused gate reopens and admits
  materialization at the cap, and the next evaluation pauses it again.
\<close>

theorem resume_above_the_cap_flaps:
  assumes "paused g" "spool_cap_bytes (gate_limits g) \<le> spool" "spool < resume_threshold_bytes (gate_limits g)"
    "free_floor_bytes (gate_limits g) < free" "evaluate g spool free = (status, g')"
  shows "admits_materialization status \<and> \<not> status_is_degraded status \<and>
    \<not> admits_materialization (fst (evaluate g' spool free))"
  using assms by (auto simp: evaluate_def Let_def admits_materialization_def status_is_degraded_def reasons_is_degraded_def
      reasons_none_def)

theorem resume_above_the_cap_flaps_witness:
  "admits_materialization (fst (evaluate \<lparr>gate_limits = limits_new 100 10 150, paused = True\<rparr> 120 50))"
  using resume_above_the_cap_flaps [OF _ _ _ _ surjective_pairing, of "\<lparr>gate_limits = limits_new 100 10 150, paused = True\<rparr>" 120 50]
  by (simp add: limits_new_def resume_threshold_bytes_def saturating_mul_def U64_MAX_def)

end
