(* ===== verification/Authority.thy ===== *)
theory Authority
  imports Json_Canonical "HOL-Library.Signed_Division"
begin

text \<open>
  The tenant-authority rotation chain (\<^verbatim>\<open>archivist-auth/src/authority.rs\<close>): the rotation record with
  its parser and canonical forms, the chain walk from the pinned root, the acceptance rule at a
  record's own instant, the verification of a control record and the publication gate.

  \<^verbatim>\<open>ed25519::verify\<close> is the argument \<open>verify\<close> (public half, message, signature): nothing below depends
  on what it computes. The caller's \<^verbatim>\<open>fetch\<close> is a function from key identifiers to the stored bytes,
  that is, one view of the store for the length of a call.
\<close>

section \<open>Instants\<close>

text \<open>\<open>sdiv\<close> is the truncating division of \<^verbatim>\<open>i64\<close>; four-digit years stay within its range.\<close>

definition days_from_civil_utc :: "int \<Rightarrow> int \<Rightarrow> int \<Rightarrow> int" where
  "days_from_civil_utc year0 month day =
     (let year = year0 - (if month \<le> 2 then 1 else 0);
          era = (if year \<ge> 0 then year else year - 399) sdiv 400;
          year_of_era = year - era * 400;
          month_offset = (if month > 2 then - 3 else 9);
          day_of_year = (153 * (month + month_offset) + 2) sdiv 5 + day - 1;
          day_of_era = year_of_era * 365 + year_of_era sdiv 4 - year_of_era sdiv 100 + day_of_year
      in era * 146097 + day_of_era - 719468)"

definition utc_instant :: "Timestamp \<Rightarrow> int \<times> nat" where
  "utc_instant stamp =
     (let year = int (number (subslice 0 4 stamp)); month = int (number (subslice 5 7 stamp));
          day = int (number (subslice 8 10 stamp)); hour = int (number (subslice 11 13 stamp));
          minute = int (number (subslice 14 16 stamp)); second = int (number (subslice 17 19 stamp));
          seconds = days_from_civil_utc year month day * 86400 + hour * 3600 + minute * 60 + second;
          nanoseconds =
            (if length stamp > 20 then
               let ds = subslice 20 (length stamp - 1) stamp
               in foldl (\<lambda>n _. n * 10) (number ds) [length ds..<9]
             else 0)
      in (seconds, nanoseconds))"

text \<open>The derived order of the tuple.\<close>

definition instant_less :: "int \<times> nat \<Rightarrow> int \<times> nat \<Rightarrow> bool" where
  "instant_less a b \<longleftrightarrow> fst a < fst b \<or> (fst a = fst b \<and> snd a < snd b)"

section \<open>The rotation record\<close>

definition CONTROL_NAMESPACE :: str where
  "CONTROL_NAMESPACE = lit ''archivist.control/v1''"

definition RECORD_TYPE :: str where
  "RECORD_TYPE = lit ''authority-rotation''"

definition RECORD_KIND :: str where
  "RECORD_KIND = lit ''immutable''"

definition MEMBERS :: "str list" where
  "MEMBERS = [lit ''authority_key_id'', lit ''authority_signature'', lit ''key_algorithm'', lit ''key_id'',
     lit ''previous_key_id'', lit ''previous_public_key'', lit ''public_key'', lit ''record_kind'',
     lit ''record_type'', lit ''schema'', lit ''signed_at'', lit ''tenant_id'']"

definition ROTATION_VERIFICATION_OVERLAP_HOURS :: int where
  "ROTATION_VERIFICATION_OVERLAP_HOURS = 24"

definition OVERLAP_SECONDS :: int where
  "OVERLAP_SECONDS = ROTATION_VERIFICATION_OVERLAP_HOURS * 60 * 60"

datatype AuthorityChainError = MalformedRecord | RecordDisagreement | KeyDerivation | ChainRule
  | SignatureFailed | Unreachable | NotEstablished | Retired | AlreadyRetired

record PinnedAuthorityRoot =
  root_tenant_id :: TenantId
  root_public_key :: Ed25519PublicKey
  root_key_id :: KeyId

definition root_new :: "TenantId \<Rightarrow> Ed25519PublicKey \<Rightarrow> PinnedAuthorityRoot" where
  "root_new tenant public = \<lparr>root_tenant_id = tenant, root_public_key = public,
     root_key_id = KeyId_from_public_key public\<rparr>"

record AuthorityRotationLink =
  link_tenant_id :: TenantId
  previous_public_key :: Ed25519PublicKey
  previous_key_id :: KeyId
  key_algorithm :: SignatureAlgorithm
  link_public_key :: Ed25519PublicKey
  link_key_id :: KeyId
  link_signed_at :: Timestamp
  link_authority_key_id :: KeyId
  link_authority_signature :: Ed25519Signature

definition text_member :: "members \<Rightarrow> str \<Rightarrow> str option" where
  "text_member object name = (case obj_get object name of Some (Text t) \<Rightarrow> Some t | _ \<Rightarrow> None)"

text \<open>A required text member read by a grammar: \<^verbatim>\<open>text_member(..).ok_or(malformed)?\<close> and the parser's \<^verbatim>\<open>map_err\<close>.\<close>

definition parsed_member :: "members \<Rightarrow> string \<Rightarrow> (str \<Rightarrow> GrammarError + 'a) \<Rightarrow> AuthorityChainError + 'a" where
  "parsed_member object name parser =
     and_then (ok_or (text_member object (lit name)) MalformedRecord) (\<lambda>t.
       case parser t of Inl _ \<Rightarrow> Inl MalformedRecord | Inr x \<Rightarrow> Inr x)"

definition link_of_object :: "members \<Rightarrow> AuthorityChainError + AuthorityRotationLink" where
  "link_of_object object =
     (if length object \<noteq> length MEMBERS then Inl MalformedRecord
      else if \<not> list_all (\<lambda>name. text_member object name \<noteq> None) MEMBERS then Inl MalformedRecord
      else if text_member object (lit ''schema'') \<noteq> Some CONTROL_NAMESPACE then Inl RecordDisagreement
      else if text_member object (lit ''record_type'') \<noteq> Some RECORD_TYPE then Inl RecordDisagreement
      else if text_member object (lit ''record_kind'') \<noteq> Some RECORD_KIND then Inl RecordDisagreement
      else
        and_then (parsed_member object ''tenant_id'' TenantId_parse) (\<lambda>tenant_id.
        and_then (parsed_member object ''previous_public_key'' Ed25519PublicKey_parse) (\<lambda>previous_public.
        and_then (parsed_member object ''public_key'' Ed25519PublicKey_parse) (\<lambda>public.
        and_then (parsed_member object ''key_algorithm'' SignatureAlgorithm_parse) (\<lambda>algorithm.
        and_then (parsed_member object ''signed_at'' Timestamp_parse) (\<lambda>signed_at.
        if \<not> calendar_valid signed_at then Inl MalformedRecord else
        and_then (parsed_member object ''previous_key_id'' digest_parse) (\<lambda>previous_id.
        if previous_id \<noteq> KeyId_from_public_key previous_public then Inl KeyDerivation else
        and_then (parsed_member object ''key_id'' digest_parse) (\<lambda>key_id.
        if key_id \<noteq> KeyId_from_public_key public then Inl KeyDerivation else
        and_then (parsed_member object ''authority_key_id'' digest_parse) (\<lambda>authority_key_id.
        if authority_key_id \<noteq> previous_id \<or> key_id = previous_id then Inl ChainRule else
        and_then (parsed_member object ''authority_signature'' Ed25519Signature_parse) (\<lambda>signature.
        Inr \<lparr>link_tenant_id = tenant_id, previous_public_key = previous_public, previous_key_id = previous_id,
             key_algorithm = algorithm, link_public_key = public, link_key_id = key_id,
             link_signed_at = signed_at, link_authority_key_id = authority_key_id,
             link_authority_signature = signature\<rparr>))))))))))"

definition link_parse :: "u8 list \<Rightarrow> AuthorityChainError + AuthorityRotationLink" where
  "link_parse bytes = (case parse bytes of
     Inr (Object object) \<Rightarrow> link_of_object object
   | _ \<Rightarrow> Inl MalformedRecord)"

text \<open>A sequence of \<^verbatim>\<open>members.set(name, text(value))\<close> on an empty object.\<close>

definition set_texts :: "(string \<times> str) list \<Rightarrow> members" where
  "set_texts fs = fold (\<lambda>(name, t) object. obj_set object (lit name) (Text t)) fs []"

definition unsigned_members :: "AuthorityRotationLink \<Rightarrow> (string \<times> str) list" where
  "unsigned_members self =
     [(''schema'', CONTROL_NAMESPACE), (''record_type'', RECORD_TYPE), (''record_kind'', RECORD_KIND),
      (''tenant_id'', link_tenant_id self), (''previous_public_key'', to_hex (previous_public_key self)),
      (''previous_key_id'', to_hex (previous_key_id self)),
      (''key_algorithm'', SignatureAlgorithm_token (key_algorithm self)),
      (''public_key'', to_hex (link_public_key self)), (''key_id'', to_hex (link_key_id self)),
      (''signed_at'', link_signed_at self), (''authority_key_id'', to_hex (link_authority_key_id self))]"

definition unsigned_canonical_bytes :: "AuthorityRotationLink \<Rightarrow> u8 list" where
  "unsigned_canonical_bytes self = canonical_bytes (Object (set_texts (unsigned_members self)))"

definition link_canonical_bytes :: "AuthorityRotationLink \<Rightarrow> u8 list" where
  "link_canonical_bytes self = canonical_bytes (Object (set_texts (unsigned_members self @
     [(''authority_signature'', to_hex (link_authority_signature self))])))"

type_synonym verifier = "u8 list \<Rightarrow> u8 list \<Rightarrow> u8 list \<Rightarrow> bool"

definition verify_predecessor_signature :: "verifier \<Rightarrow> AuthorityRotationLink \<Rightarrow> bool" where
  "verify_predecessor_signature verify self =
     verify (previous_public_key self) (unsigned_canonical_bytes self) (link_authority_signature self)"

section \<open>Acceptance\<close>

record ResolvedAuthority =
  key_id :: KeyId
  public_key :: Ed25519PublicKey
  established_at :: "Timestamp option"
  retired_at :: "Timestamp option"

datatype Acceptance = Accepted | InvalidInstant | BeforeEstablishment | AfterRetirement

definition acceptance :: "ResolvedAuthority \<Rightarrow> Timestamp \<Rightarrow> Acceptance" where
  "acceptance self at =
     (if \<not> calendar_valid at then InvalidInstant
      else if (case established_at self of None \<Rightarrow> False
               | Some established \<Rightarrow> instant_less (utc_instant at) (utc_instant established)) then BeforeEstablishment
      else if (case retired_at self of None \<Rightarrow> False
               | Some retired \<Rightarrow> (case utc_instant retired of (s, n) \<Rightarrow>
                   instant_less (s + OVERLAP_SECONDS, n) (utc_instant at))) then AfterRetirement
      else Accepted)"

definition accepts_signing_at :: "ResolvedAuthority \<Rightarrow> Timestamp \<Rightarrow> bool" where
  "accepts_signing_at self at \<longleftrightarrow> acceptance self at = Accepted"

definition verify_signing_at :: "ResolvedAuthority \<Rightarrow> Timestamp \<Rightarrow> AuthorityChainError + unit" where
  "verify_signing_at self at = (case acceptance self at of
     Accepted \<Rightarrow> Inr ()
   | InvalidInstant \<Rightarrow> Inl MalformedRecord
   | BeforeEstablishment \<Rightarrow> Inl NotEstablished
   | AfterRetirement \<Rightarrow> Inl Retired)"

section \<open>The chain walk\<close>

type_synonym store_view = "KeyId \<Rightarrow> u8 list option"

definition verified_link_at :: "verifier \<Rightarrow> KeyId \<Rightarrow> PinnedAuthorityRoot \<Rightarrow> u8 list \<Rightarrow>
    AuthorityChainError + AuthorityRotationLink" where
  "verified_link_at verify addressed_key root bytes =
     and_then (link_parse bytes) (\<lambda>link.
       if link_tenant_id link \<noteq> root_tenant_id root then Inl RecordDisagreement
       else if previous_key_id link \<noteq> addressed_key then Inl RecordDisagreement
       else if \<not> verify_predecessor_signature verify link then Inl SignatureFailed
       else Inr link)"

text \<open>The retirement probe at the signer's own address.\<close>

definition retirement :: "verifier \<Rightarrow> PinnedAuthorityRoot \<Rightarrow> KeyId \<Rightarrow> KeyId list \<Rightarrow> u8 list option \<Rightarrow>
    AuthorityChainError + Timestamp option" where
  "retirement verify root current_id visited link_bytes = (case link_bytes of
     None \<Rightarrow> Inr None
   | Some bytes \<Rightarrow> and_then (verified_link_at verify current_id root bytes) (\<lambda>link.
       if link_key_id link \<in> set visited then Inl ChainRule else Inr (Some (link_signed_at link))))"

lemma parsed_member_Inr [result_simps]:
  "parsed_member object name parser = Inr x \<longleftrightarrow> (\<exists>t. text_member object (lit name) = Some t \<and> parser t = Inr x)"
proof -
  have "(case r of Inl _ \<Rightarrow> Inl MalformedRecord | Inr y \<Rightarrow> Inr y) = Inr x \<longleftrightarrow> r = Inr x" for r :: "GrammarError + 'a"
    by (cases r) auto
  then show ?thesis by (simp add: parsed_member_def result_simps)
qed

lemma link_of_object_Inr:
  assumes "link_of_object object = Inr link"
  shows "parsed_member object ''tenant_id'' TenantId_parse = Inr (link_tenant_id link)"
    "parsed_member object ''previous_public_key'' Ed25519PublicKey_parse = Inr (previous_public_key link)"
    "parsed_member object ''public_key'' Ed25519PublicKey_parse = Inr (link_public_key link)"
    "parsed_member object ''key_algorithm'' SignatureAlgorithm_parse = Inr (key_algorithm link)"
    "parsed_member object ''signed_at'' Timestamp_parse = Inr (link_signed_at link)"
    "calendar_valid (link_signed_at link)"
    "parsed_member object ''previous_key_id'' digest_parse = Inr (previous_key_id link)"
    "previous_key_id link = KeyId_from_public_key (previous_public_key link)"
    "parsed_member object ''key_id'' digest_parse = Inr (link_key_id link)"
    "link_key_id link = KeyId_from_public_key (link_public_key link)"
    "parsed_member object ''authority_key_id'' digest_parse = Inr (link_authority_key_id link)"
    "link_authority_key_id link = previous_key_id link" "link_key_id link \<noteq> previous_key_id link"
    "parsed_member object ''authority_signature'' Ed25519Signature_parse = Inr (link_authority_signature link)"
    "length object = length MEMBERS" "list_all (\<lambda>name. text_member object name \<noteq> None) MEMBERS"
    "text_member object (lit ''schema'') = Some CONTROL_NAMESPACE"
    "text_member object (lit ''record_type'') = Some RECORD_TYPE"
    "text_member object (lit ''record_kind'') = Some RECORD_KIND"
  using assms unfolding link_of_object_def
  by (simp_all only: and_then_eq_Inr split: if_split_asm, auto)

lemma link_key_length:
  assumes "verified_link_at verify k root bytes = Inr link"
  shows "length (link_key_id link) = 32"
proof -
  obtain object where "link_of_object object = Inr link"
    using assms by (auto simp: verified_link_at_def link_parse_def result_simps split: sum.splits Value.splits if_splits)
  from link_of_object_Inr(9) [OF this] show ?thesis
    by (auto simp: result_simps digest_text.parse_iff)
qed

lemma finite_keys: "finite {k :: KeyId. length k = 32}"
  using finite_lists_length_eq [of "UNIV :: u8 set" 32] by simp

lemma walk_measure:
  assumes "verified_link_at verify k root bytes = Inr link" "link_key_id link \<notin> set visited"
  shows "card ({k. length k = 32} - set (visited @ [link_key_id link])) < card ({k. length k = 32} - set visited)"
proof -
  have "{k. length k = 32} - set (visited @ [link_key_id link]) \<subset> {k. length k = 32} - set visited"
    using link_key_length [OF assms(1)] assms(2) by auto
  then show ?thesis using finite_keys by (intro psubset_card_mono) auto
qed

function resolve_loop :: "verifier \<Rightarrow> PinnedAuthorityRoot \<Rightarrow> KeyId \<Rightarrow> store_view \<Rightarrow>
    KeyId \<Rightarrow> Ed25519PublicKey \<Rightarrow> Timestamp option \<Rightarrow> KeyId list \<Rightarrow> AuthorityChainError + ResolvedAuthority" where
  "resolve_loop verify root signer fetch current_id current_public established visited =
     (let link_bytes = fetch current_id in
      if current_id = signer then
        and_then (retirement verify root current_id visited link_bytes) (\<lambda>retired.
          Inr \<lparr>key_id = current_id, public_key = current_public, established_at = established, retired_at = retired\<rparr>)
      else case link_bytes of
        None \<Rightarrow> Inl Unreachable
      | Some bytes \<Rightarrow> and_then (verified_link_at verify current_id root bytes) (\<lambda>link.
          let successor = link_key_id link in
          if successor \<in> set visited then Inl ChainRule
          else resolve_loop verify root signer fetch successor (link_public_key link)
                 (Some (link_signed_at link)) (visited @ [successor])))"
  by pat_completeness auto
termination
  by (relation "measure (\<lambda>(_, _, _, _, _, _, _, visited). card ({k. length k = 32} - set visited))")
    (use walk_measure in auto)

definition resolve_authority :: "verifier \<Rightarrow> PinnedAuthorityRoot \<Rightarrow> KeyId \<Rightarrow> store_view \<Rightarrow>
    AuthorityChainError + ResolvedAuthority" where
  "resolve_authority verify root signer fetch =
     resolve_loop verify root signer fetch (root_key_id root) (root_public_key root) None [root_key_id root]"

function active_loop :: "verifier \<Rightarrow> PinnedAuthorityRoot \<Rightarrow> store_view \<Rightarrow>
    KeyId \<Rightarrow> Ed25519PublicKey \<Rightarrow> Timestamp option \<Rightarrow> KeyId list \<Rightarrow> AuthorityChainError + ResolvedAuthority" where
  "active_loop verify root fetch current_id current_public established visited =
     (case fetch current_id of
        None \<Rightarrow> Inr \<lparr>key_id = current_id, public_key = current_public, established_at = established, retired_at = None\<rparr>
      | Some bytes \<Rightarrow> and_then (verified_link_at verify current_id root bytes) (\<lambda>link.
          let successor = link_key_id link in
          if successor \<in> set visited then Inl ChainRule
          else active_loop verify root fetch successor (link_public_key link)
                 (Some (link_signed_at link)) (visited @ [successor])))"
  by pat_completeness auto
termination
  by (relation "measure (\<lambda>(_, _, _, _, _, _, visited). card ({k. length k = 32} - set visited))")
    (use walk_measure in auto)

declare resolve_loop.simps [simp del] active_loop.simps [simp del]

definition resolve_active_authority :: "verifier \<Rightarrow> PinnedAuthorityRoot \<Rightarrow> store_view \<Rightarrow>
    AuthorityChainError + ResolvedAuthority" where
  "resolve_active_authority verify root fetch =
     active_loop verify root fetch (root_key_id root) (root_public_key root) None [root_key_id root]"

definition verify_signing_authority :: "verifier \<Rightarrow> PinnedAuthorityRoot \<Rightarrow> KeyId \<Rightarrow> Timestamp \<Rightarrow> store_view \<Rightarrow>
    AuthorityChainError + ResolvedAuthority" where
  "verify_signing_authority verify root signer signed_at fetch =
     (if \<not> calendar_valid signed_at then Inl MalformedRecord
      else and_then (resolve_authority verify root signer fetch) (\<lambda>resolved.
        and_then (verify_signing_at resolved signed_at) (\<lambda>_. Inr resolved)))"

section \<open>Control records\<close>

type_synonym resolver = "TenantId \<Rightarrow> KeyId \<Rightarrow> Timestamp \<Rightarrow> AuthorityChainError + ResolvedAuthority"

text \<open>The members the wrapper reads before it resolves the signer, and the signature check after it.\<close>

definition control_request :: "members \<Rightarrow> AuthorityChainError + TenantId \<times> KeyId \<times> Ed25519Signature \<times> Timestamp" where
  "control_request object =
     (if text_member object (lit ''schema'') \<noteq> Some CONTROL_NAMESPACE then Inl RecordDisagreement
      else if \<not> list_all (\<lambda>name. text_member object name \<noteq> None) [lit ''record_type'', lit ''record_kind'']
        then Inl MalformedRecord
      else
        and_then (parsed_member object ''tenant_id'' TenantId_parse) (\<lambda>tenant_id.
        and_then (parsed_member object ''authority_key_id'' digest_parse) (\<lambda>signer_id.
        and_then (parsed_member object ''authority_signature'' Ed25519Signature_parse) (\<lambda>signature.
        and_then (parsed_member object ''signed_at'' Timestamp_parse) (\<lambda>signed_at.
        Inr (tenant_id, signer_id, signature, signed_at))))))"

definition control_signature :: "verifier \<Rightarrow> members \<Rightarrow> Ed25519Signature \<Rightarrow> ResolvedAuthority \<Rightarrow>
    AuthorityChainError + ResolvedAuthority" where
  "control_signature verify object signature resolved =
     (let object = snd (obj_remove object (lit ''authority_signature''));
          canonical = canonical_bytes (Object object)
      in if \<not> verify (public_key resolved) canonical signature then Inl SignatureFailed
         else Inr resolved)"

definition verify_control_object :: "verifier \<Rightarrow> members \<Rightarrow> resolver \<Rightarrow> AuthorityChainError + ResolvedAuthority" where
  "verify_control_object verify object resolve =
     and_then (control_request object) (\<lambda>(tenant_id, signer_id, signature, signed_at).
       and_then (resolve tenant_id signer_id signed_at) (control_signature verify object signature))"

definition verify_control_record_resolved :: "verifier \<Rightarrow> u8 list \<Rightarrow> resolver \<Rightarrow> AuthorityChainError + ResolvedAuthority" where
  "verify_control_record_resolved verify envelope resolve = (case parse envelope of
     Inr (Object object) \<Rightarrow> verify_control_object verify object resolve
   | _ \<Rightarrow> Inl MalformedRecord)"

definition verify_control_record :: "verifier \<Rightarrow> PinnedAuthorityRoot \<Rightarrow> u8 list \<Rightarrow> store_view \<Rightarrow>
    AuthorityChainError + ResolvedAuthority" where
  "verify_control_record verify root envelope fetch =
     verify_control_record_resolved verify envelope (\<lambda>record_tenant signer signed_at.
       if record_tenant \<noteq> root_tenant_id root then Inl RecordDisagreement
       else verify_signing_authority verify root signer signed_at fetch)"

section \<open>The publication gate\<close>

datatype RotationPublication = Publish | AlreadyPublished

definition prepare_rotation_publication :: "verifier \<Rightarrow> PinnedAuthorityRoot \<Rightarrow> AuthorityRotationLink \<Rightarrow> store_view \<Rightarrow>
    AuthorityChainError + RotationPublication" where
  "prepare_rotation_publication verify root candidate fetch =
     (if link_tenant_id candidate \<noteq> root_tenant_id root then Inl RecordDisagreement
      else if \<not> verify_predecessor_signature verify candidate then Inl SignatureFailed
      else and_then (resolve_authority verify root (previous_key_id candidate) fetch) (\<lambda>resolved.
        if retired_at resolved = None then Inr Publish
        else and_then (ok_or (fetch (previous_key_id candidate)) SignatureFailed) (\<lambda>stored.
          if stored = link_canonical_bytes candidate then Inr AlreadyPublished else Inl AlreadyRetired)))"

section \<open>The keys a view lets the walk trust\<close>

text \<open>
  The specification of the walk: the pinned root is trusted, and a verified link at the address of
  a trusted key makes its successor trusted, unless the walk has already held that key. The last
  argument is the list of the keys held, in order.
\<close>

inductive trusted :: "verifier \<Rightarrow> PinnedAuthorityRoot \<Rightarrow> store_view \<Rightarrow>
    KeyId \<Rightarrow> Ed25519PublicKey \<Rightarrow> Timestamp option \<Rightarrow> KeyId list \<Rightarrow> bool"
  for verify root fetch where
  pinned: "trusted verify root fetch (root_key_id root) (root_public_key root) None [root_key_id root]"
| adopted: "trusted verify root fetch k pub est held \<Longrightarrow> fetch k = Some bytes \<Longrightarrow>
    verified_link_at verify k root bytes = Inr link \<Longrightarrow> link_key_id link \<notin> set held \<Longrightarrow>
    trusted verify root fetch (link_key_id link) (link_public_key link) (Some (link_signed_at link))
      (held @ [link_key_id link])"

lemma trusted_held:
  assumes "trusted verify root fetch k pub est held"
  shows "distinct held" "held \<noteq> []" "last held = k" "hd held = root_key_id root"
  using assms by (induction) simp_all

lemma trusted_walk:
  assumes "trusted verify root fetch k pub est held" "signer \<notin> set (butlast held)"
  shows "resolve_authority verify root signer fetch = resolve_loop verify root signer fetch k pub est held"
  using assms
proof (induction)
  case pinned
  then show ?case by (simp add: resolve_authority_def)
next
  case (adopted k pub est held bytes link)
  note h = trusted_held [OF adopted.hyps(1)]
  have "signer \<notin> set held" using adopted.prems by simp
  then have n: "signer \<notin> set (butlast held)" "k \<noteq> signer"
    using h(2,3) by (auto dest: in_set_butlastD)
  show ?case
    unfolding adopted.IH [OF n(1)]
    by (subst resolve_loop.simps) (simp add: n(2) adopted.hyps(2-4) Let_def)
qed

lemma trusted_resolve:
  assumes "trusted verify root fetch signer pub est held"
  shows "resolve_authority verify root signer fetch =
    and_then (retirement verify root signer held (fetch signer)) (\<lambda>retired.
      Inr \<lparr>key_id = signer, public_key = pub, established_at = est, retired_at = retired\<rparr>)"
proof -
  note h = trusted_held [OF assms]
  have "held = butlast held @ [signer]" using h(2,3) by (metis append_butlast_last_id)
  then have "signer \<notin> set (butlast held)" using h(1) by (metis distinct_append distinct.simps(2) disjoint_iff list.set_intros(1))
  from trusted_walk [OF assms this] show ?thesis by (simp add: resolve_loop.simps)
qed

lemma resolve_trusted:
  assumes "resolve_loop verify root signer fetch k pub est held = Inr r" "trusted verify root fetch k pub est held"
  shows "\<exists>pub' est' held'. trusted verify root fetch signer pub' est' held' \<and> key_id r = signer \<and>
    public_key r = pub' \<and> established_at r = est' \<and>
    retirement verify root signer held' (fetch signer) = Inr (retired_at r)"
  using assms
proof (induction verify root signer fetch k pub est held rule: resolve_loop.induct)
  case (1 verify root signer fetch k pub est held)
  show ?case
  proof (cases "k = signer")
    case True
    then show ?thesis using "1.prems" by (subst (asm) resolve_loop.simps) (auto simp: result_simps)
  next
    case False
    then obtain bytes link where l: "fetch k = Some bytes" "verified_link_at verify k root bytes = Inr link"
        "link_key_id link \<notin> set held"
        "resolve_loop verify root signer fetch (link_key_id link) (link_public_key link) (Some (link_signed_at link))
           (held @ [link_key_id link]) = Inr r"
      using "1.prems"(1) by (subst (asm) resolve_loop.simps) (auto simp: result_simps Let_def split: option.splits if_splits)
    show ?thesis
      by (rule "1.IH" [OF refl False l(1,2) refl l(3,4)]) (rule trusted.adopted [OF "1.prems"(2) l(1-3)])
  qed
qed

lemma resolve_iff:
  "resolve_authority verify root signer fetch = Inr r \<longleftrightarrow>
    (\<exists>held. trusted verify root fetch signer (public_key r) (established_at r) held \<and> key_id r = signer \<and>
       retirement verify root signer held (fetch signer) = Inr (retired_at r))"
proof
  assume "resolve_authority verify root signer fetch = Inr r"
  from resolve_trusted [OF this [unfolded resolve_authority_def] trusted.pinned]
  show "\<exists>held. trusted verify root fetch signer (public_key r) (established_at r) held \<and> key_id r = signer \<and>
       retirement verify root signer held (fetch signer) = Inr (retired_at r)" by auto
next
  assume "\<exists>held. trusted verify root fetch signer (public_key r) (established_at r) held \<and> key_id r = signer \<and>
       retirement verify root signer held (fetch signer) = Inr (retired_at r)"
  then show "resolve_authority verify root signer fetch = Inr r" by (auto simp: trusted_resolve)
qed

section \<open>Canonical forms of the record\<close>

lemma sorted_members_ext:
  assumes "sorted_members ms" "sorted_members ns" "map_of ms = map_of ns"
  shows "ms = ns"
proof -
  have eq: "set ms = set ns"
  proof (intro set_eqI iffI)
    fix m assume "m \<in> set ms"
    then have "map_of ms (fst m) = Some (snd m)" using sorted_members_distinct [OF assms(1)] by simp
    then show "m \<in> set ns" using assms(3) map_of_SomeD by (metis prod.collapse)
  next
    fix m assume "m \<in> set ns"
    then have "map_of ns (fst m) = Some (snd m)" using sorted_members_distinct [OF assms(2)] by simp
    then show "m \<in> set ms" using assms(3) map_of_SomeD by (metis prod.collapse)
  qed
  let ?r = "\<lambda>a b :: str \<times> Value. cmp_utf16 (fst a) (fst b) = OrdLess"
  have asym: "\<not> (?r a b \<and> ?r b a)" for a b using cmp_utf16_trans [of "fst a" "fst b" "fst a"] by auto
  have "sorted_wrt ?r ms" "sorted_wrt ?r ns" using assms(1,2) by (simp_all add: sorted_members_def)
  then show ?thesis using eq
  proof (induction ms arbitrary: ns)
    case (Cons m ms)
    then obtain n ns' where ns: "ns = n # ns'" by (cases ns) auto
    have mn: "m = n"
    proof (rule ccontr)
      assume "m \<noteq> n"
      then have "m \<in> set ns'" "n \<in> set ms" using Cons.prems(3) ns by auto
      then have "?r n m \<and> ?r m n" using Cons.prems(1,2) ns by auto
      then show False using asym by blast
    qed
    have "m \<notin> set ms" "n \<notin> set ns'" using Cons.prems(1,2) ns by auto
    then have "set ms = set ns'" using Cons.prems(3) ns mn by auto
    then show ?case using Cons ns mn by simp
  qed simp
qed

lemma ascii_text_valid: "ascii t \<Longrightarrow> wf_value (Text t)"
  by (simp add: ascii_valid)

lemma set_texts_built: "set_texts fs = members.built (map (\<lambda>(name, t). (lit name, Text t)) fs)"
  by (simp add: set_texts_def members.built_def fold_map comp_def case_prod_unfold)

definition ascii_names :: "string list \<Rightarrow> bool" where
  "ascii_names ns \<longleftrightarrow> list_all (\<lambda>n. ascii (lit n)) ns"

lemma map_of_lit: "map_of (map (\<lambda>(name, t). (lit name, Text t)) fs) (lit n) = map_option Text (map_of fs n)"
  by (induction fs) auto

lemma set_texts_sorted: "ascii_names (map fst fs) \<Longrightarrow> sorted_members (set_texts fs)"
  unfolding set_texts_built
  by (rule conjunct1 [OF members.lookup_built [where b = "[]"]]) (auto simp: ascii_names_def list_all_iff ascii_valid)

lemma get_set_texts:
  assumes "ascii_names (map fst fs)" "distinct (map fst fs)" "utf8_valid name"
  shows "obj_get (set_texts fs) name = map_of (map (\<lambda>(n, t). (lit n, Text t)) fs) name"
proof -
  have "distinct (map fst (map (\<lambda>(n, t). (lit n, Text t)) fs))"
    using assms(2) by (simp add: distinct_map comp_def case_prod_beta inj_on_def)
  then have "map_of (rev (map (\<lambda>(n, t). (lit n, Text t)) fs)) = map_of (map (\<lambda>(n, t). (lit n, Text t)) fs)"
    by (subst map_of_inject_set) (simp_all add: rev_map [symmetric])
  moreover have "\<forall>(a, v) \<in> set (map (\<lambda>(n, t). (lit n, Text t)) fs). utf8_valid a"
    using assms(1) by (auto simp: ascii_names_def list_all_iff ascii_valid)
  ultimately show ?thesis using members.lookup_built [OF _ assms(3)] by (simp add: set_texts_built)
qed

lemma map_of_set_texts:
  assumes "ascii_names (map fst fs)" "distinct (map fst fs)"
  shows "map_of (set_texts fs) = map_of (map (\<lambda>(n, t). (lit n, Text t)) fs)"
proof
  fix name
  show "map_of (set_texts fs) name = map_of (map (\<lambda>(n, t). (lit n, Text t)) fs) name"
  proof (cases "utf8_valid name")
    case True
    then show ?thesis using get_set_texts [OF assms True] obj_get_map_of [OF set_texts_sorted [OF assms(1)] True] by simp
  next
    case False
    have "name \<notin> fst ` set (set_texts fs)"
      using sorted_members_valid [OF set_texts_sorted [OF assms(1)]] False by auto
    moreover have "name \<notin> fst ` set (map (\<lambda>(n, t). (lit n, Text t)) fs)"
      using assms(1) False by (auto simp: ascii_names_def list_all_iff ascii_valid)
    ultimately show ?thesis by (metis map_of_eq_None_iff)
  qed
qed

definition signed_members :: "AuthorityRotationLink \<Rightarrow> (string \<times> str) list" where
  "signed_members self = unsigned_members self @ [(''authority_signature'', to_hex (link_authority_signature self))]"

definition wf_link :: "AuthorityRotationLink \<Rightarrow> bool" where
  "wf_link self \<longleftrightarrow> uuid_grammar (link_tenant_id self) 4 \<and>
     length (previous_public_key self) = 32 \<and> length (link_public_key self) = 32 \<and>
     timestamp_grammar (link_signed_at self) \<and> calendar_valid (link_signed_at self) \<and>
     previous_key_id self = KeyId_from_public_key (previous_public_key self) \<and>
     link_key_id self = KeyId_from_public_key (link_public_key self) \<and>
     link_authority_key_id self = previous_key_id self \<and> link_key_id self \<noteq> previous_key_id self \<and>
     length (link_authority_signature self) = 64"

lemmas wire_iffs = tenant_id.parse_iff public_key.parse_iff signature.parse_iff digest_text.parse_iff
  timestamp.parse_iff signature_algorithm.parse_iff

lemma wf_link_parsed:
  assumes "link_of_object object = Inr link"
  shows "wf_link link"
  using link_of_object_Inr [OF assms] by (auto simp: wf_link_def result_simps wire_iffs)

lemma link_texts:
  assumes "link_of_object object = Inr link" "(n, t) \<in> set (signed_members link)"
  shows "text_member object (lit n) = Some t"
  using assms(2) link_of_object_Inr [OF assms(1)]
  by (auto simp: signed_members_def unsigned_members_def result_simps wire_iffs)

lemma signed_members_names:
  "map fst (signed_members link) = [''schema'', ''record_type'', ''record_kind'', ''tenant_id'', ''previous_public_key'',
     ''previous_key_id'', ''key_algorithm'', ''public_key'', ''key_id'', ''signed_at'', ''authority_key_id'', ''authority_signature'']"
  by (simp add: signed_members_def unsigned_members_def)

lemma names_ok:
  "distinct (map fst (signed_members link))" "ascii_names (map fst (signed_members link))"
  "distinct (map fst (unsigned_members link))" "ascii_names (map fst (unsigned_members link))"
  by (simp_all add: signed_members_def unsigned_members_def ascii_names_def ascii_def lit_Cons)

lemma text_member_get: "text_member object name = Some t \<longleftrightarrow> obj_get object name = Some (Text t)"
  by (auto simp: text_member_def split: option.splits Value.splits)

text \<open>A record the parser accepts is exactly the object that its own fields render.\<close>

lemma parsed_object_eq:
  assumes "link_of_object object = Inr link" "sorted_members object"
  shows "object = set_texts (signed_members link)"
proof (rule sorted_members_ext [OF assms(2) set_texts_sorted [OF names_ok(2)]])
  let ?fs = "map (\<lambda>(n, t). (lit n, Text t)) (signed_members link)"
  have len: "length (signed_members link) = 12" using arg_cong [OF signed_members_names, of length link] by simp
  have valid: "utf8_valid (lit n)" if "(n, t) \<in> set (signed_members link)" for n t
    using names_ok(2) [of link] that by (auto simp: ascii_names_def list_all_iff ascii_valid)
  have member: "map_of object (lit n) = Some (Text t)" if "(n, t) \<in> set (signed_members link)" for n t
    using link_texts [OF assms(1) that] obj_get_map_of [OF assms(2) valid [OF that]] by (simp add: text_member_get)
  have d: "distinct (map fst ?fs)"
    using names_ok(1) [of link] by (simp add: distinct_map comp_def case_prod_beta inj_on_def)
  have "fst ` set ?fs \<subseteq> fst ` set object" using member by (force dest: map_of_SomeD)
  moreover have "card (fst ` set ?fs) = 12" using distinct_card [OF d] len by (simp only: set_map length_map)
  moreover have "card (fst ` set object) = 12"
    using distinct_card [OF sorted_members_distinct [OF assms(2)]] link_of_object_Inr(15) [OF assms(1)]
    by (simp add: MEMBERS_def)
  ultimately have names: "fst ` set ?fs = fst ` set object" by (intro card_subset_eq) simp_all
  have "map_of object = map_of ?fs"
  proof
    fix name
    show "map_of object name = map_of ?fs name"
    proof (cases "name \<in> fst ` set ?fs")
      case True
      then obtain n t where nt: "(n, t) \<in> set (signed_members link)" "name = lit n" by auto
      then have "map_of ?fs name = Some (Text t)" using d by (intro map_of_is_SomeI) auto
      then show ?thesis using member nt by simp
    next
      case False
      then have "map_of ?fs name = None" "map_of object name = None" using names by (simp_all add: map_of_eq_None_iff)
      then show ?thesis by simp
    qed
  qed
  then show "map_of object = map_of (set_texts (signed_members link))"
    using map_of_set_texts [OF names_ok(2,1)] by simp
qed

lemma text_of_signed:
  "text_member (set_texts (signed_members link)) (lit n) = map_of (signed_members link) n" if "ascii (lit n)"
proof -
  have "obj_get (set_texts (signed_members link)) (lit n) = map_option Text (map_of (signed_members link) n)"
    using get_set_texts [OF names_ok(2,1) ascii_valid [OF that]] map_of_lit by simp
  then show ?thesis by (cases "map_of (signed_members link) n") (simp_all add: text_member_def)
qed

lemma length_set_texts:
  assumes "ascii_names (map fst fs)" "distinct (map fst fs)"
  shows "length (set_texts fs) = length fs"
proof -
  have "fst ` set (set_texts fs) = lit ` fst ` set fs"
    using arg_cong [OF map_of_set_texts [OF assms], of dom] by (auto simp: dom_map_of_conv_image_fst image_comp case_prod_beta)
  moreover have "card (lit ` fst ` set fs) = length fs"
    using assms(2) card_image [of lit "fst ` set fs"] distinct_card [OF assms(2)] by (simp add: inj_on_def)
  ultimately show ?thesis using distinct_card [OF sorted_members_distinct [OF set_texts_sorted [OF assms(1)]]] by simp
qed

lemma parsed_signed:
  assumes "ascii (lit n)" "map_of (signed_members link) n = Some u" "parser u = Inr x"
  shows "parsed_member (set_texts (signed_members link)) n parser = Inr x"
  unfolding parsed_member_Inr using text_of_signed [OF assms(1)] assms(2,3) by simp

lemma link_of_signed:
  assumes "wf_link link"
  shows "link_of_object (set_texts (signed_members link)) = Inr link"
proof -
  let ?o = "set_texts (signed_members link)"
  have len: "length ?o = length MEMBERS"
    using length_set_texts [OF names_ok(2,1)] arg_cong [OF signed_members_names, of length link] by (simp add: MEMBERS_def)
  have all: "list_all (\<lambda>name. text_member ?o name \<noteq> None) MEMBERS"
    by (simp add: MEMBERS_def text_of_signed ascii_lit) (simp add: signed_members_def unsigned_members_def)
  have t: "text_member ?o (lit ''schema'') = Some CONTROL_NAMESPACE" "text_member ?o (lit ''record_type'') = Some RECORD_TYPE"
      "text_member ?o (lit ''record_kind'') = Some RECORD_KIND"
    by (simp_all add: text_of_signed ascii_lit) (simp_all add: signed_members_def unsigned_members_def)
  have p: "parsed_member ?o ''tenant_id'' TenantId_parse = Inr (link_tenant_id link)"
      "parsed_member ?o ''previous_public_key'' Ed25519PublicKey_parse = Inr (previous_public_key link)"
      "parsed_member ?o ''public_key'' Ed25519PublicKey_parse = Inr (link_public_key link)"
      "parsed_member ?o ''key_algorithm'' SignatureAlgorithm_parse = Inr (key_algorithm link)"
      "parsed_member ?o ''signed_at'' Timestamp_parse = Inr (link_signed_at link)"
      "parsed_member ?o ''previous_key_id'' digest_parse = Inr (previous_key_id link)"
      "parsed_member ?o ''key_id'' digest_parse = Inr (link_key_id link)"
      "parsed_member ?o ''authority_key_id'' digest_parse = Inr (link_authority_key_id link)"
      "parsed_member ?o ''authority_signature'' Ed25519Signature_parse = Inr (link_authority_signature link)"
    by (rule parsed_signed; use assms in \<open>simp add: ascii_lit signed_members_def unsigned_members_def wire_iffs
        wf_link_def KeyId_from_public_key_def length_digest\<close>)+
  show ?thesis using assms unfolding link_of_object_def
    by (simp add: len all t p wf_link_def del: not_None_eq) metis
qed

section \<open>Sizes\<close>

lemma length_chars: "length (chars t) \<le> length t"
proof -
  have "length cs \<le> length (utf8_encode cs)" for cs
  proof (induction cs)
    case (Cons c cs)
    then show ?case using encode_utf8_nonempty(2) [of c] by (simp del: encode_utf8_nonempty length_greater_0_conv)
  qed simp
  then show ?thesis by (auto simp: chars_def utf8_chars_exact split: option.splits)
qed

lemma length_write_string: "length (write_string t) \<le> 6 * length t + 2"
proof -
  have "length (concat (map escape_char cs)) \<le> 6 * length cs" for cs
    using escape_char_length(1) by (induction cs) (auto intro: add_mono)
  then show ?thesis using length_chars [of t] by (simp add: write_string_def) (meson le_trans mult_le_mono2)
qed

lemma length_comma_texts: "length (comma_separated (map f xs)) \<le> sum_list (map (\<lambda>x. length (f x) + 1) xs)"
  using length_comma_separated [of xs f] by (cases xs) (auto simp: joined_length_def)

lemma length_texts_object:
  assumes "ascii_names (map fst fs)" "distinct (map fst fs)"
  shows "length (canonical_bytes (Object (set_texts fs))) \<le> 2 + sum_list (map (\<lambda>(n, t). 6 * length n + 6 * length t + 6) fs)"
proof -
  let ?w = "\<lambda>m. length (write_member m) + 1"
  let ?fs = "map (\<lambda>(n, t). (lit n, Text t)) fs"
  have set: "set (set_texts fs) = set ?fs"
  proof -
    have "distinct (map fst ?fs)" using assms(2) by (simp add: distinct_map comp_def case_prod_beta inj_on_def)
    then show ?thesis
      using map_of_set_texts [OF assms] map_of_inject_set sorted_members_distinct [OF set_texts_sorted [OF assms(1)]] by blast
  qed
  have "distinct (set_texts fs)" "distinct ?fs"
    using sorted_members_distinct [OF set_texts_sorted [OF assms(1)]] assms(2)
    by (auto simp: distinct_map inj_on_def)
  then have "sum_list (map ?w (set_texts fs)) = sum_list (map ?w ?fs)"
    using set by (simp only: sum_list_distinct_conv_sum_set)
  moreover have "?w (lit n, Text t) \<le> 6 * length n + 6 * length t + 6" for n t
    using length_write_string [of "lit n"] length_write_string [of t] by (simp add: write_member_pair)
  then have "sum_list (map ?w ?fs) \<le> sum_list (map (\<lambda>(n, t). 6 * length n + 6 * length t + 6) fs)"
    by (simp add: comp_def case_prod_beta sum_list_mono)
  ultimately have "length (comma_separated (map write_member (set_texts fs))) \<le>
      sum_list (map (\<lambda>(n, t). 6 * length n + 6 * length t + 6) fs)"
    using length_comma_texts [of write_member "set_texts fs"] by linarith
  then show ?thesis unfolding canonical_bytes_def write_canonical_Object by simp
qed

lemma texts_wf:
  assumes "ascii_names (map fst fs)" "distinct (map fst fs)" "list_all (\<lambda>(n, t). utf8_valid t) fs"
  shows "wf_value (Object (set_texts fs))" "value_depth (Object (set_texts fs)) \<le> 1"
proof -
  have vals: "\<exists>t. snd m = Text t \<and> utf8_valid t" if "m \<in> set (set_texts fs)" for m
  proof -
    have "map_of (set_texts fs) (fst m) = Some (snd m)"
      using that sorted_members_distinct [OF set_texts_sorted [OF assms(1)]] by simp
    then have "map_of (map (\<lambda>(n, t). (lit n, Text t)) fs) (fst m) = Some (snd m)"
      using map_of_set_texts [OF assms(1,2)] by simp
    then show ?thesis using assms(3) by (fastforce dest!: map_of_SomeD simp: list_all_iff)
  qed
  show "wf_value (Object (set_texts fs))"
    using set_texts_sorted [OF assms(1)] vals by fastforce
  have "foldr max (map (\<lambda>m. Suc (value_depth (snd m))) (set_texts fs)) 0 \<le> 1"
    unfolding depth_le using vals by fastforce
  then show "value_depth (Object (set_texts fs)) \<le> 1" by simp
qed

lemma ascii_append: "ascii (s @ t) \<longleftrightarrow> ascii s \<and> ascii t" "ascii (c # s) \<longleftrightarrow> c < 0x80 \<and> ascii s" "ascii []"
  by (simp_all add: ascii_def)

lemma lower_hex_ascii: "is_lower_hex c \<Longrightarrow> c < 0x80"
  by (auto simp: is_lower_hex_def is_ascii_digit_def word_le_nat_alt word_less_nat_alt)

lemma hex_ascii: "list_all is_lower_hex s \<Longrightarrow> ascii s"
  by (auto simp: ascii_def list_all_iff lower_hex_ascii)

lemma uuid_ascii: "uuid_grammar t 4 \<Longrightarrow> ascii t"
  by (auto simp: uuid_grammar_language uuid_language_def ascii_append hex_ascii)

lemma digits_ascii_str: "digits s \<Longrightarrow> ascii s"
  using digits_ascii by (simp add: ascii_def)

lemma timestamp_ascii: "timestamp_grammar t \<Longrightarrow> ascii t"
proof -
  assume "timestamp_grammar t"
  moreover have "ascii f" if "fraction f" for f
    using that by (cases f) (auto simp: fraction_def ascii_append digits_ascii_str)
  ultimately show ?thesis by (auto simp: timestamp_grammar_language timestamp_language_def ascii_append digits_ascii_str)
qed

lemma to_hex_ascii: "ascii (to_hex bs)" "length (to_hex bs) = 2 * length bs"
  using list_all_lower_hex_encode [of bs] by (simp_all add: to_hex_def hex_ascii)

lemma signed_members_sizes:
  assumes "wf_link link"
  shows "list_all (\<lambda>(n, t). utf8_valid t) (signed_members link)"
    "sum_list (map (\<lambda>(n, t). 6 * length n + 6 * length t + 6) (signed_members link)) \<le> 10000"
proof -
  have w: "ascii (link_tenant_id link)" "ascii (link_signed_at link)" "length (link_tenant_id link) = 36"
      "length (link_signed_at link) \<le> 35"
    using assms uuid_ascii timestamp_ascii length_uuid [of "link_tenant_id link" 4]
    by (auto simp: wf_link_def timestamp_grammar_iff)
  have c: "ascii CONTROL_NAMESPACE" "ascii RECORD_TYPE" "ascii RECORD_KIND"
    by (simp_all add: CONTROL_NAMESPACE_def RECORD_TYPE_def RECORD_KIND_def ascii_lit)
  have k: "ascii (SignatureAlgorithm_token (key_algorithm link))" "length (SignatureAlgorithm_token (key_algorithm link)) = 7"
    by (cases "key_algorithm link"; simp add: ascii_lit)+
  show "list_all (\<lambda>(n, t). utf8_valid t) (signed_members link)"
    using w c k by (simp add: signed_members_def unsigned_members_def ascii_valid to_hex_ascii)
  show "sum_list (map (\<lambda>(n, t). 6 * length n + 6 * length t + 6) (signed_members link)) \<le> 10000"
    using assms w k by (simp add: signed_members_def unsigned_members_def to_hex_ascii wf_link_def KeyId_from_public_key_def
        length_digest CONTROL_NAMESPACE_def RECORD_TYPE_def RECORD_KIND_def)
qed

lemma link_canonical_signed: "link_canonical_bytes link = canonical_bytes (Object (set_texts (signed_members link)))"
  by (simp add: link_canonical_bytes_def signed_members_def)

lemma parse_signed:
  assumes "wf_link link"
  shows "parse (link_canonical_bytes link) = Inr (Object (set_texts (signed_members link)))"
proof -
  note wf = texts_wf [OF names_ok(2,1) signed_members_sizes(1) [OF assms]]
  have "length (link_canonical_bytes link) \<le> 10002"
    using length_texts_object [OF names_ok(2,1), of link] signed_members_sizes(2) [OF assms] by (simp add: link_canonical_signed)
  then show ?thesis unfolding parse_def link_canonical_signed
    using wf by (intro parse_canonical_bytes) (simp_all add: DEFAULT_MAX_BYTES_def DEFAULT_MAX_DEPTH_def)
qed

lemma link_round_trip: "wf_link link \<Longrightarrow> link_parse (link_canonical_bytes link) = Inr link"
  by (simp add: link_parse_def parse_signed link_of_signed)

lemma link_parse_object:
  assumes "link_parse bytes = Inr link"
  obtains object where "parse bytes = Inr (Object object)" "link_of_object object = Inr link" "sorted_members object"
proof -
  obtain object where o: "parse bytes = Inr (Object object)" "link_of_object object = Inr link"
    using assms by (auto simp: link_parse_def split: sum.splits Value.splits)
  have "wf_value (Object object)" using parse_bytes_result o(1) unfolding parse_def by blast
  then show ?thesis using that o by simp
qed

lemma link_parse_wf: "link_parse bytes = Inr link \<Longrightarrow> wf_link link"
  by (erule link_parse_object) (rule wf_link_parsed)

lemma remove_signature:
  "snd (obj_remove (set_texts (signed_members link)) (lit ''authority_signature'')) = set_texts (unsigned_members link)"
proof (rule sorted_members_ext)
  have v: "utf8_valid (lit ''authority_signature'')" by (simp add: ascii_valid ascii_lit)
  note s = set_texts_sorted [OF names_ok(2), of link]
  show "sorted_members (snd (obj_remove (set_texts (signed_members link)) (lit ''authority_signature'')))"
    using obj_remove_sound [OF s v] by simp
  show "sorted_members (set_texts (unsigned_members link))" by (rule set_texts_sorted [OF names_ok(4)])
  have "map_of (snd (obj_remove (set_texts (signed_members link)) (lit ''authority_signature''))) =
      (map_of (map (\<lambda>(n, t). (lit n, Text t)) (signed_members link)))(lit ''authority_signature'' := None)"
    using obj_remove_sound [OF s v] map_of_set_texts [OF names_ok(2,1)] by simp
  also have "\<dots> = map_of (map (\<lambda>(n, t). (lit n, Text t)) (unsigned_members link))"
    by (simp add: signed_members_def unsigned_members_def fun_eq_iff)
  finally show "map_of (snd (obj_remove (set_texts (signed_members link)) (lit ''authority_signature''))) =
      map_of (set_texts (unsigned_members link))"
    by (simp add: map_of_set_texts [OF names_ok(4,3)])
qed

section \<open>Publishing a link\<close>

lemma trusted_update:
  assumes "trusted verify root fetch k pub est held" "x \<notin> set (butlast held)"
  shows "trusted verify root (fetch(x := b)) k pub est held"
  using assms
proof (induction)
  case pinned
  show ?case by (rule trusted.pinned)
next
  case (adopted k pub est held bytes link)
  have "x \<notin> set held" using adopted.prems by simp
  moreover have "k \<in> set held" using trusted_held(2,3) [OF adopted.hyps(1)] by (metis last_in_set)
  ultimately have "x \<notin> set (butlast held)" "(fetch(x := b)) k = Some bytes"
    using adopted.hyps(2) by (auto dest: in_set_butlastD)
  then show ?case using adopted.IH adopted.hyps(3,4) by (intro trusted.adopted)
qed

lemma retirement_None: "retirement verify root k held b = Inr None \<longleftrightarrow> b = None"
  by (auto simp: retirement_def result_simps split: option.splits if_splits)

lemma publish_facts:
  assumes "prepare_rotation_publication verify root cand fetch = Inr Publish"
  obtains pub est held where "link_tenant_id cand = root_tenant_id root" "verify_predecessor_signature verify cand"
    "trusted verify root fetch (previous_key_id cand) pub est held" "fetch (previous_key_id cand) = None"
proof -
  obtain r where r: "link_tenant_id cand = root_tenant_id root" "verify_predecessor_signature verify cand"
      "resolve_authority verify root (previous_key_id cand) fetch = Inr r" "retired_at r = None"
    using assms by (auto simp: prepare_rotation_publication_def result_simps split: if_splits)
  from r(3) obtain held where "trusted verify root fetch (previous_key_id cand) (public_key r) (established_at r) held"
      "retirement verify root (previous_key_id cand) held (fetch (previous_key_id cand)) = Inr None"
    unfolding resolve_iff r(4) by blast
  then show ?thesis using that r by (simp add: retirement_None)
qed

lemma trusted_unique_held:
  assumes "trusted verify root fetch k pub est held" "trusted verify root fetch k pub' est' held'" "fetch k = None"
  shows "pub = pub' \<and> est = est'"
proof -
  have "resolve_authority verify root k fetch =
      Inr \<lparr>key_id = k, public_key = pub, established_at = est, retired_at = None\<rparr>"
    "resolve_authority verify root k fetch =
      Inr \<lparr>key_id = k, public_key = pub', established_at = est', retired_at = None\<rparr>"
    using trusted_resolve [OF assms(1)] trusted_resolve [OF assms(2)] assms(3) by (simp_all add: retirement_def)
  then show ?thesis by simp
qed

lemma trusted_active:
  assumes "trusted verify root fetch k pub est held"
  shows "resolve_active_authority verify root fetch = active_loop verify root fetch k pub est held"
  using assms
proof (induction)
  case pinned
  then show ?case by (simp add: resolve_active_authority_def)
next
  case (adopted k pub est held bytes link)
  show ?case unfolding adopted.IH
    by (subst active_loop.simps) (simp add: adopted.hyps(2-4) Let_def)
qed

lemma published_view:
  assumes "wf_link cand" "link_tenant_id cand = root_tenant_id root" "verify_predecessor_signature verify cand"
    "trusted verify root fetch (previous_key_id cand) pub est held"
  shows "trusted verify root (fetch(previous_key_id cand \<mapsto> link_canonical_bytes cand)) (previous_key_id cand) pub est held"
    "verified_link_at verify (previous_key_id cand) root (link_canonical_bytes cand) = Inr cand"
proof -
  note h = trusted_held [OF assms(4)]
  have "held = butlast held @ [previous_key_id cand]" using h(2,3) by (metis append_butlast_last_id)
  then have "previous_key_id cand \<notin> set (butlast held)"
    using h(1) by (metis distinct_append distinct.simps(2) disjoint_iff list.set_intros(1))
  then show "trusted verify root (fetch(previous_key_id cand \<mapsto> link_canonical_bytes cand)) (previous_key_id cand) pub est held"
    by (rule trusted_update [OF assms(4)])
  show "verified_link_at verify (previous_key_id cand) root (link_canonical_bytes cand) = Inr cand"
    using assms(1-3) by (simp add: verified_link_at_def link_round_trip)
qed

end
