(* ===== verification/Authority_Chain.thy ===== *)
theory Authority_Chain
  imports Authority
begin

text \<open>
  The properties of the authority chain: what a resolution means, what a signature covers, what a
  verified control record guarantees, and what the publication gate admits. A sample chain over
  two constant keys serves the witnesses.
\<close>

section \<open>A sample chain\<close>

text \<open>Records over constant keys, for the witnesses; the identifiers are their SHA-256 digests.\<close>

definition sample_key :: "u8 \<Rightarrow> Ed25519PublicKey" where
  "sample_key a = replicate 32 a"

definition sample_link :: "u8 \<Rightarrow> u8 \<Rightarrow> AuthorityRotationLink" where
  "sample_link a b = \<lparr>link_tenant_id = lit ''00000000-0000-4000-8000-000000000000'',
     previous_public_key = sample_key a, previous_key_id = KeyId_from_public_key (sample_key a), key_algorithm = Ed25519,
     link_public_key = sample_key b, link_key_id = KeyId_from_public_key (sample_key b),
     link_signed_at = lit ''2026-01-01T00:00:00Z'', link_authority_key_id = KeyId_from_public_key (sample_key a),
     link_authority_signature = replicate 64 0\<rparr>"

definition sample_root :: PinnedAuthorityRoot where
  "sample_root = root_new (lit ''00000000-0000-4000-8000-000000000000'') (sample_key 0)"

definition sample_view :: store_view where
  "sample_view = [KeyId_from_public_key (sample_key 0) \<mapsto> link_canonical_bytes (sample_link 0 1)]"

lemma sample_digest_0: "encode_hex (KeyId_from_public_key (sample_key 0)) = lit ''66687aadf862bd776c8fc18b8e9f8e20089714856ee233b3902a591d0d5f2925''"
  by code_simp

lemma sample_digest_1: "encode_hex (KeyId_from_public_key (sample_key 1)) = lit ''72cd6e8422c407fb6d098690f1130b7ded7ec2f7f5e1d30bd9d521f015363793''"
  by code_simp

lemma sample_keys: "KeyId_from_public_key (sample_key 0) \<noteq> KeyId_from_public_key (sample_key 1)"
proof
  assume "KeyId_from_public_key (sample_key 0) = KeyId_from_public_key (sample_key 1)"
  then have "lit ''66687aadf862bd776c8fc18b8e9f8e20089714856ee233b3902a591d0d5f2925'' =
      lit ''72cd6e8422c407fb6d098690f1130b7ded7ec2f7f5e1d30bd9d521f015363793''"
    using sample_digest_0 sample_digest_1 by simp
  then show False by simp
qed

lemma sample_link_wf:
  assumes "KeyId_from_public_key (sample_key a) \<noteq> KeyId_from_public_key (sample_key b)"
  shows "wf_link (sample_link a b)"
proof -
  have "uuid_grammar (lit ''00000000-0000-4000-8000-000000000000'') 4" "timestamp_grammar (lit ''2026-01-01T00:00:00Z'')"
      "calendar_valid (lit ''2026-01-01T00:00:00Z'')" by code_simp+
  then show ?thesis using assms by (auto simp: wf_link_def sample_link_def) (simp_all add: sample_key_def)
qed

lemma sample_verified:
  assumes "KeyId_from_public_key (sample_key a) \<noteq> KeyId_from_public_key (sample_key b)"
  shows "verified_link_at (\<lambda>_ _ _. True) (KeyId_from_public_key (sample_key a)) sample_root
    (link_canonical_bytes (sample_link a b)) = Inr (sample_link a b)"
  using link_round_trip [OF sample_link_wf [OF assms]]
  by (simp add: verified_link_at_def verify_predecessor_signature_def sample_root_def root_new_def)
    (simp add: sample_link_def)

lemma sample_trusted:
  "trusted (\<lambda>_ _ _. True) sample_root sample_view (KeyId_from_public_key (sample_key 1)) (sample_key 1)
     (Some (lit ''2026-01-01T00:00:00Z'')) [KeyId_from_public_key (sample_key 0), KeyId_from_public_key (sample_key 1)]"
proof -
  have "trusted (\<lambda>_ _ _. True) sample_root sample_view (KeyId_from_public_key (sample_key 0)) (sample_key 0) None
      [KeyId_from_public_key (sample_key 0)]"
    using trusted.pinned [of "\<lambda>_ _ _. True" sample_root sample_view] by (simp add: sample_root_def root_new_def)
  from trusted.adopted [OF this _ sample_verified [OF sample_keys]] show ?thesis
    using sample_keys by (simp add: sample_view_def) (simp add: sample_link_def)
qed

lemma sample_resolved:
  "resolve_authority (\<lambda>_ _ _. True) sample_root (KeyId_from_public_key (sample_key 1)) sample_view =
     Inr \<lparr>key_id = KeyId_from_public_key (sample_key 1), public_key = sample_key 1,
          established_at = Some (lit ''2026-01-01T00:00:00Z''), retired_at = None\<rparr>"
proof -
  have "sample_view (KeyId_from_public_key (sample_key 1)) = None" using sample_keys by (simp add: sample_view_def)
  then show ?thesis by (simp add: trusted_resolve [OF sample_trusted] retirement_def)
qed

lemma sample_first_gate:
  "prepare_rotation_publication (\<lambda>_ _ _. True) sample_root (sample_link 0 1) Map.empty = Inr Publish"
proof -
  have "trusted (\<lambda>_ _ _. True) sample_root Map.empty (KeyId_from_public_key (sample_key 0)) (sample_key 0) None
      [KeyId_from_public_key (sample_key 0)]"
    using trusted.pinned [of "\<lambda>_ _ _. True" sample_root Map.empty] by (simp add: sample_root_def root_new_def)
  from trusted_resolve [OF this] show ?thesis
    by (simp add: prepare_rotation_publication_def verify_predecessor_signature_def sample_link_def retirement_def)
      (simp add: sample_root_def root_new_def)
qed

section \<open>Properties\<close>

lemma trusted_key:
  assumes "trusted verify root fetch k pub est held" "root = root_new tenant half"
  shows "KeyId_from_public_key pub = k"
  using assms
proof (induction)
  case (adopted k pub est held bytes link)
  then obtain object where "link_of_object object = Inr link"
    by (auto simp: verified_link_at_def link_parse_def result_simps split: sum.splits Value.splits if_splits)
  then show ?case by (simp add: link_of_object_Inr(10))
qed (simp add: root_new_def)

lemma verified_link_facts:
  assumes "verified_link_at verify k root bytes = Inr link"
  shows "link_parse bytes = Inr link" "link_tenant_id link = root_tenant_id root" "previous_key_id link = k"
    "verify (previous_public_key link) (unsigned_canonical_bytes link) (link_authority_signature link)"
    "KeyId_from_public_key (previous_public_key link) = k"
proof -
  show p: "link_parse bytes = Inr link" and "link_tenant_id link = root_tenant_id root" and k: "previous_key_id link = k"
    and "verify (previous_public_key link) (unsigned_canonical_bytes link) (link_authority_signature link)"
    using assms by (auto simp: verified_link_at_def verify_predecessor_signature_def result_simps split: if_splits)
  show "KeyId_from_public_key (previous_public_key link) = k"
    using link_parse_wf [OF p] k by (simp add: wf_link_def)
qed

text \<open>
  C16. The walk resolves a signer exactly when the chain of verified links leads from the pinned root
  to it; the resolution then carries the half and the instant of the establishing link, and the
  instant of the verified link that retires it, if there is one.
\<close>

theorem resolve_follows_the_chain:
  "resolve_authority verify root signer fetch = Inr r \<longleftrightarrow>
    (\<exists>held. trusted verify root fetch signer (public_key r) (established_at r) held \<and> key_id r = signer \<and>
       retirement verify root signer held (fetch signer) = Inr (retired_at r))"
  by (rule resolve_iff)

text \<open>
  C17. A signer other than the root is resolved only through a stored rotation record of the root's
  tenant that names it, that carries a signature verifying over the record's canonical bytes, and
  that signs with a half of the same identifier as a half trusted before it. The identifier of a
  resolved half is the SHA-256 digest of the half.
\<close>

theorem resolved_signers_are_endorsed:
  assumes "resolve_authority verify (root_new tenant pinned_half) signer fetch = Inr r"
    "signer \<noteq> KeyId_from_public_key pinned_half"
  shows "KeyId_from_public_key (public_key r) = signer \<and>
    (\<exists>k half est held bytes link. trusted verify (root_new tenant pinned_half) fetch k half est held \<and>
       fetch k = Some bytes \<and> link_parse bytes = Inr link \<and> link_tenant_id link = tenant \<and>
       link_key_id link = signer \<and> link_public_key link = public_key r \<and> established_at r = Some (link_signed_at link) \<and>
       KeyId_from_public_key (previous_public_key link) = KeyId_from_public_key half \<and>
       verify (previous_public_key link) (unsigned_canonical_bytes link) (link_authority_signature link))"
proof -
  obtain held where t: "trusted verify (root_new tenant pinned_half) fetch signer (public_key r) (established_at r) held"
    using assms(1) unfolding resolve_iff by blast
  from t show ?thesis
  proof cases
    case pinned
    then show ?thesis using assms(2) by (simp add: root_new_def)
  next
    case (adopted k pub est held bytes link)
    note v = verified_link_facts [OF adopted(7)]
    have "link_tenant_id link = tenant" using v(2) by (simp add: root_new_def)
    then show ?thesis using adopted v trusted_key [OF t refl] trusted_key [OF adopted(5) refl] by metis
  qed
qed

theorem resolved_signers_are_endorsed_witness:
  "\<exists>k bytes link. sample_view k = Some bytes \<and> link_parse bytes = Inr link \<and>
     link_key_id link = KeyId_from_public_key (sample_key 1)"
  using resolved_signers_are_endorsed [OF sample_resolved [unfolded sample_root_def]] sample_keys by metis

text \<open>
  C20. A rotation record that parses is signed over the same bytes on both verification paths: the
  bytes that the parsed link renders are the canonical form of the stored object without its
  signature member. Its complete rendering is the canonical form of the stored object, and parsing
  that rendering returns the link.
\<close>

theorem rotation_record_round_trips:
  assumes "link_parse bytes = Inr link"
  shows "\<exists>object. parse bytes = Inr (Object object) \<and>
    unsigned_canonical_bytes link = canonical_bytes (Object (snd (obj_remove object (lit ''authority_signature'')))) \<and>
    link_canonical_bytes link = canonical_bytes (Object object) \<and>
    link_parse (link_canonical_bytes link) = Inr link"
proof -
  from assms obtain object where o: "parse bytes = Inr (Object object)" "link_of_object object = Inr link" "sorted_members object"
    by (rule link_parse_object)
  have "object = set_texts (signed_members link)" by (rule parsed_object_eq [OF o(2,3)])
  then show ?thesis
    using o(1) link_round_trip [OF link_parse_wf [OF assms]] remove_signature [of link]
    by (simp add: unsigned_canonical_bytes_def link_canonical_signed)
qed

theorem rotation_record_round_trips_witness:
  "\<exists>object. parse (link_canonical_bytes (sample_link 0 1)) = Inr (Object object) \<and>
     unsigned_canonical_bytes (sample_link 0 1) = canonical_bytes (Object (snd (obj_remove object (lit ''authority_signature''))))"
  using rotation_record_round_trips [OF link_round_trip [OF sample_link_wf [OF sample_keys]]] by blast

text \<open>
  C18. A control record verifies exactly when it is a JSON object of the control namespace and of the
  root's tenant, its signer is on the chain, the signer may have signed at the record's own instant,
  and the signature verifies, under the half the chain resolves, over the canonical form of the
  object without the signature member.
\<close>

theorem control_record_verified:
  "verify_control_record verify root envelope fetch = Inr r \<longleftrightarrow>
    (\<exists>object signer sig at held. parse envelope = Inr (Object object) \<and>
       text_member object (lit ''schema'') = Some CONTROL_NAMESPACE \<and>
       text_member object (lit ''record_type'') \<noteq> None \<and> text_member object (lit ''record_kind'') \<noteq> None \<and>
       text_member object (lit ''tenant_id'') = Some (root_tenant_id root) \<and> uuid_grammar (root_tenant_id root) 4 \<and>
       text_member object (lit ''authority_key_id'') = Some (to_hex signer) \<and> length signer = 32 \<and>
       text_member object (lit ''authority_signature'') = Some (to_hex sig) \<and> length sig = 64 \<and>
       text_member object (lit ''signed_at'') = Some at \<and> timestamp_grammar at \<and> accepts_signing_at r at \<and>
       trusted verify root fetch signer (public_key r) (established_at r) held \<and> key_id r = signer \<and>
       retirement verify root signer held (fetch signer) = Inr (retired_at r) \<and>
       verify (public_key r) (canonical_bytes (Object (snd (obj_remove object (lit ''authority_signature''))))) sig)"
    (is "?l \<longleftrightarrow> ?r")
proof
  assume ?l
  then obtain object tenant signer sig at where o: "parse envelope = Inr (Object object)"
      "text_member object (lit ''schema'') = Some CONTROL_NAMESPACE"
      "text_member object (lit ''record_type'') \<noteq> None" "text_member object (lit ''record_kind'') \<noteq> None"
      "parsed_member object ''tenant_id'' TenantId_parse = Inr tenant"
      "parsed_member object ''authority_key_id'' digest_parse = Inr signer"
      "parsed_member object ''authority_signature'' Ed25519Signature_parse = Inr sig"
      "parsed_member object ''signed_at'' Timestamp_parse = Inr at"
      "tenant = root_tenant_id root" "verify_signing_authority verify root signer at fetch = Inr r"
      "verify (public_key r) (canonical_bytes (Object (snd (obj_remove object (lit ''authority_signature''))))) sig"
    by (auto simp: verify_control_record_def verify_control_record_resolved_def verify_control_object_def control_request_def control_signature_def Let_def
        and_then_eq_Inr split: sum.splits Value.splits if_splits)
  have "accepts_signing_at r at" "resolve_authority verify root signer fetch = Inr r"
    using o(10) by (auto simp: verify_signing_authority_def verify_signing_at_def accepts_signing_at_def result_simps
        split: if_splits Acceptance.splits)
  then show ?r using o unfolding resolve_iff by (auto simp: result_simps wire_iffs)
next
  assume ?r
  then obtain object signer sig at held where p: "parse envelope = Inr (Object object)"
      "text_member object (lit ''schema'') = Some CONTROL_NAMESPACE"
      "text_member object (lit ''record_type'') \<noteq> None" "text_member object (lit ''record_kind'') \<noteq> None"
      "text_member object (lit ''tenant_id'') = Some (root_tenant_id root)" "uuid_grammar (root_tenant_id root) 4"
      "text_member object (lit ''authority_key_id'') = Some (to_hex signer)" "length signer = 32"
      "text_member object (lit ''authority_signature'') = Some (to_hex sig)" "length sig = 64"
      "text_member object (lit ''signed_at'') = Some at" "timestamp_grammar at" "accepts_signing_at r at"
      "trusted verify root fetch signer (public_key r) (established_at r) held" "key_id r = signer"
      "retirement verify root signer held (fetch signer) = Inr (retired_at r)"
      "verify (public_key r) (canonical_bytes (Object (snd (obj_remove object (lit ''authority_signature''))))) sig"
    by (elim exE conjE) (rule that)
  have o: "parsed_member object ''tenant_id'' TenantId_parse = Inr (root_tenant_id root)"
      "parsed_member object ''authority_key_id'' digest_parse = Inr signer"
      "parsed_member object ''authority_signature'' Ed25519Signature_parse = Inr sig"
      "parsed_member object ''signed_at'' Timestamp_parse = Inr at" "resolve_authority verify root signer fetch = Inr r"
    using p(5-16) by (auto simp: result_simps wire_iffs resolve_iff)
  have "calendar_valid at" using p(13) by (auto simp: accepts_signing_at_def acceptance_def split: if_splits)
  then have "verify_signing_authority verify root signer at fetch = Inr r"
    using p(13) o(5) by (simp add: verify_signing_authority_def verify_signing_at_def accepts_signing_at_def)
  then show ?l using p(1-4,17) o(1-4)
    by (auto simp: verify_control_record_def verify_control_record_resolved_def verify_control_object_def control_request_def control_signature_def Let_def)
qed

text \<open>
  C22. Publishing a link that the gate admits extends the chain: in the store that holds it, its
  successor is the active anchor, established at the link's instant, and the predecessor is retired
  at that instant. This needs a successor that the walk has not held and that no link retires yet.
\<close>

theorem published_link_extends_the_chain:
  assumes "link_parse bytes = Inr cand" "prepare_rotation_publication verify root cand fetch = Inr Publish"
    "trusted verify root fetch (previous_key_id cand) pub est held" "link_key_id cand \<notin> set held"
    "fetch (link_key_id cand) = None" "view = fetch(previous_key_id cand \<mapsto> link_canonical_bytes cand)"
  shows "resolve_active_authority verify root view = Inr \<lparr>key_id = link_key_id cand, public_key = link_public_key cand,
      established_at = Some (link_signed_at cand), retired_at = None\<rparr> \<and>
    resolve_authority verify root (link_key_id cand) view = resolve_active_authority verify root view \<and>
    resolve_authority verify root (previous_key_id cand) view = Inr \<lparr>key_id = previous_key_id cand, public_key = pub,
      established_at = est, retired_at = Some (link_signed_at cand)\<rparr>"
proof -
  have g: "link_tenant_id cand = root_tenant_id root" "verify_predecessor_signature verify cand"
    by (rule publish_facts [OF assms(2)], assumption)+
  note v = published_view [OF link_parse_wf [OF assms(1)] g assms(3), folded assms(6)]
  have at: "view (previous_key_id cand) = Some (link_canonical_bytes cand)" by (simp add: assms(6))
  note t = trusted.adopted [OF v(1) at v(2) assms(4)]
  have none: "view (link_key_id cand) = None"
    using link_parse_wf [OF assms(1)] assms(5,6) by (auto simp: wf_link_def)
  show ?thesis
    using trusted_active [OF t] trusted_resolve [OF t] trusted_resolve [OF v(1)] none at v(2) assms(4)
    by (simp add: active_loop.simps [of verify root view "link_key_id cand"] retirement_def)
qed

theorem published_link_extends_the_chain_witness:
  "resolve_active_authority (\<lambda>_ _ _. True) sample_root sample_view = Inr \<lparr>key_id = KeyId_from_public_key (sample_key 1),
     public_key = sample_key 1, established_at = Some (lit ''2026-01-01T00:00:00Z''), retired_at = None\<rparr>"
proof -
  have "trusted (\<lambda>_ _ _. True) sample_root Map.empty (previous_key_id (sample_link 0 1)) (sample_key 0) None
      [KeyId_from_public_key (sample_key 0)]"
    using trusted.pinned [of "\<lambda>_ _ _. True" sample_root Map.empty] by (simp add: sample_root_def root_new_def sample_link_def)
  moreover have "link_key_id (sample_link 0 1) \<notin> set [KeyId_from_public_key (sample_key 0)]"
    using sample_keys by (simp add: sample_link_def)
  ultimately show ?thesis
    using published_link_extends_the_chain [OF link_round_trip [OF sample_link_wf [OF sample_keys]] sample_first_gate,
        of "sample_key 0" None "[KeyId_from_public_key (sample_key 0)]" sample_view]
    by (simp add: sample_view_def) (simp add: sample_link_def)
qed

text \<open>
  C30. The gate does not look at the successor. A link of the tenant, correctly signed by the active half (a trusted
  key that nothing in the store retires), is admitted although its successor is a key the walk has already held,
  such as the pinned root. Once that link is stored, resolving its predecessor and resolving the active anchor
  both fail with \<open>ChainRule\<close>.
\<close>

theorem gate_admits_a_held_key:
  assumes "link_parse bytes = Inr cand" "link_tenant_id cand = root_tenant_id root" "verify_predecessor_signature verify cand"
    "trusted verify root fetch (previous_key_id cand) pub est held" "fetch (previous_key_id cand) = None"
    "link_key_id cand \<in> set held" "view = fetch(previous_key_id cand \<mapsto> link_canonical_bytes cand)"
  shows "prepare_rotation_publication verify root cand fetch = Inr Publish \<and>
    resolve_authority verify root (previous_key_id cand) view = Inl ChainRule \<and>
    resolve_active_authority verify root view = Inl ChainRule"
proof -
  note v = published_view [OF link_parse_wf [OF assms(1)] assms(2,3,4), folded assms(7)]
  have "prepare_rotation_publication verify root cand fetch = Inr Publish"
    using trusted_resolve [OF assms(4)] assms(2,3,5) by (simp add: prepare_rotation_publication_def retirement_def)
  moreover have "view (previous_key_id cand) = Some (link_canonical_bytes cand)" by (simp add: assms(7))
  then have "resolve_authority verify root (previous_key_id cand) view = Inl ChainRule \<and>
      resolve_active_authority verify root view = Inl ChainRule"
    using trusted_active [OF v(1)] trusted_resolve [OF v(1)] v(2) assms(6)
    by (simp add: active_loop.simps [of verify root view "previous_key_id cand"] retirement_def Let_def)
  ultimately show ?thesis by blast
qed

theorem gate_admits_a_held_key_witness:
  "prepare_rotation_publication (\<lambda>_ _ _. True) sample_root (sample_link 1 0) sample_view = Inr Publish \<and>
   resolve_active_authority (\<lambda>_ _ _. True) sample_root
     (sample_view(KeyId_from_public_key (sample_key 1) \<mapsto> link_canonical_bytes (sample_link 1 0))) = Inl ChainRule"
proof -
  have s: "previous_key_id (sample_link 1 0) = KeyId_from_public_key (sample_key 1)"
      "link_key_id (sample_link 1 0) = KeyId_from_public_key (sample_key 0)"
      "link_tenant_id (sample_link 1 0) = root_tenant_id sample_root"
      "verify_predecessor_signature (\<lambda>_ _ _. True) (sample_link 1 0)"
    by (simp_all add: sample_link_def sample_root_def root_new_def verify_predecessor_signature_def)
  have "wf_link (sample_link 1 0)" using sample_keys by (intro sample_link_wf) simp
  moreover have "sample_view (KeyId_from_public_key (sample_key 1)) = None" using sample_keys by (simp add: sample_view_def sample_link_def)
  ultimately show ?thesis
    using gate_admits_a_held_key [OF link_round_trip s(3,4), unfolded s(1,2), OF _ sample_trusted _ _ refl] by simp
qed

text \<open>
  A view that has learnt of a retirement accepts exactly the instants that the staler view
  accepts and that are at most 24 hours past the retirement; it can therefore refuse, with
  \<open>Retired\<close>, a record that the staler view accepted.
\<close>

lemma retirement_narrows_acceptance:
  "(accepts_signing_at (r\<lparr>retired_at := Some t\<rparr>) at \<longleftrightarrow>
     accepts_signing_at (r\<lparr>retired_at := None\<rparr>) at \<and>
     \<not> instant_less (fst (utc_instant t) + 24 * 60 * 60, snd (utc_instant t)) (utc_instant at)) \<and>
   verify_signing_at (r\<lparr>retired_at := Some t\<rparr>) at = (if accepts_signing_at (r\<lparr>retired_at := None\<rparr>) at then
     if instant_less (fst (utc_instant t) + 24 * 60 * 60, snd (utc_instant t)) (utc_instant at) then Inl Retired else Inr ()
     else verify_signing_at (r\<lparr>retired_at := None\<rparr>) at)"
  by (auto simp: accepts_signing_at_def verify_signing_at_def acceptance_def OVERLAP_SECONDS_def
      ROTATION_VERIFICATION_OVERLAP_HOURS_def case_prod_beta split: option.splits)

end
