(* ===== verification/Trust_Cache.thy ===== *)
theory Trust_Cache
  imports Authority_Chain Checked_Arith
begin

text \<open>
  The bounded trust cache (\<^verbatim>\<open>archivist-auth/src/trust_cache.rs\<close>) in front of the authority chain. The
  hash map is a map from (tenant, signer) to entries; the clock reading of a call and the caller's
  \<^verbatim>\<open>walk\<close> are arguments. The mutex makes \<open>fresh_resolution\<close> and \<open>cache_insert\<close> atomic, and it is not
  held across a walk: the second half of the theory interleaves the calls of concurrent readers, under
  a wall clock of which nothing is assumed.
\<close>

section \<open>Operations\<close>

definition TRUST_CACHE_TTL_SECONDS :: nat where
  "TRUST_CACHE_TTL_SECONDS = 60"

text \<open>\<^verbatim>\<open>SystemClock::now_seconds\<close>, of the wall clock as seconds relative to the Unix epoch.\<close>

definition now_seconds :: "int \<Rightarrow> nat" where
  "now_seconds wall = (if wall < 0 then 0 else nat wall)"

record CacheEntry =
  resolved :: ResolvedAuthority
  cached_at :: nat

type_synonym cache_key = "TenantId \<times> KeyId"
type_synonym BoundedTrustCache = "cache_key \<rightharpoonup> CacheEntry"

definition cache_new :: BoundedTrustCache where
  "cache_new = Map.empty"

definition fresh_resolution :: "BoundedTrustCache \<Rightarrow> TenantId \<Rightarrow> KeyId \<Rightarrow> nat \<Rightarrow>
    ResolvedAuthority option \<times> BoundedTrustCache" where
  "fresh_resolution entries tenant signer now =
     (let key = (tenant, signer);
          fresh = (case entries key of
            None \<Rightarrow> None
          | Some entry \<Rightarrow> if saturating_sub now (cached_at entry) < TRUST_CACHE_TTL_SECONDS then Some (resolved entry) else None)
      in (fresh, if fresh = None then entries(key := None) else entries))"

definition cache_insert :: "BoundedTrustCache \<Rightarrow> TenantId \<Rightarrow> KeyId \<Rightarrow> ResolvedAuthority \<Rightarrow> nat \<Rightarrow> BoundedTrustCache" where
  "cache_insert entries tenant signer r at = entries((tenant, signer) \<mapsto> \<lparr>resolved = r, cached_at = at\<rparr>)"

text \<open>The acceptance rule at the record's own instant, on a hit and after a walk alike.\<close>

definition cache_answer :: "ResolvedAuthority \<Rightarrow> Timestamp \<Rightarrow> AuthorityChainError + ResolvedAuthority" where
  "cache_answer r signed_at = and_then (verify_signing_at r signed_at) (\<lambda>_. Inr r)"

definition cache_resolve :: "BoundedTrustCache \<Rightarrow> nat \<Rightarrow> TenantId \<Rightarrow> KeyId \<Rightarrow> Timestamp \<Rightarrow>
    (TenantId \<Rightarrow> KeyId \<Rightarrow> AuthorityChainError + ResolvedAuthority) \<Rightarrow>
    (AuthorityChainError + ResolvedAuthority) \<times> BoundedTrustCache" where
  "cache_resolve entries now tenant signer signed_at walk =
     (case fresh_resolution entries tenant signer now of
        (Some r, entries) \<Rightarrow> (cache_answer r signed_at, entries)
      | (None, entries) \<Rightarrow>
          (case walk tenant signer of
             Inl e \<Rightarrow> (Inl e, entries)
           | Inr r \<Rightarrow> (cache_answer r signed_at, cache_insert entries tenant signer r now)))"


section \<open>Concurrent readers\<close>




text \<open>
  A world holds the cache, the real time, and the calls with the moment at which each read the clock:
  those that have begun, those that then missed, those whose walk returned a resolution and those
  that were served one. The ghost \<open>walks\<close> logs every walk that reached a resolution, with the moment its call
  began and the moment it read the registry; \<open>registry at key r\<close> says that a walk at the moment \<open>at\<close> can return \<open>r\<close>.
  The steps are the atomic sections of \<open>cache_resolve\<close>, in any interleaving, and the passing of time.
\<close>

record world =
  entries :: BoundedTrustCache
  real_time :: nat
  begun :: "(cache_key \<times> nat) set"
  missed :: "(cache_key \<times> nat) set"
  walked :: "(cache_key \<times> nat \<times> ResolvedAuthority) set"
  served :: "(cache_key \<times> nat \<times> ResolvedAuthority) set"
  walks :: "(cache_key \<times> nat \<times> ResolvedAuthority \<times> nat) set"





















section \<open>Properties\<close>




text \<open>
  C34. A wall clock before the epoch reads as zero, and at zero every cached entry counts as fresh,
  whatever its age: the call answers from the entry, for every walk, and keeps it.
\<close>

theorem pre_epoch_clock_serves_every_entry:
  assumes "wall < 0" "cache (tenant, signer) = Some e"
  shows "cache_resolve cache (now_seconds wall) tenant signer signed_at walk =
    (cache_answer (resolved e) signed_at, cache)"
  using assms by (simp add: cache_resolve_def fresh_resolution_def now_seconds_def saturating_sub_def Let_def
      TRUST_CACHE_TTL_SECONDS_def)

theorem pre_epoch_clock_serves_every_entry_witness:
  "\<exists>r. cache_resolve (cache_insert cache_new [] [] r 1000000) (now_seconds (- 1)) [] [] [] (\<lambda>_ _. Inl Unreachable) \<noteq>
     (Inl Unreachable, cache_new)"
proof -
  define r :: ResolvedAuthority where "r = \<lparr>key_id = [], public_key = [], established_at = None, retired_at = None\<rparr>"
  have "cache_insert cache_new [] [] r 1000000 ([], []) = Some \<lparr>resolved = r, cached_at = 1000000\<rparr>"
    by (simp add: cache_insert_def)
  from pre_epoch_clock_serves_every_entry [of "- 1" "cache_insert cache_new [] [] r 1000000" "[]" "[]", OF _ this]
  have "snd (cache_resolve (cache_insert cache_new [] [] r 1000000) (now_seconds (- 1)) [] [] [] (\<lambda>_ _. Inl Unreachable)) =
      cache_insert cache_new [] [] r 1000000" by simp
  moreover have "cache_insert cache_new [] [] r 1000000 \<noteq> cache_new"
    by (simp add: cache_insert_def cache_new_def)
  ultimately show ?thesis by (metis snd_conv)
qed

end
