(* ===== verification/Readiness.thy ===== *)
theory Readiness
  imports Trust_Cache "HOL-Library.List_Lexorder"
begin

text \<open>
  The trust anchors of a replica (\<^verbatim>\<open>archivist-server/src/trust.rs\<close>) and its readiness
  (\<^verbatim>\<open>archivist-server/src/state.rs\<close>): a verified control read goes through the trust cache to the
  authority chain and renews the tenant's evidence, and the replica is ready while every tenant's
  evidence is fresh. An \<^verbatim>\<open>Instant\<close> is a number of nanoseconds.
\<close>

section \<open>Trust anchors\<close>

datatype TrustConfigErrorKind = EmptyTrustSet | MalformedValue | DuplicateTenant | SharedAuthority


definition kind_display :: "TrustConfigErrorKind \<Rightarrow> str" where
  "kind_display kind = (case kind of
     EmptyTrustSet \<Rightarrow> lit ''empty-trust-set''
   | MalformedValue \<Rightarrow> lit ''malformed-value''
   | DuplicateTenant \<Rightarrow> lit ''duplicate-tenant''
   | SharedAuthority \<Rightarrow> lit ''shared-authority'')"

record TrustConfigError =
  error_kind :: TrustConfigErrorKind
  error_detail :: str


definition trust_error_display :: "TrustConfigError \<Rightarrow> str" where
  "trust_error_display self = lit ''trust config '' @ kind_display (error_kind self) @ lit '': '' @ error_detail self"

type_synonym AuthorityKey = str

definition AuthorityKey_parse :: "str \<Rightarrow> TrustConfigError + AuthorityKey" where
  "AuthorityKey_parse t =
     (if length t = 64 \<and> list_all (\<lambda>b. is_ascii_digit b \<or> (ch CHR ''a'' \<le> b \<and> b \<le> ch CHR ''f'')) t then Inr t
      else Inl \<lparr>error_kind = MalformedValue,
        error_detail = lit ''authority key is outside the ed25519-public-key-hex grammar''\<rparr>)"

record TenantTrustRoot =
  anchor_tenant :: TenantId
  authority :: AuthorityKey

definition trust_root_new :: "str \<Rightarrow> str \<Rightarrow> TrustConfigError + TenantTrustRoot" where
  "trust_root_new tenant key =
     and_then (case TenantId_parse tenant of
         Inl _ \<Rightarrow> Inl \<lparr>error_kind = MalformedValue, error_detail = lit ''tenant is outside the canonical uuid grammar''\<rparr>
       | Inr tenant \<Rightarrow> Inr tenant) (\<lambda>tenant.
     and_then (AuthorityKey_parse key) (\<lambda>key.
     Inr \<lparr>anchor_tenant = tenant, authority = key\<rparr>))"

type_synonym TrustConfig = "TenantTrustRoot list"




definition root_for :: "TrustConfig \<Rightarrow> TenantId \<Rightarrow> TenantTrustRoot option" where
  "root_for self tenant = find (\<lambda>root. anchor_tenant root = tenant) self"

section \<open>The evidence ledger\<close>

definition TRUST_EVIDENCE_WINDOW :: nat where
  "TRUST_EVIDENCE_WINDOW = 60 * 1000000000"

datatype NotReadyReason = TrustEvidenceAbsent | TrustEvidenceStale

definition reason_token :: "NotReadyReason \<Rightarrow> str" where
  "reason_token self = (case self of
     TrustEvidenceAbsent \<Rightarrow> lit ''trust_evidence_absent''
   | TrustEvidenceStale \<Rightarrow> lit ''trust_evidence_stale'')"


type_synonym ReadinessTracker = "(TenantId \<times> nat option) list"


text \<open>\<^verbatim>\<open>iter_mut().find(..)\<close>: the first entry of the tenant takes the instant.\<close>

fun record_evidence :: "ReadinessTracker \<Rightarrow> TenantId \<Rightarrow> nat \<Rightarrow> bool \<times> ReadinessTracker" where
  "record_evidence [] tenant now = (False, [])"
| "record_evidence ((known, evidence) # rest) tenant now =
     (if known = tenant then (True, (known, Some now) # rest)
      else case record_evidence rest tenant now of (found, rest) \<Rightarrow> (found, (known, evidence) # rest))"

definition fresh_evidence :: "nat \<Rightarrow> nat option \<Rightarrow> bool" where
  "fresh_evidence now evidence = (case evidence of
     None \<Rightarrow> False
   | Some at \<Rightarrow> saturating_sub now at < TRUST_EVIDENCE_WINDOW)"

definition has_fresh_evidence :: "ReadinessTracker \<Rightarrow> TenantId \<Rightarrow> nat \<Rightarrow> bool" where
  "has_fresh_evidence self tenant now = list_ex (\<lambda>(known, evidence). known = tenant \<and> fresh_evidence now evidence) self"

definition newest_evidence_age :: "ReadinessTracker \<Rightarrow> nat \<Rightarrow> nat option" where
  "newest_evidence_age self now =
     (case map (\<lambda>at. saturating_sub now at) (List.map_filter snd self) of
        [] \<Rightarrow> None
      | age # ages \<Rightarrow> Some (foldl min age ages))"



section \<open>The verified control read\<close>

datatype TrustRefreshOutcome = Refreshed | CacheHit | Unavailable

definition outcome_token :: "TrustRefreshOutcome \<Rightarrow> str" where
  "outcome_token self = (case self of
     Refreshed \<Rightarrow> lit ''refreshed'' | CacheHit \<Rightarrow> lit ''cache_hit'' | Unavailable \<Rightarrow> lit ''unavailable'')"

definition outcome_index :: "TrustRefreshOutcome \<Rightarrow> nat" where
  "outcome_index self = (case self of Refreshed \<Rightarrow> 0 | CacheHit \<Rightarrow> 1 | Unavailable \<Rightarrow> 2)"

text \<open>The part of the server state that a control read touches; \<open>refresh\<close> holds the three counters.\<close>

record ServerState =
  trust :: TrustConfig
  trust_cache :: BoundedTrustCache
  readiness :: ReadinessTracker
  refresh :: "u64 list"


definition record_trust_refresh :: "u64 list \<Rightarrow> TrustRefreshOutcome \<Rightarrow> u64 list" where
  "record_trust_refresh counters outcome = counters[outcome_index outcome := counters ! outcome_index outcome + 1]"

text \<open>\<open>verify_control_record_resolved\<close> with the state that its one-shot resolver captures.\<close>

definition control_record_in_state :: "verifier \<Rightarrow> u8 list \<Rightarrow>
    (TenantId \<Rightarrow> KeyId \<Rightarrow> Timestamp \<Rightarrow> 's \<Rightarrow> (AuthorityChainError + ResolvedAuthority) \<times> 's) \<Rightarrow> 's \<Rightarrow>
    (AuthorityChainError + ResolvedAuthority) \<times> 's" where
  "control_record_in_state verify envelope resolve s = (case parse envelope of
     Inr (Object object) \<Rightarrow>
       (case control_request object of
          Inl e \<Rightarrow> (Inl e, s)
        | Inr (tenant_id, signer_id, signature, signed_at) \<Rightarrow>
            (case resolve tenant_id signer_id signed_at s of (result, s') \<Rightarrow>
               (and_then result (control_signature verify object signature), s')))
   | _ \<Rightarrow> (Inl MalformedRecord, s))"

text \<open>The chain has no force outside the read's tenant.\<close>

definition guard_tenant :: "TenantId \<Rightarrow> TenantId \<Rightarrow> AuthorityChainError + unit" where
  "guard_tenant tenant record_tenant = (if record_tenant \<noteq> tenant then Inl RecordDisagreement else Inr ())"

text \<open>The resolver of the read: the cell \<^verbatim>\<open>walked\<close> is set when the cache calls its walk, that is, on a miss.\<close>

definition read_resolver :: "verifier \<Rightarrow> PinnedAuthorityRoot \<Rightarrow> store_view \<Rightarrow> nat \<Rightarrow> TenantId \<Rightarrow>
    TenantId \<Rightarrow> KeyId \<Rightarrow> Timestamp \<Rightarrow> BoundedTrustCache \<times> bool \<Rightarrow>
    (AuthorityChainError + ResolvedAuthority) \<times> BoundedTrustCache \<times> bool" where
  "read_resolver verify pinned fetch now tenant record_tenant signer signed_at s =
     (case s of (cache, did_walk) \<Rightarrow>
        (case guard_tenant tenant record_tenant of
           Inl e \<Rightarrow> (Inl e, cache, did_walk)
         | Inr _ \<Rightarrow>
             (case cache_resolve cache now record_tenant signer signed_at
                 (\<lambda>_ signer. resolve_authority verify pinned signer fetch) of (result, cache') \<Rightarrow>
               (result, cache', did_walk \<or> fst (fresh_resolution cache record_tenant signer now) = None))))"

text \<open>\<open>now\<close> is the cache clock's reading in the call, \<open>instant\<close> the one \<open>record_evidence\<close> takes.\<close>

definition record_verified_control_read_inner :: "verifier \<Rightarrow> ServerState \<Rightarrow> nat \<Rightarrow> nat \<Rightarrow> TenantId \<Rightarrow> u8 list \<Rightarrow>
    store_view \<Rightarrow> (AuthorityChainError + unit) \<times> bool \<times> ServerState" where
  "record_verified_control_read_inner verify self now instant tenant envelope fetch =
     (case root_for (trust self) tenant of
        None \<Rightarrow> (Inl RecordDisagreement, False, self)
      | Some root \<Rightarrow>
          (case Ed25519PublicKey_parse (authority root) of
             Inl _ \<Rightarrow> (Inl MalformedRecord, False, self)
           | Inr half \<Rightarrow>
               (case control_record_in_state verify envelope
                   (read_resolver verify (root_new tenant half) fetch now tenant) (trust_cache self, False) of
                  (result, cache, did_walk) \<Rightarrow>
                    let self = self\<lparr>trust_cache := cache\<rparr>
                    in (case result of
                          Inl e \<Rightarrow> (Inl e, did_walk, self)
                        | Inr _ \<Rightarrow>
                            (case record_evidence (readiness self) tenant instant of (found, tracker) \<Rightarrow>
                               (if found then Inr () else Inl RecordDisagreement, did_walk, self\<lparr>readiness := tracker\<rparr>))))))"

definition record_verified_control_read :: "verifier \<Rightarrow> ServerState \<Rightarrow> nat \<Rightarrow> nat \<Rightarrow> TenantId \<Rightarrow> u8 list \<Rightarrow>
    store_view \<Rightarrow> (AuthorityChainError + unit) \<times> ServerState" where
  "record_verified_control_read verify self now instant tenant envelope fetch =
     (case record_verified_control_read_inner verify self now instant tenant envelope fetch of
        (outcome, did_walk, self) \<Rightarrow>
          (outcome, self\<lparr>refresh := record_trust_refresh (refresh self)
             (case outcome of Inr _ \<Rightarrow> if did_walk then Refreshed else CacheHit | Inl _ \<Rightarrow> Unavailable)\<rparr>))"

definition newest_trust_age_seconds :: "ServerState \<Rightarrow> nat \<Rightarrow> nat option" where
  "newest_trust_age_seconds self now = map_option (\<lambda>age. age div 1000000000) (newest_evidence_age (readiness self) now)"

section \<open>The anchor set and the ledger\<close>








lemma record_evidence_unknown: "record_evidence ts tenant now = (False, ts') \<Longrightarrow> ts' = ts"
  by (induction ts tenant now arbitrary: ts' rule: record_evidence.induct) (auto split: if_splits prod.splits)

section \<open>A verified read\<close>

lemma control_record_in_state_fst:
  "fst (control_record_in_state verify envelope resolve s) =
     verify_control_record_resolved verify envelope (\<lambda>t k at. fst (resolve t k at s))"
  by (auto simp: control_record_in_state_def verify_control_record_resolved_def verify_control_object_def
      split: sum.splits Value.splits prod.splits)


section \<open>Concurrent reads\<close>


















text \<open>A failed read never changes the ledger.\<close>

lemma failed_read_keeps_evidence:
  "record_verified_control_read verify s now instant t envelope fetch = (Inl err, s') \<Longrightarrow> readiness s' = readiness s"
  by (auto simp: record_verified_control_read_def record_verified_control_read_inner_def Let_def
      split: prod.splits option.splits sum.splits if_splits dest: record_evidence_unknown)

section \<open>A sample read\<close>





section \<open>Properties\<close>



end
