(* ===== verification/Admission.thy ===== *)
theory Admission
  imports Vocabulary Checked_Arith "HOL-Library.Sublist"
begin

text \<open>
  The admission guards of a replica (\<^verbatim>\<open>archivist-server/src/guard.rs\<close>): the in-flight caps of the
  process and of each client, and the per-client token bucket. The semaphore (\<^verbatim>\<open>tokio::sync::Semaphore\<close>)
  is the argument \<open>ops\<close>, with its documented behaviour as the hypothesis \<open>semaphore_ok\<close>. The \<^verbatim>\<open>u128\<close>
  credit is a \<open>nat\<close>, saturating where the code saturates; an \<^verbatim>\<open>Instant\<close> is a number of nanoseconds.
  The handlers read the instant before they take the ledger's lock, so the bucket sees instants in any order.
\<close>

section \<open>Rejections\<close>

datatype GuardRejection = ProcessAtCapacity | ClientAtCapacity | ClientRateExhausted

definition rejection_token :: "GuardRejection \<Rightarrow> str" where
  "rejection_token self = (case self of
     ProcessAtCapacity \<Rightarrow> lit ''process_at_capacity''
   | ClientAtCapacity \<Rightarrow> lit ''client_at_capacity''
   | ClientRateExhausted \<Rightarrow> lit ''client_rate_exhausted'')"

definition rejection_error_code :: "GuardRejection \<Rightarrow> str" where
  "rejection_error_code self = lit ''request.rate_limited''"

definition rejection_retryable :: "GuardRejection \<Rightarrow> bool" where
  "rejection_retryable self = True"

section \<open>The token bucket\<close>

definition CREDIT_PER_REQUEST :: nat where
  "CREDIT_PER_REQUEST = 60000000"

definition U128_MAX :: nat where
  "U128_MAX = 2 ^ 128 - 1"

record TokenBucket =
  credit :: nat
  last_seen :: nat

definition try_consume :: "TokenBucket \<Rightarrow> u32 \<Rightarrow> u32 \<Rightarrow> nat \<Rightarrow> bool \<times> TokenBucket" where
  "try_consume self rate_per_minute burst now =
     (if rate_per_minute = 0 \<and> burst = 0 then (True, self)
      else
        let elapsed_micros = (now - last_seen self) div 1000;
            earned = min (elapsed_micros * unat rate_per_minute) U128_MAX;
            credit = min (credit self + earned) U128_MAX;
            credit = min credit (unat burst * CREDIT_PER_REQUEST)
        in if credit \<ge> CREDIT_PER_REQUEST
           then (True, \<lparr>credit = credit - CREDIT_PER_REQUEST, last_seen = now\<rparr>)
           else (False, \<lparr>credit = credit, last_seen = now\<rparr>))"

section \<open>The gate\<close>

record 's semaphore =
  sem_new :: "nat \<Rightarrow> 's"
  try_acquire :: "'s \<Rightarrow> 's option"
  sem_release :: "'s \<Rightarrow> 's"

text \<open>A semaphore counts permits: one is taken exactly when one is left, and a dropped permit comes back.\<close>

definition semaphore_ok :: "'s semaphore \<Rightarrow> ('s \<Rightarrow> nat) \<Rightarrow> bool" where
  "semaphore_ok ops permits \<longleftrightarrow> (\<forall>n. permits (sem_new ops n) = n) \<and>
     (\<forall>s. try_acquire ops s = None \<longleftrightarrow> permits s = 0) \<and>
     (\<forall>s s'. try_acquire ops s = Some s' \<longrightarrow> permits s = permits s' + 1) \<and>
     (\<forall>s. permits (sem_release ops s) = permits s + 1)"

record 's ClientEntry =
  inflight :: 's
  bucket :: TokenBucket

record 's AdmissionGate =
  process :: 's
  clients :: "ClientId \<Rightarrow> 's ClientEntry option"
  max_inflight_per_client :: u32
  rate_per_minute :: u32
  burst :: u32
  inflight_gauge :: u64

definition admission_gate_new :: "'s semaphore \<Rightarrow> u32 \<Rightarrow> u32 \<Rightarrow> u32 \<Rightarrow> u32 \<Rightarrow> 's AdmissionGate" where
  "admission_gate_new ops capacity per_client rate burst_count =
     \<lparr>process = sem_new ops (unat capacity), clients = \<lambda>_. None, max_inflight_per_client = per_client,
      rate_per_minute = rate, burst = burst_count, inflight_gauge = 0\<rparr>"

definition ingest_inflight_add :: "u64 \<Rightarrow> u64 \<Rightarrow> u64" where
  "ingest_inflight_add gauge count = gauge + count"

definition ingest_inflight_sub :: "u64 \<Rightarrow> u64 \<Rightarrow> u64" where
  "ingest_inflight_sub gauge count = (if gauge < count then 0 else gauge - count)"

definition try_admit_process :: "'s semaphore \<Rightarrow> 's AdmissionGate \<Rightarrow> (GuardRejection + unit) \<times> 's AdmissionGate" where
  "try_admit_process ops self = (case try_acquire ops (process self) of
     Some s \<Rightarrow> (Inr (), self\<lparr>process := s, inflight_gauge := ingest_inflight_add (inflight_gauge self) 1\<rparr>)
   | None \<Rightarrow> (Inl ProcessAtCapacity, self))"

text \<open>Dropping a \<^verbatim>\<open>ProcessAdmission\<close>: its own \<^verbatim>\<open>drop\<close>, then its permit.\<close>

definition drop_process_admission :: "'s semaphore \<Rightarrow> 's AdmissionGate \<Rightarrow> 's AdmissionGate" where
  "drop_process_admission ops self =
     self\<lparr>inflight_gauge := ingest_inflight_sub (inflight_gauge self) 1, process := sem_release ops (process self)\<rparr>"

definition client_entry_new :: "'s semaphore \<Rightarrow> 's AdmissionGate \<Rightarrow> nat \<Rightarrow> 's ClientEntry" where
  "client_entry_new ops self now =
     \<lparr>inflight = sem_new ops (unat (max_inflight_per_client self)),
      bucket = \<lparr>credit = unat (burst self) * CREDIT_PER_REQUEST, last_seen = now\<rparr>\<rparr>"

definition admit_client :: "'s semaphore \<Rightarrow> 's AdmissionGate \<Rightarrow> ClientId \<Rightarrow> nat \<Rightarrow>
    (GuardRejection + unit) \<times> 's AdmissionGate" where
  "admit_client ops self client now =
     (let entry = (case clients self client of Some entry \<Rightarrow> entry | None \<Rightarrow> client_entry_new ops self now)
      in case try_acquire ops (inflight entry) of
           None \<Rightarrow> (Inl ClientAtCapacity, self\<lparr>clients := (clients self)(client \<mapsto> entry)\<rparr>)
         | Some s \<Rightarrow>
             (case try_consume (bucket entry) (rate_per_minute self) (burst self) now of
                (False, b) \<Rightarrow> (Inl ClientRateExhausted,
                  self\<lparr>clients := (clients self)(client \<mapsto> \<lparr>inflight = sem_release ops s, bucket = b\<rparr>)\<rparr>)
              | (True, b) \<Rightarrow> (Inr (),
                  self\<lparr>clients := (clients self)(client \<mapsto> \<lparr>inflight = s, bucket = b\<rparr>)\<rparr>)))"

text \<open>Dropping a \<^verbatim>\<open>ClientAdmission\<close> returns its permit.\<close>

definition drop_client_admission :: "'s semaphore \<Rightarrow> 's AdmissionGate \<Rightarrow> ClientId \<Rightarrow> 's AdmissionGate" where
  "drop_client_admission ops self client = (case clients self client of
     None \<Rightarrow> self
   | Some entry \<Rightarrow> self\<lparr>clients := (clients self)(client \<mapsto> entry\<lparr>inflight := sem_release ops (inflight entry)\<rparr>)\<rparr>)"

section \<open>The bucket bounds every stretch of calls\<close>

text \<open>
  The decisions of a bucket, each with the instant it was passed. The bucket earns credit for every step
  forward from one instant to the next, so what bounds it is how far a stretch of instants climbs.
\<close>

definition admitted :: "(nat \<times> bool) list \<Rightarrow> nat" where
  "admitted ds = length (filter snd ds)"

fun ascent :: "nat list \<Rightarrow> nat" where
  "ascent (a # b # ts) = (b - a) + ascent (b # ts)"
| "ascent _ = 0"

lemma admitted_snoc [simp]: "admitted [] = 0" "admitted [(t, ok)] = of_bool ok" "admitted (ds @ [(t, ok)]) = admitted ds + of_bool ok"
  by (simp_all add: admitted_def)

lemma ascent_snoc: "ts \<noteq> [] \<Longrightarrow> ascent (ts @ [t]) = ascent ts + (t - last ts)"
  by (induction ts rule: ascent.induct) auto

lemma ascent_sorted: "sorted ts \<Longrightarrow> ts \<noteq> [] \<Longrightarrow> ascent ts = last ts - hd ts \<and> hd ts \<le> last ts"
  by (induction ts rule: ascent.induct) (auto dest: order_trans)

text \<open>All in units of a credit times a thousand nanoseconds.\<close>

definition bucket_inv :: "u32 \<Rightarrow> u32 \<Rightarrow> (nat \<times> bool) list \<Rightarrow> TokenBucket \<Rightarrow> bool" where
  "bucket_inv rate burst_count ds b \<longleftrightarrow>
     credit b \<le> unat burst_count * 60000000 \<and> (ds \<noteq> [] \<longrightarrow> last_seen b = fst (last ds)) \<and>
     (\<forall>ys. suffix ys ds \<longrightarrow> ys \<noteq> [] \<longrightarrow> admitted ys * 60000000000 + credit b * 1000 \<le>
        unat burst_count * 60000000000 + unat rate * ascent (map fst ys)) \<and>
     (\<forall>ys. sublist ys ds \<longrightarrow> admitted ys * 60000000000 \<le> unat burst_count * 60000000000 + unat rate * ascent (map fst ys))"

lemma try_consume_spends:
  assumes "try_consume b rate burst_count now = (ok, b')" "rate \<noteq> 0 \<or> burst_count \<noteq> 0"
  shows "last_seen b' = now"
    and "of_bool ok * 60000000 + credit b' \<le> unat burst_count * 60000000"
    and "of_bool ok * 60000000000 + credit b' * 1000 \<le> credit b * 1000 + unat rate * (now - last_seen b)"
proof -
  define c where "c = min (min (credit b + min ((now - last_seen b) div 1000 * unat rate) U128_MAX) U128_MAX)
    (unat burst_count * CREDIT_PER_REQUEST)"
  have ok: "ok \<longleftrightarrow> CREDIT_PER_REQUEST \<le> c" "b' = \<lparr>credit = c - of_bool ok * CREDIT_PER_REQUEST, last_seen = now\<rparr>"
    using assms unfolding try_consume_def Let_def c_def [symmetric] by (auto split: if_splits)
  then show "last_seen b' = now" by simp
  have sum: "of_bool ok * 60000000 + credit b' = c" using ok by (auto simp: CREDIT_PER_REQUEST_def)
  then show "of_bool ok * 60000000 + credit b' \<le> unat burst_count * 60000000" by (simp add: c_def CREDIT_PER_REQUEST_def)
  have "(now - last_seen b) div 1000 * unat rate * 1000 \<le> unat rate * (now - last_seen b)"
    using mult_le_mono2 [OF div_times_less_eq_dividend [of "now - last_seen b" 1000], of "unat rate"] by (simp add: ac_simps)
  then have "c * 1000 \<le> credit b * 1000 + unat rate * (now - last_seen b)"
    unfolding c_def by (smt (verit) add_mult_distrib min.cobounded1 mult_le_mono1 add_left_mono order_trans)
  then show "of_bool ok * 60000000000 + credit b' * 1000 \<le> credit b * 1000 + unat rate * (now - last_seen b)"
    using sum by simp
qed

lemma suffix_of_snoc: "suffix ys (xs @ [x]) \<Longrightarrow> ys \<noteq> [] \<Longrightarrow> \<exists>zs. ys = zs @ [x] \<and> suffix zs xs"
  by (cases ys rule: rev_cases) (auto simp: suffix_def)

lemma bucket_inv_step:
  assumes "bucket_inv rate burst_count ds b" "try_consume b rate burst_count now = (ok, b')" "rate \<noteq> 0 \<or> burst_count \<noteq> 0"
  shows "bucket_inv rate burst_count (ds @ [(now, ok)]) b'"
proof -
  note sp = try_consume_spends [OF assms(2,3)]
  have tail: "admitted ys * 60000000000 + credit b' * 1000 \<le> unat burst_count * 60000000000 + unat rate * ascent (map fst ys)"
    if suf: "suffix ys (ds @ [(now, ok)])" "ys \<noteq> []" for ys
  proof -
    obtain zs where zs: "ys = zs @ [(now, ok)]" "suffix zs ds"
      using suffix_of_snoc [OF suf] by blast
    show ?thesis
    proof (cases "zs = []")
      case True
      then show ?thesis using sp(2) unfolding zs by simp
    next
      case False
      then have "last_seen b = last (map fst zs)"
        using zs(2) assms(1) by (auto simp: bucket_inv_def suffix_def last_map)
      then have "unat rate * ascent (map fst ys) = unat rate * ascent (map fst zs) + unat rate * (now - last_seen b)"
        using False unfolding zs by (simp add: ascent_snoc distrib_left)
      moreover have "admitted zs * 60000000000 + credit b * 1000 \<le> unat burst_count * 60000000000 + unat rate * ascent (map fst zs)"
        using assms(1) zs(2) False by (simp add: bucket_inv_def)
      moreover have "admitted ys * 60000000000 = admitted zs * 60000000000 + of_bool ok * 60000000000" by (simp add: zs)
      ultimately show ?thesis using sp(3) by linarith
    qed
  qed
  have "admitted ys * 60000000000 \<le> unat burst_count * 60000000000 + unat rate * ascent (map fst ys)"
    if "sublist ys (ds @ [(now, ok)])" for ys
  proof (cases "ys \<noteq> [] \<and> suffix ys (ds @ [(now, ok)])")
    case True
    then show ?thesis using tail [of ys] by linarith
  next
    case False
    then have "ys = [] \<or> sublist ys ds" using that by (auto simp: sublist_snoc)
    then show ?thesis using assms(1) by (auto simp: bucket_inv_def)
  qed
  then show ?thesis using tail sp(1,2) unfolding bucket_inv_def by auto
qed

lemma bucket_inv_new: "bucket_inv rate burst_count [] \<lparr>credit = unat burst_count * CREDIT_PER_REQUEST, last_seen = now\<rparr>"
  by (auto simp: bucket_inv_def CREDIT_PER_REQUEST_def)

text \<open>Instants in order: a window of time is a stretch of calls that climbs no further than the window.\<close>

lemma window_prefix: "sorted (map fst ds) \<Longrightarrow> prefix (filter (\<lambda>(t :: nat, _). t \<le> z) ds) ds"
proof (induction ds)
  case (Cons d ds)
  have "filter (\<lambda>(t, _). t \<le> z) ds = []" if "\<not> fst d \<le> z" using Cons.prems that by (force simp: filter_empty_conv)
  then show ?case using Cons by (cases d) auto
qed simp

lemma window_sublist: "sorted (map fst ds) \<Longrightarrow> sublist (filter (\<lambda>(t :: nat, _). a \<le> t \<and> t \<le> z) ds) ds"
proof (induction ds)
  case (Cons d ds)
  show ?case
  proof (cases "fst d < a")
    case True
    then show ?thesis using Cons by (cases d) (auto simp: sublist_Cons_right)
  next
    case False
    then have "filter (\<lambda>(t, _). a \<le> t \<and> t \<le> z) (d # ds) = filter (\<lambda>(t, _). t \<le> z) (d # ds)"
      using Cons.prems by (intro filter_cong) force+
    then show ?thesis using window_prefix [OF Cons.prems, of z] by (simp only: prefix_imp_sublist)
  qed
qed simp

lemma window_ascent:
  assumes "sorted (map fst ds)"
  shows "ascent (map fst (filter (\<lambda>(t :: nat, _). a \<le> t \<and> t \<le> z) ds)) \<le> z - a"
proof (cases "filter (\<lambda>(t, _). a \<le> t \<and> t \<le> z) ds = []")
  case False
  let ?ts = "map fst (filter (\<lambda>(t, _). a \<le> t \<and> t \<le> z) ds)"
  have "sorted ?ts" using assms by (rule sorted_filter)
  moreover have "hd ?ts \<in> set ?ts" "last ?ts \<in> set ?ts" using False by (simp_all del: set_map)
  moreover have "\<forall>t \<in> set ?ts. a \<le> t \<and> t \<le> z" by auto
  ultimately show ?thesis using ascent_sorted [of ?ts] False by fastforce
qed simp

text \<open>An instant that arrives late moves the mark back, and the time up to the mark is credited again.\<close>

lemma late_instant_credits_twice:
  "try_consume \<lparr>credit = 0, last_seen = 0\<rparr> 60 1 1000000000 = (True, \<lparr>credit = 0, last_seen = 1000000000\<rparr>)"
  "try_consume \<lparr>credit = 0, last_seen = 1000000000\<rparr> 60 1 0 = (False, \<lparr>credit = 0, last_seen = 0\<rparr>)"
  by (simp_all add: try_consume_def U128_MAX_def CREDIT_PER_REQUEST_def)

section \<open>Runs of the gate\<close>

text \<open>
  A world is the gate with the admissions that are still held and, as a ghost, the log of the buckets'
  decisions in the order of the ledger's lock. Calls and drops come in any order, with any instants.
\<close>

record 's gate_world =
  gate :: "'s AdmissionGate"
  process_held :: nat
  client_held :: "ClientId \<Rightarrow> nat"
  decisions :: "(ClientId \<times> nat \<times> bool) list"

inductive admission_run :: "'s semaphore \<Rightarrow> u32 \<Rightarrow> u32 \<Rightarrow> u32 \<Rightarrow> u32 \<Rightarrow> 's gate_world \<Rightarrow> bool"
  for ops capacity per_client rate burst_count where
  gate_started: "admission_run ops capacity per_client rate burst_count
    \<lparr>gate = admission_gate_new ops capacity per_client rate burst_count, process_held = 0, client_held = \<lambda>_. 0, decisions = []\<rparr>"
| process_called: "admission_run ops capacity per_client rate burst_count w \<Longrightarrow>
    try_admit_process ops (gate w) = (result, g) \<Longrightarrow>
    admission_run ops capacity per_client rate burst_count
      (w\<lparr>gate := g, process_held := process_held w + of_bool (result = Inr ())\<rparr>)"
| process_dropped: "admission_run ops capacity per_client rate burst_count w \<Longrightarrow> process_held w > 0 \<Longrightarrow>
    admission_run ops capacity per_client rate burst_count
      (w\<lparr>gate := drop_process_admission ops (gate w), process_held := process_held w - 1\<rparr>)"
| client_called: "admission_run ops capacity per_client rate burst_count w \<Longrightarrow>
    admit_client ops (gate w) c now = (result, g) \<Longrightarrow>
    admission_run ops capacity per_client rate burst_count
      (w\<lparr>gate := g, client_held := (client_held w)(c := client_held w c + of_bool (result = Inr ())),
         decisions := decisions w @ (if result = Inl ClientAtCapacity then [] else [(c, now, result = Inr ())])\<rparr>)"
| client_dropped: "admission_run ops capacity per_client rate burst_count w \<Longrightarrow> client_held w c > 0 \<Longrightarrow>
    admission_run ops capacity per_client rate burst_count
      (w\<lparr>gate := drop_client_admission ops (gate w) c, client_held := (client_held w)(c := client_held w c - 1)\<rparr>)"

definition decisions_of :: "(ClientId \<times> nat \<times> bool) list \<Rightarrow> ClientId \<Rightarrow> (nat \<times> bool) list" where
  "decisions_of log c = map snd (filter (\<lambda>(d, _). d = c) log)"

lemma decisions_of_simps [simp]: "decisions_of [] c = []" "decisions_of (log @ xs) c = decisions_of log c @ decisions_of xs c"
  "decisions_of [(d, t)] c = (if d = c then [t] else [])"
  by (simp_all add: decisions_of_def)

definition process_inv :: "('s \<Rightarrow> nat) \<Rightarrow> u32 \<Rightarrow> 's gate_world \<Rightarrow> bool" where
  "process_inv permits capacity w \<longleftrightarrow> permits (process (gate w)) + process_held w = unat capacity \<and>
     inflight_gauge (gate w) = of_nat (process_held w)"

definition client_inv :: "('s \<Rightarrow> nat) \<Rightarrow> u32 \<Rightarrow> u32 \<Rightarrow> u32 \<Rightarrow> 's ClientEntry option \<Rightarrow> nat \<Rightarrow> (nat \<times> bool) list \<Rightarrow> bool" where
  "client_inv permits per_client rate burst_count entry held ds \<longleftrightarrow> (case entry of
     None \<Rightarrow> held = 0 \<and> ds = []
   | Some entry \<Rightarrow> permits (inflight entry) + held = unat per_client \<and>
       (if rate = 0 \<and> burst_count = 0 then list_all snd ds else bucket_inv rate burst_count ds (bucket entry)))"

definition limits_inv :: "u32 \<Rightarrow> u32 \<Rightarrow> u32 \<Rightarrow> 's gate_world \<Rightarrow> bool" where
  "limits_inv per_client rate burst_count w \<longleftrightarrow> max_inflight_per_client (gate w) = per_client \<and>
     rate_per_minute (gate w) = rate \<and> burst (gate w) = burst_count"

text \<open>One call for a client whose entry is \<open>entry\<close>, new or known.\<close>

lemma admit_client_entry:
  assumes "semaphore_ok ops permits" "admit_client ops g c now = (result, g')"
    "entry = (case clients g c of Some entry \<Rightarrow> entry | None \<Rightarrow> client_entry_new ops g now)"
    "client_inv permits per_client (rate_per_minute g) (burst g) (Some entry) held ds"
  obtains entry' where "clients g' = (clients g)(c \<mapsto> entry')" "process g' = process g" "inflight_gauge g' = inflight_gauge g"
    "max_inflight_per_client g' = max_inflight_per_client g" "rate_per_minute g' = rate_per_minute g" "burst g' = burst g"
    "client_inv permits per_client (rate_per_minute g) (burst g) (Some entry') (held + of_bool (result = Inr ()))
       (ds @ (if result = Inl ClientAtCapacity then [] else [(now, result = Inr ())]))"
proof (cases "try_acquire ops (inflight entry)")
  case None
  then have "result = Inl ClientAtCapacity" "g' = g\<lparr>clients := (clients g)(c \<mapsto> entry)\<rparr>"
    using assms(2) by (simp_all add: admit_client_def Let_def assms(3) [symmetric])
  then show thesis by (intro that [of entry]) (simp_all add: assms(4))
next
  case (Some s)
  obtain ok b where t: "try_consume (bucket entry) (rate_per_minute g) (burst g) now = (ok, b)" by fastforce
  have r: "result = (if ok then Inr () else Inl ClientRateExhausted)"
      "g' = g\<lparr>clients := (clients g)(c \<mapsto> \<lparr>inflight = (if ok then s else sem_release ops s), bucket = b\<rparr>)\<rparr>"
    using assms(2) Some by (cases ok; simp add: admit_client_def Let_def assms(3) [symmetric] t)+
  have p: "permits (inflight entry) = permits s + 1" "permits (sem_release ops s) = permits s + 1"
    using assms(1) Some by (auto simp: semaphore_ok_def)
  have off: "ok" if "rate_per_minute g = 0 \<and> burst g = 0" using that t by (simp add: try_consume_def)
  show thesis
    by (rule that [of "\<lparr>inflight = (if ok then s else sem_release ops s), bucket = b\<rparr>"])
      (use p off assms(4) bucket_inv_step [OF _ t] in \<open>auto simp: r client_inv_def\<close>)
qed

definition clients_inv :: "('s \<Rightarrow> nat) \<Rightarrow> u32 \<Rightarrow> u32 \<Rightarrow> u32 \<Rightarrow> 's gate_world \<Rightarrow> bool" where
  "clients_inv permits per_client rate burst_count w \<longleftrightarrow> (\<forall>c. client_inv permits per_client rate burst_count
     (clients (gate w) c) (client_held w c) (decisions_of (decisions w) c))"

lemma process_call_inv:
  assumes "semaphore_ok ops permits" "try_admit_process ops (gate w) = (result, g)" "process_inv permits capacity w"
  shows "process_inv permits capacity (w\<lparr>gate := g, process_held := process_held w + of_bool (result = Inr ())\<rparr>)"
    "clients g = clients (gate w)" "max_inflight_per_client g = max_inflight_per_client (gate w)"
    "rate_per_minute g = rate_per_minute (gate w)" "burst g = burst (gate w)"
  using assms by (auto simp: process_inv_def try_admit_process_def semaphore_ok_def ingest_inflight_add_def split: option.splits)

lemma process_drop_inv:
  assumes "semaphore_ok ops permits" "process_inv permits capacity w" "process_held w > 0"
  shows "process_inv permits capacity (w\<lparr>gate := drop_process_admission ops (gate w), process_held := process_held w - 1\<rparr>)"
proof -
  have p: "permits (process (gate w)) + process_held w = unat capacity" "inflight_gauge (gate w) = of_nat (process_held w)"
    using assms(2) by (auto simp: process_inv_def)
  have "unat capacity < 2 ^ LENGTH(32)" by (rule unsigned_less)
  then have "process_held w < 2 ^ 64" using p(1) by simp
  then have "unat (of_nat (process_held w) :: u64) = process_held w" by (simp add: unat_of_nat)
  then have "\<not> (of_nat (process_held w) :: u64) < 1" using assms(3) by (simp add: word_less_nat_alt)
  then show ?thesis using p assms(1,3)
    by (simp add: process_inv_def drop_process_admission_def semaphore_ok_def ingest_inflight_sub_def of_nat_diff)
qed

lemma client_call_inv:
  assumes "semaphore_ok ops permits" "admit_client ops (gate w) c now = (result, g)"
    "limits_inv per_client rate burst_count w" "clients_inv permits per_client rate burst_count w"
  shows "clients_inv permits per_client rate burst_count
      (w\<lparr>gate := g, client_held := (client_held w)(c := client_held w c + of_bool (result = Inr ())),
         decisions := decisions w @ (if result = Inl ClientAtCapacity then [] else [(c, now, result = Inr ())])\<rparr>)"
    "process g = process (gate w)" "inflight_gauge g = inflight_gauge (gate w)" "max_inflight_per_client g = per_client"
    "rate_per_minute g = rate" "burst g = burst_count"
proof -
  let ?entry = "case clients (gate w) c of Some entry \<Rightarrow> entry | None \<Rightarrow> client_entry_new ops (gate w) now"
  let ?ds = "decisions_of (decisions w) c"
  have lim: "max_inflight_per_client (gate w) = per_client" "rate_per_minute (gate w) = rate" "burst (gate w) = burst_count"
    using assms(3) by (auto simp: limits_inv_def)
  have ci: "client_inv permits per_client rate burst_count (clients (gate w) d) (client_held w d) (decisions_of (decisions w) d)" for d
    using assms(4) by (auto simp: clients_inv_def)
  have e: "client_inv permits per_client (rate_per_minute (gate w)) (burst (gate w)) (Some ?entry) (client_held w c) ?ds"
    using ci [of c] assms(1) bucket_inv_new [of rate burst_count now]
    by (auto simp: client_inv_def client_entry_new_def lim semaphore_ok_def split: option.splits)
  obtain entry' where n: "clients g = (clients (gate w))(c \<mapsto> entry')" "process g = process (gate w)"
      "inflight_gauge g = inflight_gauge (gate w)" "max_inflight_per_client g = max_inflight_per_client (gate w)"
      "rate_per_minute g = rate_per_minute (gate w)" "burst g = burst (gate w)"
      "client_inv permits per_client (rate_per_minute (gate w)) (burst (gate w)) (Some entry') (client_held w c + of_bool (result = Inr ()))
         (?ds @ (if result = Inl ClientAtCapacity then [] else [(now, result = Inr ())]))"
    by (rule admit_client_entry [OF assms(1,2) refl e])
  show "clients_inv permits per_client rate burst_count
      (w\<lparr>gate := g, client_held := (client_held w)(c := client_held w c + of_bool (result = Inr ())),
         decisions := decisions w @ (if result = Inl ClientAtCapacity then [] else [(c, now, result = Inr ())])\<rparr>)"
    unfolding clients_inv_def using n(7) [unfolded lim] ci by (cases "result = Inl ClientAtCapacity") (auto simp: n(1))
  show "process g = process (gate w)" "inflight_gauge g = inflight_gauge (gate w)" "max_inflight_per_client g = per_client"
    "rate_per_minute g = rate" "burst g = burst_count" using n(2-6) by (simp_all add: lim)
qed

lemma client_drop_inv:
  assumes "semaphore_ok ops permits" "clients_inv permits per_client rate burst_count w" "client_held w c > 0"
  shows "clients_inv permits per_client rate burst_count
    (w\<lparr>gate := drop_client_admission ops (gate w) c, client_held := (client_held w)(c := client_held w c - 1)\<rparr>)"
proof -
  have ci: "client_inv permits per_client rate burst_count (clients (gate w) d) (client_held w d) (decisions_of (decisions w) d)" for d
    using assms(2) by (simp add: clients_inv_def)
  obtain entry where e: "clients (gate w) c = Some entry"
    using ci [of c] assms(3) by (cases "clients (gate w) c") (simp_all add: client_inv_def)
  have "client_inv permits per_client rate burst_count (Some (entry\<lparr>inflight := sem_release ops (inflight entry)\<rparr>))
      (client_held w c - 1) (decisions_of (decisions w) c)"
    using ci [of c] assms(1,3) by (simp add: client_inv_def e semaphore_ok_def)
  then show ?thesis using ci by (simp add: clients_inv_def drop_client_admission_def e)
qed

lemma admission_inv:
  assumes "semaphore_ok ops permits" "admission_run ops capacity per_client rate burst_count w"
  shows "limits_inv per_client rate burst_count w \<and> process_inv permits capacity w \<and>
    clients_inv permits per_client rate burst_count w"
  using assms(2)
proof induction
  case gate_started
  then show ?case using assms(1)
    by (simp add: limits_inv_def process_inv_def clients_inv_def client_inv_def admission_gate_new_def semaphore_ok_def)
next
  case (process_called w result g)
  then have "process_inv permits capacity w" by simp
  note call = process_call_inv [OF assms(1) process_called.hyps(2) this]
  show ?case using process_called.IH call
    by (simp add: limits_inv_def clients_inv_def)
next
  case (process_dropped w)
  then show ?case using process_drop_inv [OF assms(1)]
    by (simp add: limits_inv_def clients_inv_def drop_process_admission_def)
next
  case (client_called w now c result g)
  then have "limits_inv per_client rate burst_count w" "clients_inv permits per_client rate burst_count w" by simp_all
  note call = client_call_inv [OF assms(1) client_called.hyps(2) this]
  show ?case using client_called.IH call
    by (simp add: limits_inv_def process_inv_def)
next
  case (client_dropped w c)
  then have "limits_inv per_client rate burst_count (w\<lparr>gate := drop_client_admission ops (gate w) c, client_held := x\<rparr>)"
      "process_inv permits capacity (w\<lparr>gate := drop_client_admission ops (gate w) c, client_held := x\<rparr>)" for x
    by (simp_all add: limits_inv_def process_inv_def drop_client_admission_def split: option.split)
  then show ?case using client_dropped client_drop_inv [OF assms(1)] by blast
qed

section \<open>Properties\<close>

text \<open>
  C24. The admission guards hold in every run, whatever the order of calls and drops and whatever instants
  the calls bring, for every semaphore with its documented behaviour. The requests in flight never exceed the
  process cap and the gauge counts them; no client exceeds its in-flight share. With the rate and burst
  both zero the bucket is off and refuses nothing. Otherwise, of any stretch of a client's
  calls that reach its bucket, in the order of the lock, at most \<open>burst + rate * ascent / 60 s\<close> are admitted, where the ascent
  is the sum of the steps forward between consecutive instants. For a client whose instants arrive in order this
  gives the rate limit: at most \<open>burst + rate * (z - a) / 60 s\<close> in every window from \<open>a\<close> to \<open>z\<close>.
\<close>

theorem admission_is_bounded:
  assumes "semaphore_ok ops permits" "admission_run ops capacity per_client rate burst_count w"
  shows "process_held w \<le> unat capacity \<and> inflight_gauge (gate w) = of_nat (process_held w) \<and>
    client_held w c \<le> unat per_client \<and>
    (if rate = 0 \<and> burst_count = 0 then list_all snd (decisions_of (decisions w) c)
     else (sublist ys (decisions_of (decisions w) c) \<longrightarrow>
             admitted ys * (60 * 1000000000) \<le> unat burst_count * (60 * 1000000000) + unat rate * ascent (map fst ys)) \<and>
          (sorted (map fst (decisions_of (decisions w) c)) \<longrightarrow>
             admitted (filter (\<lambda>(t, _). a \<le> t \<and> t \<le> z) (decisions_of (decisions w) c)) * (60 * 1000000000) \<le>
               unat burst_count * (60 * 1000000000) + unat rate * (z - a)))"
proof -
  note inv = admission_inv [OF assms]
  let ?ds = "decisions_of (decisions w) c"
  have c: "client_inv permits per_client rate burst_count (clients (gate w) c) (client_held w c) ?ds"
    using inv by (simp add: clients_inv_def)
  have stretch: "admitted ys * 60000000000 \<le> unat burst_count * 60000000000 + unat rate * ascent (map fst ys)"
    if "sublist ys ?ds" "\<not> (rate = 0 \<and> burst_count = 0)" for ys
    using c that by (cases "clients (gate w) c") (auto simp: client_inv_def bucket_inv_def)
  have window: "admitted (filter (\<lambda>(t, _). a \<le> t \<and> t \<le> z) ?ds) * 60000000000 \<le> unat burst_count * 60000000000 + unat rate * (z - a)"
    if "sorted (map fst ?ds)" "\<not> (rate = 0 \<and> burst_count = 0)"
    using stretch [OF window_sublist [OF that(1)] that(2), of a z] mult_le_mono2 [OF window_ascent [OF that(1), of a z], of "unat rate"]
    by linarith
  have off: "list_all snd ?ds" if "rate = 0 \<and> burst_count = 0"
    using c that by (cases "clients (gate w) c") (auto simp: client_inv_def)
  have "client_held w c \<le> unat per_client" using c by (cases "clients (gate w) c") (auto simp: client_inv_def)
  then show ?thesis using inv stretch [of ys] window off by (simp add: process_inv_def)
qed

text \<open>A counter of permits behaves as documented.\<close>

definition permit_counter :: "nat semaphore" where
  "permit_counter = \<lparr>sem_new = \<lambda>n. n, try_acquire = \<lambda>s. if s = 0 then None else Some (s - 1), sem_release = Suc\<rparr>"

theorem admission_is_bounded_witness:
  "semaphore_ok permit_counter (\<lambda>n. n) \<and>
   (\<exists>w. admission_run permit_counter 16 4 60 8 w \<and> decisions w = [([], 5, True)] \<and> client_held w [] \<le> 4 \<and>
      admitted (filter (\<lambda>(t, _). 0 \<le> t \<and> t \<le> 1000000000) (decisions_of (decisions w) [])) \<le> 9)"
proof -
  have ok: "semaphore_ok permit_counter (\<lambda>n. n)" by (auto simp: semaphore_ok_def permit_counter_def)
  let ?g = "admission_gate_new permit_counter 16 4 60 8"
  obtain result g where a: "admit_client permit_counter ?g [] 5 = (result, g)" by fastforce
  then have "result = Inr ()"
    by (simp add: admit_client_def Let_def admission_gate_new_def client_entry_new_def permit_counter_def try_consume_def
        CREDIT_PER_REQUEST_def U128_MAX_def)
  then obtain w where w: "admission_run permit_counter 16 4 60 8 w" "decisions w = [([], 5, True)]"
    using client_called [OF gate_started [of permit_counter 16 4 60 8], of "[]" 5 result g] a by fastforce
  note bound = admission_is_bounded [OF ok w(1), of "[]" "[]" 0 1000000000]
  have "admitted (filter (\<lambda>(t, _). 0 \<le> t \<and> t \<le> 1000000000) (decisions_of (decisions w) [])) \<le> 9" "client_held w [] \<le> 4"
    using bound by (simp_all add: w(2))
  then show ?thesis using ok w by blast
qed

end
