(* ===== verification/Spec2Isabelle.thy ===== *)
theory Spec2Isabelle
  imports Derivation Object_Key Scheduler Json_Canonical Framing Pressure Readiness Admission
begin

text \<open>
  A verification library of the agent archivist, a system that copies the session records of coding
  agents into an object store. A client discovers sources, measures and schedules their backlog,
  spools it and uploads it as signed, two-part requests; a stateless replica admits a request,
  reads its framing, authorizes the uploader against a tenant's trust registry and commits
  content-addressed objects under derived keys. The wire vocabulary, the canonical JSON and
  the identity derivations are shared by both sides. The sources are the crates under
  \<^verbatim>\<open>src/crates\<close>; file names below are relative to it.

  \<^bold>\<open>Conventions.\<close> \<open>Prelude\<close> has the shared types: a \<^verbatim>\<open>str\<close> is the list of its bytes, a \<^verbatim>\<open>Result\<close> a sum with
  the error on the left and \<open>and_then\<close> for \<^verbatim>\<open>?\<close>, a panic the value \<open>None\<close> of an option. Integers are
  words where their width matters (SHA-256, the framed lengths, counters that wrap) and \<open>nat\<close> or \<open>int\<close>
  with the saturation or the range check written out elsewhere (\<open>Checked_Arith\<close>). A method that
  takes \<^verbatim>\<open>&mut self\<close> returns the new state. Constructors, fields and functions keep the names of the code, with a
  prefix where two components use the same name. Third-party code, the operating system and
  trait objects are arguments: the signature verifier, the store view behind \<^verbatim>\<open>fetch\<close>, the byte
  source, the rows of an SQL query, the semaphore, the clock readings.

  \<^bold>\<open>Protocol.\<close>
  \<^item> \<open>Sha256\<close>: \<^verbatim>\<open>archivist-protocol/src/sha256.rs\<close>. The incremental hasher is the FIPS 180-4 digest of the
    concatenated input however it is cut; the hex codec is exact.
  \<^item> \<open>Vocabulary\<close>: \<^verbatim>\<open>archivist-protocol/src/vocabulary.rs\<close>. Every parser accepts exactly the canonical
    text of one value (locale \<open>wire_type\<close>, interpreted for each type), and the hand-written grammars accept
    exactly the languages of the schemas' regular expressions, which are written out as patterns.
  \<^item> \<open>Derivation\<close>: \<^verbatim>\<open>archivist-protocol/src/derivation.rs\<close>. The labelled, length-framed preimages are injective, so equal
    identities mean equal inputs or an exhibited SHA-256 collision, and the signing input covers
    every field of an attempt.
  \<^item> \<open>Object_Key\<close>: \<^verbatim>\<open>archivist-protocol/src/object_key.rs\<close>. Keys parse back to their components and never
    coincide for different objects.
  \<^item> \<open>Utf8\<close>, \<open>Json\<close>, \<open>Json_Canonical\<close>: \<^verbatim>\<open>archivist-protocol/src/json.rs\<close> with the text functions of the standard
    library it uses. Objects refine finite maps (locale \<open>member_map\<close>), the parser is total and
    bounded in depth and length, and parsing and canonical rendering are inverse.

  \<^bold>\<open>Client.\<close>
  \<^item> \<open>Status\<close>: \<^verbatim>\<open>archivist-adapter-sdk/src/status.rs\<close>, and \<open>Inventory\<close>: \<^verbatim>\<open>archivist-client-core/src/inventory.rs\<close>. Every byte of a
    source is acknowledged, outstanding or reported as an anomaly; the report is the grouping of
    the measured sources, with its sums at the width of \<^verbatim>\<open>u64\<close> under both build profiles: \<open>checks\<close> says
    whether an overflow panics or wraps.
  \<^item> \<open>Scheduler\<close>: \<^verbatim>\<open>archivist-client-core/src/scheduler.rs\<close>. A round stays within capacity and quantum without
    overflow, reserves freshness first, does not depend on the order of its input and makes progress
    exactly when a whole chunk fits.
  \<^item> \<open>Pressure\<close>: \<^verbatim>\<open>archivist-client-core/src/spool/pressure.rs\<close>. The pause is a function of the history of measurements
    as long as the resume point is not above the cap.

  \<^bold>\<open>Trust.\<close>
  \<^item> \<open>Authority\<close> and \<open>Authority_Chain\<close>: \<^verbatim>\<open>archivist-auth/src/authority.rs\<close>. The chain walk refines the inductive
    relation \<open>trusted\<close>; a control record is accepted exactly when a trusted, accepted key signed its
    canonical bytes; what the publication gate admits, a successor already held included, and what that does
    to the chain.
  \<^item> \<open>Trust_Cache\<close>: \<^verbatim>\<open>archivist-auth/src/trust_cache.rs\<close>, with the atomic sections of concurrent calls as a step relation
    over real time. The wall clock is an arbitrary function of real time. No interleaving serves a resolution past
    60 seconds of wall clock, that is, 60 seconds of real time plus what the wall clock fell behind. A walk is one
    step, on one view of the registry.

  \<^bold>\<open>Server.\<close>
  \<^item> \<open>Framing\<close>: \<^verbatim>\<open>archivist-server/src/parse/framing.rs\<close>. The tokenizer with its bounded window refines an abstract
    framing system, reads exactly the framed parts of a body below the window size, and is sound for
    larger ones, for every byte source that keeps the contract (locales \<open>byte_source\<close>, \<open>reliable_source\<close>).
  \<^item> \<open>Readiness\<close>: \<^verbatim>\<open>archivist-server/src/trust.rs\<close>, and the evidence ledger and verified control read of
    \<^verbatim>\<open>archivist-server/src/state.rs\<close>. It composes the anchors, the trust cache and the authority chain: a replica that
    reports itself ready has, for each tenant, verified a record less than a minute ago on a registry view less than
    a minute of wall clock older, with reads from concurrent tasks in any interleaving (\<open>replica_run\<close>, of which the
    sequential \<open>record_verified_control_read\<close> is an instance by \<open>read_is_a_run\<close>).
  \<^item> \<open>Admission\<close>: \<^verbatim>\<open>archivist-server/src/guard.rs\<close>. In-flight caps and the token bucket bound every run, with the
    instants of the calls in any order.

  \<^bold>\<open>Termination and bounds.\<close> No definition uses fuel. The JSON methods terminate because a value consumes a
  byte, the tokenizer because a round that neither stops nor yields pulls bytes or moves to a later
  stage, the chain walk because the keys it holds are distinct 32-byte identifiers, the padding loop
  of SHA-256 because it fills a block. The numeric bounds (64 levels and 8 MiB in the JSON
  parser, an 8 KiB framing window, leases of 60 seconds, an overlap of 24 hours) are those of the code.

  \<^bold>\<open>Not modelled.\<close> Ed25519, SHA-512 and SigV4 (the theorems hold for every verifier); the SQLite state,
  the spool files and the upload loop; the harness adapters and the capture proxies; the
  redaction and derivation pipeline over captured text; the other families of signed control records, which
  repeat the construction modelled for the rotation record under policies of their own; the ingest envelope; the routes,
  the decoders and the storage layer, whose behaviour is that of third-party or external services behind asynchronous
  traits; configuration files and the command line; generated bindings. Of the modelled modules, the
  JSON renderings of the status and inventory reports, the metrics exposition and the
  \<^verbatim>\<open>Display\<close> texts of some errors are left out. Poisoned locks have no model.
\<close>

section \<open>Two calendars, one count\<close>

text \<open>
  The authority chain and the inventory carry calendars of their own. They count the same days, and
  the Unix second of the inventory is the instant the chain compares, leap seconds included.
\<close>

lemma calendars_agree: "days_from_civil_utc year month day = days_from_civil year month day"
  by (simp add: days_from_civil_utc_def days_from_civil_def Let_def algebra_simps)

lemma clocks_agree:
  assumes "calendar_valid stamp"
  shows "epoch_seconds stamp = (if fst (utc_instant stamp) \<ge> 0 then Some (nat (fst (utc_instant stamp))) else None)"
  using assms by (simp add: epoch_seconds_def utc_instant_def calendars_agree Let_def algebra_simps)

end
